(* ===== verification/Rust_Prelude.thy ===== *)
theory Rust_Prelude
  imports Main "HOL-Library.Word" "HOL-Library.List_Lexorder" "HOL-Library.Char_ord"
begin

text \<open>
  Shared ground of the development: Rust's fixed-width integers with the arithmetic the
  kernel uses (release builds of the kernel wrap on \<open>+\<close>, \<open>-\<close> and \<open>*\<close>; the saturating
  operations are written out), the slice and \<open>Vec\<close> operations (\<open>position\<close>, \<open>find\<close>
  followed by an in-place update, \<open>retain\<close>), and \<open>BTreeMap\<close> as an association list
  sorted by key. The interface of \<open>BTreeMap\<close> is the locale \<open>ordered_map\<close>; it is
  interpreted on the operations below, and the components use its facts.
\<close>

unbundle bit_operations_syntax

section \<open>Integers\<close>

type_synonym u8 = "8 word"
type_synonym u16 = "16 word"
type_synonym u32 = "32 word"
type_synonym u64 = "64 word"
type_synonym usize = "64 word"

named_theorems u64_arith \<open>moves inequalities of machine words to natural numbers\<close>

declare word_le_nat_alt [u64_arith] word_less_nat_alt [u64_arith]

definition saturating_add :: "'a::len word \<Rightarrow> 'a word \<Rightarrow> 'a word" where
  "saturating_add a b = (if a \<le> a + b then a + b else - 1)"

definition saturating_sub :: "'a::len word \<Rightarrow> 'a word \<Rightarrow> 'a word" where
  "saturating_sub a b = (if b \<le> a then a - b else 0)"

text \<open>
  An \<open>i32\<close> is an integer in \<open>[-2^31, 2^31)\<close>; addition and subtraction wrap.
\<close>

definition i32_wrap :: "int \<Rightarrow> int" where
  "i32_wrap x = (x + 2 ^ 31) mod 2 ^ 32 - 2 ^ 31"

definition i32_range :: "int \<Rightarrow> bool" where
  "i32_range x \<longleftrightarrow> - (2 ^ 31) \<le> x \<and> x < 2 ^ 31"

section \<open>Slices and vectors\<close>

primrec position :: "('a \<Rightarrow> bool) \<Rightarrow> 'a list \<Rightarrow> nat option" where
  "position P [] = None"
| "position P (x # xs) = (if P x then Some 0 else map_option Suc (position P xs))"

text \<open>\<open>iter_mut().find(P)\<close> followed by an update of the element found.\<close>

primrec upd_first :: "('a \<Rightarrow> bool) \<Rightarrow> ('a \<Rightarrow> 'a) \<Rightarrow> 'a list \<Rightarrow> 'a list" where
  "upd_first P f [] = []"
| "upd_first P f (x # xs) = (if P x then f x # xs else x # upd_first P f xs)"

text \<open>\<open>Vec::remove(i)\<close> and \<open>Vec::insert(i, x)\<close>; both are only called within bounds.\<close>

definition vec_remove :: "nat \<Rightarrow> 'a list \<Rightarrow> 'a list" where
  "vec_remove i xs = take i xs @ drop (Suc i) xs"

definition vec_insert :: "nat \<Rightarrow> 'a \<Rightarrow> 'a list \<Rightarrow> 'a list" where
  "vec_insert i x xs = take i xs @ x # drop i xs"

section \<open>Ordered maps\<close>

type_synonym ('k, 'v) btree = "('k \<times> 'v) list"

primrec bt_get :: "('k, 'v) btree \<Rightarrow> 'k \<Rightarrow> 'v option" where
  "bt_get [] k = None"
| "bt_get (e # m) k = (if fst e = k then Some (snd e) else bt_get m k)"

primrec bt_insert :: "'k::linorder \<Rightarrow> 'v \<Rightarrow> ('k, 'v) btree \<Rightarrow> ('k, 'v) btree" where
  "bt_insert k v [] = [(k, v)]"
| "bt_insert k v (e # m) =
     (if k < fst e then (k, v) # e # m
      else if k = fst e then (k, v) # m
      else e # bt_insert k v m)"

definition bt_remove :: "'k \<Rightarrow> ('k, 'v) btree \<Rightarrow> ('k, 'v) btree" where
  "bt_remove k m = filter (\<lambda>e. fst e \<noteq> k) m"

definition bt_contains :: "('k, 'v) btree \<Rightarrow> 'k \<Rightarrow> bool" where
  "bt_contains m k \<longleftrightarrow> bt_get m k \<noteq> None"

definition bt_ok :: "('k::linorder, 'v) btree \<Rightarrow> bool" where
  "bt_ok m \<longleftrightarrow> sorted_wrt (<) (map fst m)"

text \<open>
  What a client of an ordered map relies on: an entry is found after its insertion, it is
  gone after its removal, other keys are untouched, and the key order is an invariant of
  every operation.
\<close>

locale ordered_map =
  fixes empty :: "'m"
    and get :: "'m \<Rightarrow> 'k \<Rightarrow> 'v option"
    and ins :: "'k \<Rightarrow> 'v \<Rightarrow> 'm \<Rightarrow> 'm"
    and del :: "'k \<Rightarrow> 'm \<Rightarrow> 'm"
    and invar :: "'m \<Rightarrow> bool"
  assumes get_empty: "get empty k = None"
    and get_ins: "get (ins k v m) = (get m)(k \<mapsto> v)"
    and get_del: "get (del k m) = (get m)(k := None)"
    and invar_empty: "invar empty"
    and invar_ins: "invar m \<Longrightarrow> invar (ins k v m)"
    and invar_del: "invar m \<Longrightarrow> invar (del k m)"
begin

lemma get_ins_same: "get (ins k v m) k = Some v"
  by (simp add: get_ins)

lemma get_ins_other: "k \<noteq> j \<Longrightarrow> get (ins k v m) j = get m j"
  by (simp add: get_ins)

lemma get_del_same: "get (del k m) k = None"
  by (simp add: get_del)

lemma get_del_other: "k \<noteq> j \<Longrightarrow> get (del k m) j = get m j"
  by (simp add: get_del)

lemma dom_ins: "dom (get (ins k v m)) = insert k (dom (get m))"
  by (simp add: get_ins)

lemma dom_del: "dom (get (del k m)) = dom (get m) - {k}"
  by (simp add: get_del)

end

lemma bt_get_insert: "bt_get (bt_insert k v m) = (bt_get m)(k \<mapsto> v)"
  by (induction m) (auto simp: fun_eq_iff)

lemma bt_get_remove: "bt_get (bt_remove k m) = (bt_get m)(k := None)"
  by (induction m) (auto simp: fun_eq_iff bt_remove_def)

lemma fst_set_bt_insert: "fst ` set (bt_insert k v m) = insert k (fst ` set m)"
  by (induction m) auto

lemma bt_ok_insert: "bt_ok m \<Longrightarrow> bt_ok (bt_insert k v m)"
proof (induction m)
  case Nil
  then show ?case by (simp add: bt_ok_def)
next
  case (Cons e m)
  then have "bt_ok m" and head: "\<forall>x \<in> fst ` set m. fst e < x"
    by (auto simp: bt_ok_def)
  then have "bt_ok (bt_insert k v m)" using Cons.IH by simp
  with head Cons.prems show ?case
    using fst_set_bt_insert [of k v m] by (fastforce simp: bt_ok_def)
qed

lemma bt_ok_remove: "bt_ok m \<Longrightarrow> bt_ok (bt_remove k m)"
  by (induction m) (auto simp: bt_ok_def bt_remove_def)

interpretation bt: ordered_map "[]" bt_get bt_insert bt_remove bt_ok
  by unfold_locales (auto simp: bt_get_insert bt_get_remove bt_ok_insert bt_ok_remove, simp add: bt_ok_def)

lemmas bt_simps [simp] = bt.get_ins_same bt.get_del_same

section \<open>Shared lemmas\<close>

lemma unat_add_u64: "unat a + unat b < 2 ^ 64 \<Longrightarrow> unat (a + b :: u64) = unat a + unat b"
  by (subst unat_add_lem [symmetric]) simp_all

lemma unat_sub_u64: "b \<le> a \<Longrightarrow> unat (a - b :: u64) = unat a - unat b"
  by (simp add: unat_sub)

lemma unat_all_ones: "unat (- 1 :: 'a::len word) = 2 ^ LENGTH('a) - 1"
  by transfer (simp add: take_bit_minus_one_eq_mask mask_eq_exp_minus_1 nat_diff_distrib' nat_power_eq)

lemma unat_saturating_add:
  "unat (saturating_add a b :: 'a::len word) = min (unat a + unat b) (2 ^ LENGTH('a) - 1)"
proof (cases "a \<le> a + b")
  case True
  then have "unat a + unat b < 2 ^ LENGTH('a)"
    by (simp add: no_olen_add_nat)
  then show ?thesis using True
    by (simp add: saturating_add_def unat_word_ariths)
next
  case False
  then have "\<not> unat a + unat b < 2 ^ LENGTH('a)"
    by (simp add: no_olen_add_nat)
  then show ?thesis using False
    by (simp add: saturating_add_def unat_all_ones)
qed

lemma unat_saturating_sub: "unat (saturating_sub a b) = unat a - unat b"
  by (auto simp: saturating_sub_def unat_sub word_le_nat_alt)

lemma i32_wrap_id: "i32_range x \<Longrightarrow> i32_wrap x = x"
  by (simp add: i32_wrap_def i32_range_def)

lemma i32_range_wrap: "i32_range (i32_wrap x)"
  by (simp add: i32_wrap_def i32_range_def)

lemma position_Some:
  "position P xs = Some i \<Longrightarrow> i < length xs \<and> P (xs ! i) \<and> (\<forall>j < i. \<not> P (xs ! j))"
proof (induction xs arbitrary: i)
  case Nil
  then show ?case by simp
next
  case (Cons x xs)
  then show ?case
    by (cases i) (auto split: if_splits simp: less_Suc_eq_0_disj)
qed

lemma position_split:
  assumes "position P xs = Some i"
  obtains ys x zs where "xs = ys @ x # zs" and "i = length ys" and "P x" and "\<forall>y \<in> set ys. \<not> P y"
proof
  from position_Some [OF assms] have i: "i < length xs" "P (xs ! i)" "\<forall>j < i. \<not> P (xs ! j)" by auto
  then show "xs = take i xs @ xs ! i # drop (Suc i) xs" and "i = length (take i xs)"
    by (simp_all add: id_take_nth_drop)
  from i show "P (xs ! i)" and "\<forall>y \<in> set (take i xs). \<not> P y"
    by (auto simp: in_set_conv_nth)
qed

lemma vec_remove_mid [simp]: "vec_remove (length ys) (ys @ x # zs) = ys @ zs"
  by (simp add: vec_remove_def)

lemma vec_insert_mid [simp]: "vec_insert (length ys) x (ys @ zs) = ys @ x # zs"
  by (simp add: vec_insert_def)

lemma position_None: "position P xs = None \<longleftrightarrow> (\<forall>x \<in> set xs. \<not> P x)"
  by (induction xs) auto

lemma length_upd_first [simp]: "length (upd_first P f xs) = length xs"
  by (induction xs) auto

lemma upd_first_notin: "\<forall>x \<in> set xs. \<not> P x \<Longrightarrow> upd_first P f xs = xs"
  by (induction xs) auto

lemma find_upd_first:
  "(\<And>x. P x \<Longrightarrow> P (f x)) \<Longrightarrow> List.find P (upd_first P f xs) = map_option f (List.find P xs)"
  by (induction xs) auto

lemma map_upd_first: "(\<And>x. P x \<Longrightarrow> g (f x) = g x) \<Longrightarrow> map g (upd_first P f xs) = map g xs"
  by (induction xs) auto

lemma find_Some_in: "List.find P xs = Some x \<Longrightarrow> x \<in> set xs \<and> P x"
  by (induction xs) (auto split: if_splits)

lemma find_None: "List.find P xs = None \<longleftrightarrow> (\<forall>x \<in> set xs. \<not> P x)"
  by (induction xs) auto

lemma pos_cases: "0 < c \<Longrightarrow> 1 < c \<longleftrightarrow> c \<noteq> 1" for c :: "'a::len word"
  by (metis less_irrefl linorder_neqE word_less_1)

lemma map_of_mid_upd:
  "distinct (map fst (ys @ (k, c) # zs)) \<Longrightarrow>
     map_of (ys @ (k, d) # zs) = (map_of (ys @ (k, c) # zs))(k \<mapsto> d)"
  by (induction ys) (auto simp: fun_eq_iff)

lemma map_of_mid_del:
  "distinct (map fst (ys @ (k, c) # zs)) \<Longrightarrow>
     map_of (ys @ zs) = (map_of (ys @ (k, c) # zs))(k := None)"
proof (induction ys)
  case Nil
  then have "map_of zs k = None" by (simp add: map_of_eq_None_iff)
  then show ?case by (auto simp: fun_eq_iff)
qed (auto simp: fun_eq_iff)

section \<open>Single bits\<close>

lemma and_bit_iff:
  "x AND 1 = 0 \<longleftrightarrow> \<not> bit x 0" "x AND 2 = 0 \<longleftrightarrow> \<not> bit x 1" "x AND 4 = 0 \<longleftrightarrow> \<not> bit x 2"
  "x AND 8 = 0 \<longleftrightarrow> \<not> bit x 3" "x AND 0x10 = 0 \<longleftrightarrow> \<not> bit x 4" for x :: "'a::len word"
  using and_exp_eq_0_iff_not_bit [of x 0] and_exp_eq_0_iff_not_bit [of x 1] and_exp_eq_0_iff_not_bit [of x 2]
    and_exp_eq_0_iff_not_bit [of x 3] and_exp_eq_0_iff_not_bit [of x 4] by simp_all

lemma unat_and_fff: "unat (x AND 0xFFF) = unat x mod 0x1000" for x :: u64
proof -
  have "x AND 0xFFF = take_bit 12 x" by (simp add: take_bit_eq_mask mask_eq_exp_minus_1)
  also have "unat \<dots> = unat x mod 0x1000"
    by (simp only: unsigned_take_bit_eq) (simp add: take_bit_eq_mod)
  finally show ?thesis .
qed

lemma unat_of_nat_small: "n < 2 ^ 64 \<Longrightarrow> unat (of_nat n :: u64) = n"
  by (simp add: unsigned_of_nat take_bit_nat_eq_self)

end
