(* ===== verification/Inode_Pins.thy ===== *)
theory Inode_Pins
  imports Rust_Prelude
begin

text \<open>
  The kernel pins on inodes of \<open>vfs/mod.rs\<close>: the pin table \<open>PINNED_INODES\<close>, the
  deferred-deletion list \<open>DELETED_INODES\<close> and the queue \<open>PENDING_INODE_REAP\<close> as one
  record, and the operations that place and drop a pin, decide whether an unlinked inode
  may be freed, and drain the queue. Each of the three tables has its own lock in the
  source; an operation takes each lock for one critical section at a time, and the model
  runs these in the source's order. The process fd tables are an argument (one list of
  optional \<open>(mount, inode)\<close> pairs per process), and so is \<open>fs_at\<close>, which tells
  whether a mount index names a file system. A call of \<open>remove_inode\<close> is a value of the
  result: the list of inodes handed to it.
\<close>

section \<open>State\<close>

type_synonym inode_key = "usize \<times> u64"

record pin_state =
  pinned_inodes :: "(inode_key \<times> u32) list"
  pending_inode_reap :: "inode_key list"
  deleted_inodes :: "inode_key list"

type_synonym fd_tables = "inode_key option list list"

section \<open>Operations\<close>

definition pin_inode :: "usize \<Rightarrow> u64 \<Rightarrow> pin_state \<Rightarrow> pin_state" where
  "pin_inode mount_idx inode ps =
     (if mount_idx = - 1 then ps
      else if \<exists>e \<in> set (pinned_inodes ps). fst e = (mount_idx, inode)
      then ps\<lparr>pinned_inodes :=
             upd_first (\<lambda>e. fst e = (mount_idx, inode))
               (\<lambda>e. (fst e, saturating_add (snd e) 1)) (pinned_inodes ps)\<rparr>
      else ps\<lparr>pinned_inodes := pinned_inodes ps @ [((mount_idx, inode), 1)]\<rparr>)"

definition dec_pin :: "usize \<Rightarrow> u64 \<Rightarrow> pin_state \<Rightarrow> bool \<times> pin_state" where
  "dec_pin mount_idx inode ps =
     (case position (\<lambda>e. fst e = (mount_idx, inode)) (pinned_inodes ps) of
        Some idx \<Rightarrow>
          (let e = pinned_inodes ps ! idx in
           if 1 < snd e
           then (False, ps\<lparr>pinned_inodes := (pinned_inodes ps)[idx := (fst e, snd e - 1)]\<rparr>)
           else (True, ps\<lparr>pinned_inodes := vec_remove idx (pinned_inodes ps)\<rparr>))
      | None \<Rightarrow> (False, ps))"

definition inode_is_pinned :: "usize \<Rightarrow> u64 \<Rightarrow> pin_state \<Rightarrow> bool" where
  "inode_is_pinned mount_idx inode ps \<longleftrightarrow>
     (\<exists>e \<in> set (pinned_inodes ps). fst e = (mount_idx, inode) \<and> 0 < snd e)"

definition inode_pin_count :: "usize \<Rightarrow> u64 \<Rightarrow> pin_state \<Rightarrow> u32" where
  "inode_pin_count mount_idx inode ps =
     (case List.find (\<lambda>e. fst e = (mount_idx, inode)) (pinned_inodes ps) of
        Some e \<Rightarrow> snd e | None \<Rightarrow> 0)"

definition still_open :: "fd_tables \<Rightarrow> usize \<Rightarrow> u64 \<Rightarrow> bool" where
  "still_open fds mount_idx inode \<longleftrightarrow> (\<exists>tbl \<in> set fds. Some (mount_idx, inode) \<in> set tbl)"

definition try_free_orphan_inode ::
  "fd_tables \<Rightarrow> (usize \<Rightarrow> bool) \<Rightarrow> usize \<Rightarrow> u64 \<Rightarrow> pin_state \<Rightarrow> bool \<times> pin_state" where
  "try_free_orphan_inode fds fs_at mount_idx inode ps =
     (if still_open fds mount_idx inode \<or> inode_is_pinned mount_idx inode ps then (False, ps)
      else
        (let dl = filter (\<lambda>k. k \<noteq> (mount_idx, inode)) (deleted_inodes ps);
             was_deleted = length dl < length (deleted_inodes ps);
             ps' = ps\<lparr>deleted_inodes := dl\<rparr>
         in (was_deleted \<and> fs_at mount_idx, ps')))"

definition unpin_inode ::
  "fd_tables \<Rightarrow> (usize \<Rightarrow> bool) \<Rightarrow> usize \<Rightarrow> u64 \<Rightarrow> pin_state \<Rightarrow> bool \<times> pin_state" where
  "unpin_inode fds fs_at mount_idx inode ps =
     (if mount_idx = - 1 then (False, ps)
      else
        (let (last, ps') = dec_pin mount_idx inode ps
         in if \<not> last then (False, ps') else try_free_orphan_inode fds fs_at mount_idx inode ps'))"

definition unpin_inode_deferred :: "usize \<Rightarrow> u64 \<Rightarrow> pin_state \<Rightarrow> pin_state" where
  "unpin_inode_deferred mount_idx inode ps =
     (if mount_idx = - 1 then ps
      else
        (let (last, ps') = dec_pin mount_idx inode ps
         in if last
            then ps'\<lparr>pending_inode_reap := pending_inode_reap ps' @ [(mount_idx, inode)]\<rparr>
            else ps'))"

text \<open>The drain loop of \<open>reap_pending_inodes\<close>, with the log of freed inodes.\<close>

fun reap_loop ::
  "fd_tables \<Rightarrow> (usize \<Rightarrow> bool) \<Rightarrow> inode_key list \<Rightarrow> pin_state \<Rightarrow> inode_key list \<times> pin_state" where
  "reap_loop fds fs_at [] ps = ([], ps)"
| "reap_loop fds fs_at (k # ks) ps =
     (let (freed, ps') = try_free_orphan_inode fds fs_at (fst k) (snd k) ps;
          (log, ps'') = reap_loop fds fs_at ks ps'
      in (if freed then k # log else log, ps''))"

definition reap_pending_inodes ::
  "fd_tables \<Rightarrow> (usize \<Rightarrow> bool) \<Rightarrow> pin_state \<Rightarrow> inode_key list \<times> pin_state" where
  "reap_pending_inodes fds fs_at ps =
     (if pending_inode_reap ps = [] then ([], ps)
      else reap_loop fds fs_at (pending_inode_reap ps) (ps\<lparr>pending_inode_reap := []\<rparr>))"

section \<open>Invariant and pin counts\<close>

text \<open>The pin table has one entry per inode and no entry with count zero.\<close>

definition pins_ok :: "pin_state \<Rightarrow> bool" where
  "pins_ok ps \<longleftrightarrow> distinct (map fst (pinned_inodes ps)) \<and> (\<forall>e \<in> set (pinned_inodes ps). 0 < snd e)"

definition pins :: "pin_state \<Rightarrow> inode_key \<Rightarrow> nat" where
  "pins ps k = unat (inode_pin_count (fst k) (snd k) ps)"

lemma upd_first_map_of:
  assumes "distinct (map fst es)" and "(k, c) \<in> set es"
  shows "map_of (upd_first (\<lambda>e. fst e = k) (\<lambda>e. (fst e, f (snd e))) es) = (map_of es)(k \<mapsto> f c)"
  using assms by (induction es) (auto simp: fun_eq_iff image_iff)

lemma find_eq_map_of: "map_option snd (List.find (\<lambda>e. fst e = k) es) = map_of es k"
  by (induction es) auto

lemma inode_pin_count_map_of:
  "inode_pin_count m n ps = (case map_of (pinned_inodes ps) (m, n) of Some c \<Rightarrow> c | None \<Rightarrow> 0)"
  using find_eq_map_of [of "(m, n)" "pinned_inodes ps"]
  by (auto simp: inode_pin_count_def split: option.splits)

lemma in_pins_iff: "(\<exists>e \<in> set es. fst e = k) \<longleftrightarrow> map_of es k \<noteq> None"
  by (induction es) auto

lemma set_upd_first: "set (upd_first P f es) \<subseteq> set es \<union> f ` {e \<in> set es. P e}"
  by (induction es) auto

lemma saturating_add_pos: "0 < (a :: u32) \<Longrightarrow> 0 < saturating_add a 1"
  using unat_saturating_add [of a 1] by (simp add: word_less_nat_alt)

lemma pins_ok_pin_inode: "pins_ok ps \<Longrightarrow> pins_ok (pin_inode m n ps)"
  using set_upd_first [of "\<lambda>e. fst e = (m, n)" "\<lambda>e. (fst e, saturating_add (snd e) 1)" "pinned_inodes ps"]
  by (fastforce simp: pins_ok_def pin_inode_def map_upd_first saturating_add_pos image_iff)

lemma map_of_pin_inode:
  assumes "pins_ok ps" and "m \<noteq> - 1"
  shows "map_of (pinned_inodes (pin_inode m n ps)) =
    (map_of (pinned_inodes ps))((m, n) \<mapsto> saturating_add (inode_pin_count m n ps) 1)"
proof (cases "map_of (pinned_inodes ps) (m, n)")
  case None
  then have "\<not> (\<exists>e \<in> set (pinned_inodes ps). fst e = (m, n))"
    using in_pins_iff [of "pinned_inodes ps" "(m, n)"] by simp
  with None assms(2) show ?thesis
    by (auto simp: pin_inode_def inode_pin_count_map_of saturating_add_def map_add_def fun_eq_iff
          split: option.splits)
next
  case (Some c)
  then have "\<exists>e \<in> set (pinned_inodes ps). fst e = (m, n)"
    using in_pins_iff [of "pinned_inodes ps" "(m, n)"] by simp
  with assms Some show ?thesis
    by (simp add: pin_inode_def pins_ok_def inode_pin_count_map_of
          upd_first_map_of [where f = "\<lambda>c. saturating_add c 1", OF _ map_of_SomeD])
qed

lemma pin_inode_sentinel: "pin_inode (- 1) n ps = ps"
  by (simp add: pin_inode_def)

lemma pins_pin_inode:
  assumes "pins_ok ps" and "pins ps k + 1 < 2 ^ 32"
  shows "pins (pin_inode m n ps) k = pins ps k + (if k = (m, n) \<and> m \<noteq> - 1 then 1 else 0)"
proof (cases "m = - 1")
  case True
  then show ?thesis by (simp add: pin_inode_sentinel)
next
  case False
  have "unat (saturating_add (inode_pin_count m n ps) 1) = pins ps (m, n) + 1" if "k = (m, n)"
    using assms(2) that by (simp add: unat_saturating_add pins_def)
  then show ?thesis
    using map_of_pin_inode [OF assms(1) False, of n] False
    by (cases k) (auto simp: pins_def inode_pin_count_map_of)
qed

lemma dec_pin_absent:
  "map_of (pinned_inodes ps) (m, n) = None \<Longrightarrow> dec_pin m n ps = (False, ps)"
  using in_pins_iff [of "pinned_inodes ps" "(m, n)"]
    position_None [of "\<lambda>e. fst e = (m, n)" "pinned_inodes ps"]
  by (simp add: dec_pin_def)

text \<open>\<open>dec_pin\<close> takes one pin away, and reports the last one.\<close>

lemma dec_pin_present:
  assumes "pins_ok ps" and "map_of (pinned_inodes ps) (m, n) = Some c"
  shows "fst (dec_pin m n ps) \<longleftrightarrow> c = 1"
    and "map_of (pinned_inodes (snd (dec_pin m n ps))) =
      (map_of (pinned_inodes ps))((m, n) := (if c = 1 then None else Some (c - 1)))"
    and "pins_ok (snd (dec_pin m n ps))"
proof -
  have "\<exists>e \<in> set (pinned_inodes ps). fst e = (m, n)"
    using in_pins_iff [of "pinned_inodes ps" "(m, n)"] assms(2) by simp
  then obtain idx where idx: "position (\<lambda>e. fst e = (m, n)) (pinned_inodes ps) = Some idx"
    using position_None [of "\<lambda>e. fst e = (m, n)" "pinned_inodes ps"]
    by (cases "position (\<lambda>e. fst e = (m, n)) (pinned_inodes ps)") simp_all
  obtain ys e zs where es: "pinned_inodes ps = ys @ e # zs" "idx = length ys" "fst e = (m, n)"
    by (rule position_split [OF idx])
  have "((m, n), snd e) = e" using es(3) by (simp add: prod_eq_iff)
  then have "((m, n), snd e) \<in> set (pinned_inodes ps)" using es(1) by simp
  then have "map_of (pinned_inodes ps) (m, n) = Some (snd e)"
    using assms(1) by (simp add: pins_ok_def)
  with assms(2) have "snd e = c" by simp
  with \<open>((m, n), snd e) = e\<close> have e: "e = ((m, n), c)" by simp
  have pos: "0 < c" using assms(1) es e by (simp add: pins_ok_def)
  then have one: "1 < c \<longleftrightarrow> c \<noteq> 1" by (rule pos_cases)
  have dist: "distinct (map fst (ys @ ((m, n), c) # zs))"
    using assms(1) es(1) e by (simp add: pins_ok_def)
  have idx': "position (\<lambda>e. fst e = (m, n)) (ys @ ((m, n), c) # zs) = Some (length ys)"
    using idx es(1,2) e by simp
  have res: "dec_pin m n ps =
      (if c = 1 then (True, ps\<lparr>pinned_inodes := ys @ zs\<rparr>)
       else (False, ps\<lparr>pinned_inodes := ys @ ((m, n), c - 1) # zs\<rparr>))"
    unfolding dec_pin_def es(1) e idx' Let_def by (simp add: one)
  show "fst (dec_pin m n ps) \<longleftrightarrow> c = 1"
    unfolding res by simp
  show "map_of (pinned_inodes (snd (dec_pin m n ps))) =
      (map_of (pinned_inodes ps))((m, n) := (if c = 1 then None else Some (c - 1)))"
    unfolding res es(1) e
    using map_of_mid_upd [OF dist, of "c - 1"] map_of_mid_del [OF dist]
    by (cases "c = 1") simp_all
  have "0 < c - 1" if "c \<noteq> 1"
    using that by (simp add: word_gt_0)
  then show "pins_ok (snd (dec_pin m n ps))"
    using assms(1) dist unfolding res pins_ok_def es(1) e by simp
qed

lemma dec_pin_frame:
  "pending_inode_reap (snd (dec_pin m n ps)) = pending_inode_reap ps"
  "deleted_inodes (snd (dec_pin m n ps)) = deleted_inodes ps"
  by (auto simp: dec_pin_def Let_def split: option.splits)


lemma pins_ok_dec_pin: "pins_ok ps \<Longrightarrow> pins_ok (snd (dec_pin m n ps))"
  by (cases "map_of (pinned_inodes ps) (m, n)") (auto simp: dec_pin_absent dec_pin_present)

lemma pins_dec_pin:
  assumes "pins_ok ps"
  shows "pins (snd (dec_pin m n ps)) = (pins ps)((m, n) := pins ps (m, n) - 1)"
proof (cases "map_of (pinned_inodes ps) (m, n)")
  case None
  then show ?thesis
    by (simp add: dec_pin_absent pins_def inode_pin_count_map_of fun_eq_iff)
next
  case (Some c)
  have "unat (c - 1) = unat c - 1" if "c \<noteq> 1"
    using assms map_of_SomeD [OF Some] by (intro unat_minus_one) (auto simp: pins_ok_def)
  then show ?thesis
    using dec_pin_present(2) [OF assms Some] Some
    by (auto simp: fun_eq_iff pins_def inode_pin_count_map_of)
qed

lemma pins_unpin_inode_deferred:
  assumes "pins_ok ps"
  shows "pins (unpin_inode_deferred m n ps) k = pins ps k - (if k = (m, n) \<and> m \<noteq> - 1 then 1 else 0)"
    and "pins_ok (unpin_inode_deferred m n ps)"
proof -
  have eq: "pinned_inodes (unpin_inode_deferred m n ps) =
      pinned_inodes (if m = - 1 then ps else snd (dec_pin m n ps))"
    by (auto simp: unpin_inode_deferred_def Let_def split: prod.splits)
  then have "pins (unpin_inode_deferred m n ps) k = pins (if m = - 1 then ps else snd (dec_pin m n ps)) k"
    by (simp add: pins_def inode_pin_count_def)
  then show "pins (unpin_inode_deferred m n ps) k = pins ps k - (if k = (m, n) \<and> m \<noteq> - 1 then 1 else 0)"
    using pins_dec_pin [OF assms, of m n] by auto
  show "pins_ok (unpin_inode_deferred m n ps)"
    using assms pins_ok_dec_pin [OF assms, of m n] eq by (auto simp: pins_ok_def split: if_splits)
qed

lemma inode_is_pinned_iff:
  assumes "pins_ok ps"
  shows "inode_is_pinned m n ps \<longleftrightarrow> 0 < pins ps (m, n)"
proof (cases "map_of (pinned_inodes ps) (m, n)")
  case None
  then have "\<not> inode_is_pinned m n ps"
    using in_pins_iff [of "pinned_inodes ps" "(m, n)"] by (auto simp: inode_is_pinned_def)
  with None show ?thesis by (simp add: pins_def inode_pin_count_map_of)
next
  case (Some c)
  from map_of_SomeD [OF Some] assms have "0 < c" by (auto simp: pins_ok_def)
  moreover from map_of_SomeD [OF Some] this have "inode_is_pinned m n ps"
    unfolding inode_is_pinned_def by (intro bexI [of _ "((m, n), c)"]) simp_all
  ultimately show ?thesis
    using Some by (simp add: pins_def inode_pin_count_map_of unat_gt_0 word_gt_0)
qed

section \<open>Freeing\<close>

lemma try_free_orphan_frame:
  "pinned_inodes (snd (try_free_orphan_inode fds fs_at m n ps)) = pinned_inodes ps"
  "pending_inode_reap (snd (try_free_orphan_inode fds fs_at m n ps)) = pending_inode_reap ps"
  "set (deleted_inodes (snd (try_free_orphan_inode fds fs_at m n ps))) \<subseteq> set (deleted_inodes ps)"
  by (auto simp: try_free_orphan_inode_def Let_def)

lemma filter_shorter: "length (filter (\<lambda>x. x \<noteq> k) xs) < length xs \<longleftrightarrow> k \<in> set xs"
proof
  assume "length (filter (\<lambda>x. x \<noteq> k) xs) < length xs"
  then show "k \<in> set xs"
    by (metis (mono_tags, lifting) filter_True less_irrefl)
next
  assume "k \<in> set xs"
  then show "length (filter (\<lambda>x. x \<noteq> k) xs) < length xs"
    by (rule length_filter_less) simp
qed

text \<open>An inode is freed only when it was unlinked, no process has it open and no pin is left.\<close>

lemma try_free_orphan_freed:
  "fst (try_free_orphan_inode fds fs_at m n ps) \<longleftrightarrow>
     \<not> still_open fds m n \<and> \<not> inode_is_pinned m n ps \<and> (m, n) \<in> set (deleted_inodes ps) \<and> fs_at m"
  by (auto simp: try_free_orphan_inode_def Let_def filter_shorter)

lemma reap_loop_freed:
  assumes "k \<in> set (fst (reap_loop fds fs_at ks ps))"
  shows "\<not> still_open fds (fst k) (snd k) \<and> \<not> inode_is_pinned (fst k) (snd k) ps \<and>
    k \<in> set (deleted_inodes ps) \<and> k \<in> set ks"
  using assms
proof (induction ks arbitrary: ps)
  case Nil
  then show ?case by simp
next
  case (Cons j ks)
  let ?r = "try_free_orphan_inode fds fs_at (fst j) (snd j) ps"
  have frame: "pinned_inodes (snd ?r) = pinned_inodes ps" "set (deleted_inodes (snd ?r)) \<subseteq> set (deleted_inodes ps)"
    by (rule try_free_orphan_frame)+
  consider "fst ?r" "k = j" | "k \<in> set (fst (reap_loop fds fs_at ks (snd ?r)))"
    using Cons.prems by (auto simp: Let_def split: prod.splits if_splits)
  then show ?case
  proof cases
    case 1
    then show ?thesis by (simp add: try_free_orphan_freed)
  next
    case 2
    with Cons.IH [OF 2] frame show ?thesis by (auto simp: inode_is_pinned_def)
  qed
qed

lemma reap_loop_frame: "pinned_inodes (snd (reap_loop fds fs_at ks ps)) = pinned_inodes ps"
proof (induction ks arbitrary: ps)
  case (Cons j ks)
  show ?case
    using Cons.IH [of "snd (try_free_orphan_inode fds fs_at (fst j) (snd j) ps)"] try_free_orphan_frame(1)
    by (auto simp: Let_def split: prod.splits)
qed simp

end
