(* ===== verification/Vma_Area.thy ===== *)
theory Vma_Area
  imports Inode_Pins
begin

text \<open>
  One virtual memory area of \<open>mm/vma.rs\<close>: the enum \<open>VmBacking\<close>, the struct \<open>VmArea\<close>
  with its methods, the decoding and the policy of page faults, and page rounding. The
  addresses are \<open>u64\<close>s whose additions wrap as the code's do; \<open>lo\<close> and \<open>hi\<close> read an
  area as an interval of natural numbers, and \<open>wf_area\<close> says that the interval is not
  empty and does not wrap. The hooks \<open>vma_pin_if_shared_file\<close> and
  \<open>vma_unpin_if_shared_file\<close> of \<open>vfs/mod.rs\<close> are here as well, since they read an area.
\<close>

section \<open>Areas\<close>

type_synonym vm_prot = u32
type_synonym vm_flags = u32

abbreviation PROT_READ :: vm_prot where "PROT_READ \<equiv> 1"
abbreviation PROT_WRITE :: vm_prot where "PROT_WRITE \<equiv> 2"
abbreviation PROT_EXEC :: vm_prot where "PROT_EXEC \<equiv> 4"
abbreviation PROT_NONE :: vm_prot where "PROT_NONE \<equiv> 0"

abbreviation MAP_SHARED :: vm_flags where "MAP_SHARED \<equiv> 0x01"
abbreviation MAP_PRIVATE :: vm_flags where "MAP_PRIVATE \<equiv> 0x02"
abbreviation MAP_FIXED :: vm_flags where "MAP_FIXED \<equiv> 0x10"
abbreviation MAP_ANONYMOUS :: vm_flags where "MAP_ANONYMOUS \<equiv> 0x20"
abbreviation MAP_STACK :: vm_flags where "MAP_STACK \<equiv> 0x20000"

abbreviation PAGE_PRESENT :: u64 where "PAGE_PRESENT \<equiv> 0x1"
abbreviation PAGE_WRITABLE :: u64 where "PAGE_WRITABLE \<equiv> 0x2"
abbreviation PAGE_USER :: u64 where "PAGE_USER \<equiv> 0x4"
abbreviation PAGE_NO_EXECUTE :: u64 where "PAGE_NO_EXECUTE \<equiv> 0x8000000000000000"

datatype vm_backing =
    Anonymous
  | File (mount_idx: usize) (inode: u64) (offset: u64) (elf_load_delta: u64)
  | Device (phys_base: u64)

record vm_area =
  va_base :: u64
  va_length :: u64
  va_prot :: vm_prot
  va_flags :: vm_flags
  va_backing :: vm_backing
  va_name :: string

definition va_end :: "vm_area \<Rightarrow> u64" where
  "va_end v = va_base v + va_length v"

definition contains :: "vm_area \<Rightarrow> u64 \<Rightarrow> bool" where
  "contains v addr \<longleftrightarrow> va_base v \<le> addr \<and> addr < va_end v"

definition overlaps :: "vm_area \<Rightarrow> u64 \<Rightarrow> u64 \<Rightarrow> bool" where
  "overlaps v b len \<longleftrightarrow> va_base v < b + len \<and> b < va_end v"

definition to_page_flags :: "vm_area \<Rightarrow> u64" where
  "to_page_flags v =
     (let flags = PAGE_PRESENT;
          flags = (if va_prot v AND PROT_WRITE \<noteq> 0 then flags OR PAGE_WRITABLE else flags);
          flags = (if va_prot v AND PROT_EXEC = 0 then flags OR PAGE_NO_EXECUTE else flags);
          flags = (if va_base v < 0x0000800000000000 then flags OR PAGE_USER else flags)
      in flags)"

section \<open>Page faults\<close>

datatype fault_access = InstructionFetch | Write | Read

definition from_error_code :: "u64 \<Rightarrow> fault_access" where
  "from_error_code err =
     (if err AND 0x10 \<noteq> 0 then InstructionFetch
      else if err AND 0x02 \<noteq> 0 then Write
      else Read)"

definition fault_access_permitted :: "vm_prot \<Rightarrow> fault_access \<Rightarrow> bool" where
  "fault_access_permitted prot access =
     (if prot = PROT_NONE then False
      else case access of
             InstructionFetch \<Rightarrow> prot AND PROT_EXEC \<noteq> 0
           | Write \<Rightarrow> prot AND PROT_WRITE \<noteq> 0
           | Read \<Rightarrow> prot AND (PROT_READ OR PROT_WRITE OR PROT_EXEC) \<noteq> 0)"

datatype write_fault = WriteThrough | CopyOnWrite

definition write_fault_action :: "vm_flags \<Rightarrow> write_fault" where
  "write_fault_action flags = (if flags AND MAP_SHARED \<noteq> 0 then WriteThrough else CopyOnWrite)"

datatype vma_error = Overlap | NoSpace | OutOfMemory | InvalidArg | PermissionDenied

definition page_align_up :: "u64 \<Rightarrow> u64" where
  "page_align_up addr = (addr + 0xFFF) AND NOT 0xFFF"

definition page_align_down :: "u64 \<Rightarrow> u64" where
  "page_align_down addr = addr AND NOT 0xFFF"

section \<open>Pins of shared file mappings\<close>

definition vma_pin_if_shared_file :: "vm_flags \<Rightarrow> vm_backing \<Rightarrow> pin_state \<Rightarrow> pin_state" where
  "vma_pin_if_shared_file flags backing ps =
     (if flags AND MAP_SHARED = 0 then ps
      else case backing of File m n _ _ \<Rightarrow> pin_inode m n ps | _ \<Rightarrow> ps)"

definition vma_unpin_if_shared_file :: "vm_flags \<Rightarrow> vm_backing \<Rightarrow> pin_state \<Rightarrow> pin_state" where
  "vma_unpin_if_shared_file flags backing ps =
     (if flags AND MAP_SHARED = 0 then ps
      else case backing of File m n _ _ \<Rightarrow> unpin_inode_deferred m n ps | _ \<Rightarrow> ps)"

section \<open>Areas as intervals\<close>

definition lo :: "vm_area \<Rightarrow> nat" where
  "lo v = unat (va_base v)"

definition hi :: "vm_area \<Rightarrow> nat" where
  "hi v = unat (va_base v) + unat (va_length v)"

definition wf_area :: "vm_area \<Rightarrow> bool" where
  "wf_area v \<longleftrightarrow> lo v < hi v \<and> hi v < 2 ^ 64"

text \<open>\<open>[b, b + len)\<close> is a range that does not wrap.\<close>

definition wf_range :: "u64 \<Rightarrow> u64 \<Rightarrow> bool" where
  "wf_range b len \<longleftrightarrow> unat b + unat len < 2 ^ 64"

lemma unat_va_end: "wf_area v \<Longrightarrow> unat (va_end v) = hi v"
  by (simp add: wf_area_def va_end_def hi_def unat_add_u64)

lemma unat_range_end: "wf_range b len \<Longrightarrow> unat (b + len) = unat b + unat len"
  by (simp add: wf_range_def unat_add_u64)

lemma wf_area_less: "wf_area v \<Longrightarrow> lo v < hi v"
  by (simp add: wf_area_def)

lemma contains_iff: "wf_area v \<Longrightarrow> contains v a \<longleftrightarrow> lo v \<le> unat a \<and> unat a < hi v"
  by (simp add: contains_def u64_arith unat_va_end lo_def)

lemma overlaps_iff:
  "wf_area v \<Longrightarrow> wf_range b len \<Longrightarrow> overlaps v b len \<longleftrightarrow> lo v < unat b + unat len \<and> unat b < hi v"
  by (simp add: overlaps_def u64_arith unat_va_end unat_range_end lo_def)

lemma wf_area_range: "wf_area v \<Longrightarrow> wf_range (va_base v) (va_length v)"
  by (simp add: wf_area_def wf_range_def hi_def)

lemma overlaps_area_iff:
  "wf_area u \<Longrightarrow> wf_area v \<Longrightarrow> overlaps u (va_base v) (va_length v) \<longleftrightarrow> lo u < hi v \<and> lo v < hi u"
  by (simp add: overlaps_iff wf_area_range) (simp add: lo_def hi_def)

text \<open>
  What an area says of one of its addresses: protection, flags and the byte of backing
  store behind it. For a file the byte is the file offset \<open>offset + (addr - base)\<close>, as the
  fault handler computes it; for a device the physical address \<open>phys_base + (addr - base)\<close>.
\<close>

datatype page_src =
    ZeroPage
  | FilePage usize u64 u64 u64
  | DevicePage u64

definition page_src_at :: "vm_area \<Rightarrow> u64 \<Rightarrow> page_src" where
  "page_src_at v addr =
     (case va_backing v of
        Anonymous \<Rightarrow> ZeroPage
      | File m n off d \<Rightarrow> FilePage m n (off + (addr - va_base v)) d
      | Device p \<Rightarrow> DevicePage (p + (addr - va_base v)))"

type_synonym page_view = "vm_prot \<times> vm_flags \<times> page_src \<times> string"

definition page_at :: "vm_area \<Rightarrow> u64 \<Rightarrow> page_view" where
  "page_at v addr = (va_prot v, va_flags v, page_src_at v addr, va_name v)"

section \<open>Facts\<close>

lemma and_nx_iff: "x AND 0x8000000000000000 = 0 \<longleftrightarrow> \<not> bit x 63" for x :: u64
  using and_exp_eq_0_iff_not_bit [of x 63] by simp

lemma and_not_mask_split: "x AND NOT m = x - (x AND m)" for x :: u64
proof -
  have "(x AND NOT m) + (x AND m) = (x AND NOT m) OR (x AND m)"
    by (rule disjunctive_add) (simp add: bit_and_iff bit_not_iff)
  also have "\<dots> = x"
    by (rule bit_word_eqI) (auto simp: bit_simps)
  finally show ?thesis by (simp add: eq_diff_eq)
qed

lemma unat_page_align_down: "unat (page_align_down x) = unat x div 0x1000 * 0x1000"
proof -
  have "x AND 0xFFF \<le> x" by (rule word_and_le2)
  then have "unat (page_align_down x) = unat x - unat x mod 0x1000"
    unfolding page_align_down_def and_not_mask_split by (simp add: unat_sub unat_and_fff)
  then show ?thesis by (simp add: minus_mod_eq_div_mult)
qed

lemma unat_page_align_up:
  assumes "unat x + 0xFFF < 2 ^ 64"
  shows "unat (page_align_up x) = (unat x + 0xFFF) div 0x1000 * 0x1000"
proof -
  have "unat (x + 0xFFF) = unat x + 0xFFF" using assms by (subst unat_add_u64) simp_all
  moreover have "page_align_up x = page_align_down (x + 0xFFF)"
    by (simp add: page_align_up_def page_align_down_def)
  ultimately show ?thesis by (simp add: unat_page_align_down)
qed

lemma to_page_flags_bits:
  "bit (to_page_flags v) 0"
  "bit (to_page_flags v) 1 \<longleftrightarrow> bit (va_prot v) 1"
  "bit (to_page_flags v) 63 \<longleftrightarrow> \<not> bit (va_prot v) 2"
  "bit (to_page_flags v) 2 \<longleftrightarrow> va_base v < 0x0000800000000000"
  by (simp_all add: to_page_flags_def Let_def and_bit_iff bit_simps)

lemmas to_page_flags_bits' = to_page_flags_bits [unfolded One_nat_def]

lemma and_seven_iff: "x AND 7 = 0 \<longleftrightarrow> \<not> bit x 0 \<and> \<not> bit x 1 \<and> \<not> bit x 2" for x :: u32
proof -
  have "x AND 7 = x AND (1 OR 2 OR 4)" by simp
  also have "\<dots> = 0 \<longleftrightarrow> x AND 1 = 0 \<and> x AND 2 = 0 \<and> x AND 4 = 0"
    unfolding bit.conj_disj_distrib or_eq_0_iff by blast
  finally show ?thesis unfolding and_bit_iff by blast
qed

text \<open>
  The page-table bits that demand paging installs for an area grant exactly what the
  fault policy permits: a write fault is permitted iff the writable bit is set, an
  instruction fetch iff the no-execute bit is clear, and a read iff the area has some
  access at all.
\<close>

theorem fault_policy_matches_page_flags:
  "(fault_access_permitted (va_prot v) Write \<longleftrightarrow> to_page_flags v AND PAGE_WRITABLE \<noteq> 0) \<and>
   (fault_access_permitted (va_prot v) InstructionFetch \<longleftrightarrow> to_page_flags v AND PAGE_NO_EXECUTE = 0) \<and>
   (fault_access_permitted (va_prot v) Read \<longleftrightarrow>
      bit (va_prot v) 0 \<or> bit (va_prot v) 1 \<or> bit (va_prot v) 2)"
  by (auto simp: fault_access_permitted_def and_seven_iff [unfolded One_nat_def] and_bit_iff and_nx_iff to_page_flags_bits')

end
