(* ===== verification/Vma_Space.thy ===== *)
theory Vma_Space
  imports Vma_Area
begin

text \<open>
  The address space \<open>VmSpace\<close> of \<open>mm/vma.rs\<close>: its record, lookup, insertion and removal
  of ranges, with the pins of shared file mappings threaded through. An address space is
  read as a partial function from addresses to pages (\<open>lookup\<close>); insertion and removal
  are shown to be the update and the restriction of that function.
\<close>

section \<open>State and operations\<close>

record vm_space =
  vs_cr3 :: u64
  vs_areas :: "vm_area list"
  vs_mmap_hint :: u64
  vs_stack_aslr_base :: u64
  vs_brk :: u64
  vs_brk_start :: u64
  vs_generation :: u64

definition find_vma :: "vm_space \<Rightarrow> u64 \<Rightarrow> vm_area option" where
  "find_vma s addr = List.find (\<lambda>v. contains v addr) (vs_areas s)"

definition note_mmap_placement :: "u64 \<Rightarrow> bool \<Rightarrow> bool \<Rightarrow> vm_space \<Rightarrow> vm_space" where
  "note_mmap_placement b is_fixed is_stack_alloc s =
     (if \<not> is_fixed \<and> \<not> is_stack_alloc \<and> b < vs_mmap_hint s then s\<lparr>vs_mmap_hint := b\<rparr> else s)"

definition insert_pos :: "vm_area \<Rightarrow> vm_area list \<Rightarrow> nat" where
  "insert_pos v vs = (case position (\<lambda>u. va_base v < va_base u) vs of Some i \<Rightarrow> i | None \<Rightarrow> length vs)"

definition insert_vma ::
  "vm_area \<Rightarrow> vm_space \<Rightarrow> pin_state \<Rightarrow> (vma_error + unit) \<times> vm_space \<times> pin_state" where
  "insert_vma v s ps =
     (if \<exists>u \<in> set (vs_areas s). overlaps u (va_base v) (va_length v) then (Inl Overlap, s, ps)
      else
        (Inr (),
         s\<lparr>vs_areas := vec_insert (insert_pos v (vs_areas s)) v (vs_areas s),
           vs_generation := vs_generation s + 1\<rparr>,
         vma_pin_if_shared_file (va_flags v) (va_backing v) ps))"

text \<open>The file offset of a piece that starts \<open>delta\<close> bytes into the original area.\<close>

definition advance :: "u64 \<Rightarrow> vm_backing \<Rightarrow> vm_backing" where
  "advance delta backing =
     (case backing of File m n off d \<Rightarrow> File m n (off + delta) d | other \<Rightarrow> other)"

text \<open>The loop of \<open>remove_range\<close>: the areas from index \<open>i\<close> on.\<close>

fun remove_loop :: "u64 \<Rightarrow> u64 \<Rightarrow> vm_area list \<Rightarrow> pin_state \<Rightarrow> vm_area list \<times> pin_state" where
  "remove_loop b len [] ps = ([], ps)"
| "remove_loop b len (v # vs) ps =
     (let e = b + len in
      if \<not> overlaps v b len then
        (let (rest, ps') = remove_loop b len vs ps in (v # rest, ps'))
      else if b \<le> va_base v \<and> va_end v \<le> e then
        remove_loop b len vs (vma_unpin_if_shared_file (va_flags v) (va_backing v) ps)
      else if va_base v < b \<and> e < va_end v then
        (let left = v\<lparr>va_length := b - va_base v\<rparr>;
             right = v\<lparr>va_base := e, va_length := va_end v - e,
                       va_backing := advance (e - va_base v) (va_backing v)\<rparr>;
             ps1 = vma_unpin_if_shared_file (va_flags v) (va_backing v) ps;
             ps2 = vma_pin_if_shared_file (va_flags right) (va_backing right) ps1;
             ps3 = vma_pin_if_shared_file (va_flags left) (va_backing left) ps2;
             (rest, ps') = remove_loop b len vs ps3
         in (left # right # rest, ps'))
      else if va_base v < b then
        (let (rest, ps') = remove_loop b len vs ps
         in (v\<lparr>va_length := b - va_base v\<rparr> # rest, ps'))
      else
        (let left_delta = e - va_base v;
             (rest, ps') = remove_loop b len vs ps
         in (v\<lparr>va_backing := advance left_delta (va_backing v), va_base := e,
                va_length := va_length v - left_delta\<rparr> # rest, ps')))"

definition remove_range :: "u64 \<Rightarrow> u64 \<Rightarrow> vm_space \<Rightarrow> pin_state \<Rightarrow> vm_space \<times> pin_state" where
  "remove_range b len s ps =
     (let (vs, ps') = remove_loop b len (vs_areas s) ps
      in (s\<lparr>vs_generation := vs_generation s + 1, vs_areas := vs\<rparr>, ps'))"

section \<open>Invariant and abstraction\<close>

text \<open>The areas are sorted by address and do not overlap.\<close>

definition before :: "vm_area \<Rightarrow> vm_area \<Rightarrow> bool" where
  "before u v \<longleftrightarrow> hi u \<le> lo v"

definition wf_areas :: "vm_area list \<Rightarrow> bool" where
  "wf_areas vs \<longleftrightarrow> sorted_wrt before vs \<and> (\<forall>v \<in> set vs. wf_area v)"

definition lookup_areas :: "vm_area list \<Rightarrow> u64 \<Rightarrow> page_view option" where
  "lookup_areas vs a = map_option (\<lambda>v. page_at v a) (List.find (\<lambda>v. contains v a) vs)"

definition lookup :: "vm_space \<Rightarrow> u64 \<Rightarrow> page_view option" where
  "lookup s a = map_option (\<lambda>v. page_at v a) (find_vma s a)"

definition in_range :: "u64 \<Rightarrow> u64 \<Rightarrow> u64 \<Rightarrow> bool" where
  "in_range b len a \<longleftrightarrow> unat b \<le> unat a \<and> unat a < unat b + unat len"

definition no_device :: "vm_area list \<Rightarrow> bool" where
  "no_device vs \<longleftrightarrow> (\<forall>v \<in> set vs. \<forall>p. va_backing v \<noteq> Device p)"

text \<open>The shared file mappings of an inode among the areas: each owns one pin.\<close>

definition shares :: "inode_key \<Rightarrow> vm_area \<Rightarrow> bool" where
  "shares k v \<longleftrightarrow> va_flags v AND MAP_SHARED \<noteq> 0 \<and>
     (case va_backing v of File m n _ _ \<Rightarrow> (m, n) = k \<and> m \<noteq> - 1 | _ \<Rightarrow> False)"

definition share_count :: "inode_key \<Rightarrow> vm_area list \<Rightarrow> nat" where
  "share_count k vs = length (filter (shares k) vs)"

text \<open>What is left of one area, as a list of at most two areas.\<close>

definition one_if :: "bool \<Rightarrow> nat" where
  "one_if P = (if P then 1 else 0)"

definition left_piece :: "u64 \<Rightarrow> vm_area \<Rightarrow> vm_area" where
  "left_piece b v = v\<lparr>va_length := b - va_base v\<rparr>"

definition right_piece :: "u64 \<Rightarrow> vm_area \<Rightarrow> vm_area" where
  "right_piece e v = v\<lparr>va_base := e, va_length := va_end v - e,
     va_backing := advance (e - va_base v) (va_backing v)\<rparr>"

definition pieces :: "u64 \<Rightarrow> u64 \<Rightarrow> vm_area \<Rightarrow> vm_area list" where
  "pieces b len v =
     (if \<not> overlaps v b len then [v]
      else (if va_base v < b then [left_piece b v] else []) @
           (if b + len < va_end v then [right_piece (b + len) v] else []))"

text \<open>The pin hooks, applied to an area.\<close>

abbreviation pin_of :: "vm_area \<Rightarrow> pin_state \<Rightarrow> pin_state" where
  "pin_of v \<equiv> vma_pin_if_shared_file (va_flags v) (va_backing v)"

abbreviation unpin_of :: "vm_area \<Rightarrow> pin_state \<Rightarrow> pin_state" where
  "unpin_of v \<equiv> vma_unpin_if_shared_file (va_flags v) (va_backing v)"

text \<open>What the loop does to the pins at one area.\<close>

definition pins_step :: "u64 \<Rightarrow> u64 \<Rightarrow> vm_area \<Rightarrow> pin_state \<Rightarrow> pin_state" where
  "pins_step b len v ps =
     (if \<not> overlaps v b len then ps
      else if b \<le> va_base v \<and> va_end v \<le> b + len then unpin_of v ps
      else if va_base v < b \<and> b + len < va_end v
      then pin_of (left_piece b v) (pin_of (right_piece (b + len) v) (unpin_of v ps))
      else ps)"

section \<open>Lookup\<close>

lemma lookup_lookup_areas: "lookup s = lookup_areas (vs_areas s)"
  by (simp add: fun_eq_iff lookup_def lookup_areas_def find_vma_def)

lemma wf_areas_Cons: "wf_areas (v # vs) \<longleftrightarrow> wf_area v \<and> (\<forall>u \<in> set vs. before v u) \<and> wf_areas vs"
  by (auto simp: wf_areas_def)

lemma wf_areas_append:
  "wf_areas (us @ vs) \<longleftrightarrow> wf_areas us \<and> wf_areas vs \<and> (\<forall>u \<in> set us. \<forall>v \<in> set vs. before u v)"
  by (auto simp: wf_areas_def sorted_wrt_append)

lemma wf_areas_mem: "wf_areas vs \<Longrightarrow> v \<in> set vs \<Longrightarrow> wf_area v"
  by (simp add: wf_areas_def)

lemma before_trans: "wf_area v \<Longrightarrow> before u v \<Longrightarrow> before v w \<Longrightarrow> before u w"
  by (auto simp: before_def wf_area_def)

text \<open>An address lies in at most one area, so the first hit is the only one.\<close>

lemma contains_unique:
  assumes "wf_areas vs" "u \<in> set vs" "v \<in> set vs" "contains u a" "contains v a"
  shows "u = v"
  using assms
proof (induction vs)
  case (Cons w vs)
  then show ?case
    using contains_iff [of u a] contains_iff [of v a]
    by (fastforce simp: wf_areas_Cons before_def wf_areas_mem)
qed simp

lemma find_contains:
  assumes "wf_areas vs" "v \<in> set vs" "contains v a"
  shows "List.find (\<lambda>v. contains v a) vs = Some v"
proof (cases "List.find (\<lambda>v. contains v a) vs")
  case None
  with assms show ?thesis by (auto simp: find_None)
next
  case (Some u)
  then have "u \<in> set vs" "contains u a" using find_Some_in by fastforce+
  with assms have "u = v" by (blast intro: contains_unique)
  with Some show ?thesis by simp
qed

lemma lookup_areas_in:
  "wf_areas vs \<Longrightarrow> v \<in> set vs \<Longrightarrow> contains v a \<Longrightarrow> lookup_areas vs a = Some (page_at v a)"
  by (simp add: lookup_areas_def find_contains)

lemma lookup_areas_out: "(\<forall>v \<in> set vs. \<not> contains v a) \<Longrightarrow> lookup_areas vs a = None"
  by (simp add: lookup_areas_def find_None)

lemma lookup_areas_None: "lookup_areas vs a = None \<longleftrightarrow> (\<forall>v \<in> set vs. \<not> contains v a)"
  by (auto simp: lookup_areas_def find_None)

section \<open>Insertion\<close>

lemma disjoint_before:
  assumes "wf_area u" "wf_area v" "\<not> overlaps u (va_base v) (va_length v)"
  shows "lo u \<le> lo v \<Longrightarrow> before u v" and "lo v \<le> lo u \<Longrightarrow> before v u"
  using assms wf_area_less [OF assms(1)] wf_area_less [OF assms(2)]
  by (auto simp: before_def overlaps_area_iff)

lemma insert_pos_split:
  assumes "wf_areas vs" "wf_area v" "\<forall>u \<in> set vs. \<not> overlaps u (va_base v) (va_length v)"
  obtains us ws where "vs = us @ ws" "insert_pos v vs = length us"
    "\<forall>u \<in> set us. before u v" "\<forall>w \<in> set ws. before v w"
proof (cases "position (\<lambda>u. va_base v < va_base u) vs")
  case None
  then have "lo u \<le> lo v" if "u \<in> set vs" for u
    using that by (auto simp: position_None lo_def u64_arith)
  with assms have "\<forall>u \<in> set vs. before u v"
    by (blast intro: disjoint_before(1) wf_areas_mem)
  then show thesis
    by (intro that [of vs "[]"]) (simp_all add: insert_pos_def None)
next
  case (Some i)
  then obtain us w ws where *: "vs = us @ w # ws" "i = length us" "va_base v < va_base w"
    "\<forall>u \<in> set us. \<not> va_base v < va_base u"
    by (rule position_split)
  have "lo u \<le> lo v" if "u \<in> set us" for u
    using * that by (auto simp: lo_def u64_arith)
  moreover have wfm: "wf_area u" if "u \<in> set us \<union> set (w # ws)" for u
    using assms(1) that unfolding *(1) by (auto intro: wf_areas_mem)
  ultimately have us: "\<forall>u \<in> set us. before u v"
    using assms(2,3) unfolding *(1) by (auto intro: disjoint_before(1))
  have w: "before v w"
    using assms(2,3) wfm [of w] *(3) unfolding *(1)
    by (intro disjoint_before(2)) (auto simp: lo_def u64_arith)
  moreover have "before w x" if "x \<in> set ws" for x
    using assms(1) that unfolding *(1) by (simp add: wf_areas_append wf_areas_Cons)
  ultimately have "\<forall>u \<in> set (w # ws). before v u"
    using wfm [of w] by (auto intro: before_trans)
  moreover have "insert_pos v vs = length us" by (simp add: insert_pos_def Some *(2))
  ultimately show thesis using us *(1) by (intro that)
qed

lemma wf_areas_vec_insert:
  assumes "wf_areas vs" "wf_area v" "\<forall>u \<in> set vs. \<not> overlaps u (va_base v) (va_length v)"
  shows "wf_areas (vec_insert (insert_pos v vs) v vs)"
    and "set (vec_insert (insert_pos v vs) v vs) = insert v (set vs)"
    and "share_count k (vec_insert (insert_pos v vs) v vs) = share_count k vs + (if shares k v then 1 else 0)"
proof -
  obtain us ws where *: "vs = us @ ws" "insert_pos v vs = length us"
    "\<forall>u \<in> set us. before u v" "\<forall>w \<in> set ws. before v w"
    by (rule insert_pos_split [OF assms])
  have eq: "vec_insert (insert_pos v vs) v vs = us @ v # ws"
    unfolding *(2) unfolding *(1) by (rule vec_insert_mid)
  show "wf_areas (vec_insert (insert_pos v vs) v vs)"
    unfolding eq using assms(1) [unfolded *(1)] assms(2) *(3,4)
    by (auto simp: wf_areas_append wf_areas_Cons)
  show "set (vec_insert (insert_pos v vs) v vs) = insert v (set vs)"
    unfolding eq unfolding *(1) by auto
  show "share_count k (vec_insert (insert_pos v vs) v vs) = share_count k vs + (if shares k v then 1 else 0)"
    unfolding eq unfolding *(1) by (simp add: share_count_def)
qed

lemma lookup_vec_insert:
  assumes "wf_areas vs" "wf_area v" "\<forall>u \<in> set vs. \<not> overlaps u (va_base v) (va_length v)"
  shows "lookup_areas (vec_insert (insert_pos v vs) v vs) a =
    (if contains v a then Some (page_at v a) else lookup_areas vs a)"
proof -
  let ?ws = "vec_insert (insert_pos v vs) v vs"
  note wf = wf_areas_vec_insert(1,2) [OF assms]
  consider "contains v a" | u where "u \<in> set vs" "contains u a" "\<not> contains v a"
    | "\<not> contains v a" "\<forall>u \<in> set vs. \<not> contains u a" by blast
  then show ?thesis
  proof cases
    case 1
    then show ?thesis using wf by (simp add: lookup_areas_in)
  next
    case 2
    then show ?thesis using wf assms(1) by (simp add: lookup_areas_in [of _ u])
  next
    case 3
    then show ?thesis using wf by (simp add: lookup_areas_out)
  qed
qed

section \<open>Pins\<close>

lemma share_count_Cons: "share_count k (v # vs) = one_if (shares k v) + share_count k vs"
  by (simp add: share_count_def one_if_def)

lemma pins_ok_pin_of: "pins_ok ps \<Longrightarrow> pins_ok (pin_of v ps)"
  by (simp add: vma_pin_if_shared_file_def pins_ok_pin_inode split: vm_backing.splits)

lemma pins_ok_unpin_of: "pins_ok ps \<Longrightarrow> pins_ok (unpin_of v ps)"
  by (simp add: vma_unpin_if_shared_file_def pins_unpin_inode_deferred(2) split: vm_backing.splits)

lemma pins_pin_of:
  assumes "pins_ok ps" "pins ps k + 1 < 2 ^ 32"
  shows "pins (pin_of v ps) k = pins ps k + one_if (shares k v)"
  using pins_pin_inode [OF assms]
  by (cases "va_flags v AND MAP_SHARED = 0"; cases "va_backing v")
    (auto simp: vma_pin_if_shared_file_def shares_def one_if_def)

lemma pins_unpin_of:
  assumes "pins_ok ps"
  shows "pins (unpin_of v ps) k = pins ps k - one_if (shares k v)"
  using pins_unpin_inode_deferred(1) [OF assms]
  by (cases "va_flags v AND MAP_SHARED = 0"; cases "va_backing v")
    (auto simp: vma_unpin_if_shared_file_def shares_def one_if_def)

section \<open>Removal\<close>

lemma fst_remove_loop: "fst (remove_loop b len vs ps) = concat (map (pieces b len) vs)"
proof (induction vs arbitrary: ps)
  case (Cons v vs)
  have "va_length v - (e - va_base v) = va_end v - e" for e
    by (simp add: va_end_def)
  then show ?case
    by (auto simp: Cons.IH Let_def pieces_def left_piece_def right_piece_def split_def not_less not_le)
qed simp

lemma left_piece_view:
  assumes "wf_area v" "va_base v < b" "unat b \<le> hi v"
  shows "lo (left_piece b v) = lo v" and "hi (left_piece b v) = unat b" and "wf_area (left_piece b v)"
proof -
  show lo: "lo (left_piece b v) = lo v" by (simp add: left_piece_def lo_def)
  show hi: "hi (left_piece b v) = unat b"
    using assms(2) by (simp add: left_piece_def hi_def unat_sub_u64 u64_arith)
  show "wf_area (left_piece b v)"
    using assms by (simp add: wf_area_def lo hi) (simp add: lo_def u64_arith)
qed

lemma right_piece_view:
  assumes "wf_area v" "e < va_end v" "lo v \<le> unat e"
  shows "lo (right_piece e v) = unat e" and "hi (right_piece e v) = hi v" and "wf_area (right_piece e v)"
proof -
  have "unat e < hi v" using assms(1,2) by (simp add: u64_arith unat_va_end)
  show lo: "lo (right_piece e v) = unat e" by (simp add: right_piece_def lo_def)
  show hi: "hi (right_piece e v) = hi v"
    using assms(2) \<open>unat e < hi v\<close> by (simp add: right_piece_def hi_def unat_sub_u64 unat_va_end [OF assms(1), unfolded hi_def])
  show "wf_area (right_piece e v)"
    using assms(1) \<open>unat e < hi v\<close> by (simp add: wf_area_def lo hi)
qed

lemma page_at_left_piece: "page_at (left_piece b v) a = page_at v a"
  by (simp add: page_at_def page_src_at_def left_piece_def split: vm_backing.splits)

lemma page_at_right_piece:
  "\<forall>p. va_backing v \<noteq> Device p \<Longrightarrow> page_at (right_piece e v) a = page_at v a"
  by (cases "va_backing v") (simp_all add: page_at_def page_src_at_def right_piece_def advance_def)

lemma overlaps_views:
  assumes "wf_area v" "wf_range b len" "overlaps v b len"
  shows "unat b < hi v" and "lo v < unat b + unat len"
  using assms by (simp_all add: overlaps_iff)

lemma pieces_views:
  assumes "wf_area v" "wf_range b len" "p \<in> set (pieces b len v)"
  shows "wf_area p \<and> lo v \<le> lo p \<and> hi p \<le> hi v \<and> (hi p \<le> unat b \<or> unat b + unat len \<le> lo p)"
proof (cases "overlaps v b len")
  case False
  with assms show ?thesis by (auto simp: pieces_def overlaps_iff)
next
  case True
  note ov = overlaps_views [OF assms(1,2) True]
  note le = unat_range_end [OF assms(2)]
  from True assms(3) consider "p = left_piece b v" "va_base v < b"
    | "p = right_piece (b + len) v" "b + len < va_end v"
    by (auto simp: pieces_def split: if_splits)
  then show ?thesis
  proof cases
    case 1
    with ov assms(1) show ?thesis by (simp add: left_piece_view)
  next
    case 2
    with ov assms(1) le show ?thesis by (simp add: right_piece_view)
  qed
qed

lemma wf_areas_pieces:
  assumes "wf_area v" "wf_range b len"
  shows "wf_areas (pieces b len v)"
proof -
  have "sorted_wrt before (pieces b len v)"
    using overlaps_views [OF assms] unat_range_end [OF assms(2)] assms(1)
    by (auto simp: pieces_def before_def left_piece_view right_piece_view)
  with pieces_views [OF assms] show ?thesis by (auto simp: wf_areas_def)
qed

lemma wf_areas_concat_pieces:
  assumes "wf_areas vs" "wf_range b len"
  shows "wf_areas (concat (map (pieces b len) vs))"
  using assms(1)
proof (induction vs)
  case (Cons v vs)
  have "before p q" if "p \<in> set (pieces b len v)" "u \<in> set vs" "q \<in> set (pieces b len u)" for p q u
    using pieces_views [OF _ assms(2) that(1)] pieces_views [OF _ assms(2) that(3)] that(2) Cons.prems
    by (fastforce simp: wf_areas_Cons before_def wf_areas_mem)
  with Cons assms(2) show ?case
    by (auto simp: wf_areas_Cons wf_areas_append wf_areas_pieces)
qed (simp add: wf_areas_def)

lemma lookup_areas_append:
  "lookup_areas (us @ vs) a = (case lookup_areas us a of None \<Rightarrow> lookup_areas vs a | Some r \<Rightarrow> Some r)"
  by (induction us) (auto simp: lookup_areas_def)

lemma lookup_areas_Cons:
  "lookup_areas (v # vs) a = (if contains v a then Some (page_at v a) else lookup_areas vs a)"
  by (simp add: lookup_areas_def)

lemma lookup_pieces:
  assumes "wf_area v" "wf_range b len" "\<forall>p. va_backing v \<noteq> Device p"
  shows "lookup_areas (pieces b len v) a =
    (if contains v a \<and> \<not> in_range b len a then Some (page_at v a) else None)"
proof (cases "overlaps v b len")
  case False
  with assms show ?thesis
    by (auto simp: pieces_def lookup_areas_def in_range_def overlaps_iff contains_iff)
next
  case True
  note ov = overlaps_views [OF assms(1,2) True]
  note le = unat_range_end [OF assms(2)]
  have l: "contains (left_piece b v) a \<longleftrightarrow> lo v \<le> unat a \<and> unat a < unat b" if "va_base v < b"
    using left_piece_view [OF assms(1) that] ov by (simp add: contains_iff)
  have r: "contains (right_piece (b + len) v) a \<longleftrightarrow> unat b + unat len \<le> unat a \<and> unat a < hi v"
    if "b + len < va_end v"
    using right_piece_view [OF assms(1) that] ov le by (simp add: contains_iff)
  show ?thesis
    using True l r ov le
    by (auto simp: pieces_def lookup_areas_def in_range_def contains_iff [OF assms(1)]
        page_at_left_piece page_at_right_piece [OF assms(3)] u64_arith unat_va_end [OF assms(1)] lo_def)
qed

lemma lookup_concat_pieces:
  assumes "wf_areas vs" "wf_range b len" "no_device vs"
  shows "lookup_areas (concat (map (pieces b len) vs)) a =
    (if in_range b len a then None else lookup_areas vs a)"
  using assms(1,3)
proof (induction vs)
  case (Cons v vs)
  then have "wf_area v" "\<forall>p. va_backing v \<noteq> Device p" by (simp_all add: wf_areas_Cons no_device_def)
  with Cons assms(2) show ?case
    by (auto simp: lookup_areas_append lookup_areas_Cons lookup_pieces wf_areas_Cons no_device_def)
qed (simp add: lookup_areas_def)

lemma snd_remove_loop: "snd (remove_loop b len vs ps) = fold (pins_step b len) vs ps"
  by (induction vs arbitrary: ps)
    (auto simp: Let_def pins_step_def left_piece_def right_piece_def split_def)

lemma shares_pieces:
  "shares k (left_piece b v) = shares k v" "shares k (right_piece e v) = shares k v"
  by (auto simp: shares_def left_piece_def right_piece_def advance_def split: vm_backing.splits)

lemma share_count_append: "share_count k (us @ vs) = share_count k us + share_count k vs"
  by (simp add: share_count_def)

lemma share_count_Nil: "share_count k [] = 0"
  by (simp add: share_count_def)

lemmas share_count_simps = share_count_Nil share_count_Cons share_count_append shares_pieces

lemma pins_step_balance:
  assumes "pins_ok ps" "one_if (shares k v) \<le> pins ps k" "pins ps k + 1 < 2 ^ 32"
  shows "pins (pins_step b len v ps) k + one_if (shares k v) = pins ps k + share_count k (pieces b len v)"
    and "pins_ok (pins_step b len v ps)"
proof -
  show "pins_ok (pins_step b len v ps)"
    using assms(1) by (simp add: pins_step_def pins_ok_pin_of pins_ok_unpin_of)
  let ?s = "one_if (shares k v)"
  have s: "?s \<le> 1" by (simp add: one_if_def)
  let ?u = "unpin_of v ps"
  let ?r = "pin_of (right_piece (b + len) v) ?u"
  have u: "pins_ok ?u" "pins ?u k = pins ps k - ?s"
    using assms(1) by (simp_all add: pins_ok_unpin_of pins_unpin_of)
  have r: "pins_ok ?r" "pins ?r k = pins ps k"
    using u assms(2,3) by (simp_all add: pins_ok_pin_of pins_pin_of shares_pieces)
  have l: "pins (pin_of (left_piece b v) ?r) k = pins ps k + ?s"
    using r assms(3) by (simp add: pins_pin_of shares_pieces)
  show "pins (pins_step b len v ps) k + ?s = pins ps k + share_count k (pieces b len v)"
    using assms(2) u(2) l
    by (auto simp: pins_step_def pieces_def share_count_simps not_less not_le)
qed

lemma pieces_at_most_two: "share_count k (pieces b len v) \<le> one_if (shares k v) + 1"
  by (auto simp: pieces_def share_count_simps one_if_def)

lemma fold_pins_step_balance:
  assumes "pins_ok ps" "share_count k vs \<le> pins ps k" "pins ps k + length vs < 2 ^ 32"
  shows "pins_ok (fold (pins_step b len) vs ps) \<and>
    pins (fold (pins_step b len) vs ps) k + share_count k vs =
      pins ps k + share_count k (concat (map (pieces b len) vs))"
  using assms
proof (induction vs arbitrary: ps)
  case (Cons v vs)
  let ?ps = "pins_step b len v ps"
  have "one_if (shares k v) \<le> pins ps k" "pins ps k + 1 < 2 ^ 32"
    using Cons.prems(2,3) by (simp_all add: share_count_simps)
  note st = pins_step_balance [OF Cons.prems(1) this, of b len]
  have "share_count k vs \<le> pins ?ps k" "pins ?ps k + length vs < 2 ^ 32"
    using st(1) Cons.prems(2,3) pieces_at_most_two [of k b len v] by (simp_all add: share_count_simps)
  from Cons.IH [OF st(2) this] st(1) show ?case
    by (simp add: share_count_simps)
qed (simp add: share_count_simps)

end
