(* ===== verification/Vma_Contract.thy ===== *)
theory Vma_Contract
  imports Vma_Space
begin

text \<open>
  The contract of an address space as the mapping system calls use it: the locale
  \<open>address_space\<close>, its interpretation on \<open>remove_range\<close> and \<open>insert_vma\<close>, and the
  properties of the two operations: refinement of a partial function from addresses to
  pages, replacement of a range (\<open>MAP_FIXED\<close>), the balance of inode pins, and the device
  case in which a removal moves the remaining pages to other physical addresses.
\<close>

section \<open>Definitions\<close>

definition space_ok :: "vm_space \<times> pin_state \<Rightarrow> bool" where
  "space_ok sp \<longleftrightarrow> wf_areas (vs_areas (fst sp)) \<and> no_device (vs_areas (fst sp))"

definition area_fits :: "vm_area \<Rightarrow> bool" where
  "area_fits v \<longleftrightarrow> wf_area v \<and> (\<forall>p. va_backing v \<noteq> Device p)"

definition space_put :: "vm_area \<Rightarrow> vm_space \<times> pin_state \<Rightarrow> (vm_space \<times> pin_state) option" where
  "space_put v sp = (case insert_vma v (fst sp) (snd sp) of (Inl _, _) \<Rightarrow> None | (Inr _, sp') \<Rightarrow> Some sp')"

definition demo_file :: vm_area where
  "demo_file = \<lparr>va_base = 0x10000, va_length = 0x4000, va_prot = PROT_READ, va_flags = MAP_SHARED,
     va_backing = File 1 7 0x2000 0, va_name = ''[mmap-file]''\<rparr>"

definition demo_anon :: vm_area where
  "demo_anon = \<lparr>va_base = 0x20000, va_length = 0x1000, va_prot = PROT_WRITE, va_flags = MAP_PRIVATE,
     va_backing = Anonymous, va_name = ''[mmap]''\<rparr>"

definition demo_space :: vm_space where
  "demo_space = \<lparr>vs_cr3 = 0x5000, vs_areas = [demo_file, demo_anon], vs_mmap_hint = 0x7F0000000000,
     vs_stack_aslr_base = 0x7F0000000000, vs_brk = 0x4000000000, vs_brk_start = 0x4000000000,
     vs_generation = 0\<rparr>"

definition demo_pins :: pin_state where
  "demo_pins = \<lparr>pinned_inodes = [((1, 7), 1)], pending_inode_reap = [], deleted_inodes = [(1, 7)]\<rparr>"

section \<open>The contract of an address space\<close>

text \<open>
  What the mapping system calls rely on: removing a range restricts the view to the
  addresses outside it, and an area can be added iff all its addresses are free, which
  then show the area. \<open>fits\<close> selects the areas the contract speaks about.
\<close>

locale address_space =
  fixes view :: "'s \<Rightarrow> u64 \<Rightarrow> page_view option"
    and ok :: "'s \<Rightarrow> bool"
    and fits :: "vm_area \<Rightarrow> bool"
    and cut :: "u64 \<Rightarrow> u64 \<Rightarrow> 's \<Rightarrow> 's"
    and put :: "vm_area \<Rightarrow> 's \<Rightarrow> 's option"
  assumes fits_wf: "fits v \<Longrightarrow> wf_area v"
    and ok_cut: "ok s \<Longrightarrow> wf_range b len \<Longrightarrow> ok (cut b len s)"
    and view_cut: "ok s \<Longrightarrow> wf_range b len \<Longrightarrow>
      view (cut b len s) a = (if in_range b len a then None else view s a)"
    and put_None: "ok s \<Longrightarrow> fits v \<Longrightarrow> put v s = None \<longleftrightarrow> (\<exists>a. contains v a \<and> view s a \<noteq> None)"
    and put_ok: "ok s \<Longrightarrow> fits v \<Longrightarrow> put v s = Some s' \<Longrightarrow> ok s'"
    and view_put: "ok s \<Longrightarrow> fits v \<Longrightarrow> put v s = Some s' \<Longrightarrow>
      view s' a = (if contains v a then Some (page_at v a) else view s a)"
begin

lemma in_range_area: "fits v \<Longrightarrow> in_range (va_base v) (va_length v) a \<longleftrightarrow> contains v a"
  using contains_iff [OF fits_wf] by (simp add: in_range_def lo_def hi_def)

lemma replace:
  assumes "ok s" "fits v"
  obtains s' where "put v (cut (va_base v) (va_length v) s) = Some s'" "ok s'"
    "\<And>a. view s' a = (if contains v a then Some (page_at v a) else view s a)"
proof -
  let ?c = "cut (va_base v) (va_length v) s"
  have r: "wf_range (va_base v) (va_length v)" using assms(2) by (intro wf_area_range fits_wf)
  have c: "ok ?c" "view ?c a = (if contains v a then None else view s a)" for a
    using ok_cut [OF assms(1) r] view_cut [OF assms(1) r] in_range_area [OF assms(2)] by auto
  then have "put v ?c \<noteq> None" using put_None [OF c(1) assms(2)] by simp
  then obtain s' where s': "put v ?c = Some s'" by blast
  show thesis
    by (rule that [OF s' put_ok [OF c(1) assms(2) s']]) (simp add: view_put [OF c(1) assms(2) s'] c(2))
qed

lemma unmap_after_map:
  assumes "ok s" "fits v" "put v s = Some s'"
  shows "view (cut (va_base v) (va_length v) s') = view s"
proof -
  have r: "wf_range (va_base v) (va_length v)" using assms(2) by (intro wf_area_range fits_wf)
  have "\<not> (\<exists>a. contains v a \<and> view s a \<noteq> None)"
    using put_None [OF assms(1,2)] assms(3) by (metis option.distinct(1))
  then have "view s a = None" if "contains v a" for a
    using that by blast
  then show ?thesis
    using view_cut [OF put_ok [OF assms] r] view_put [OF assms] in_range_area [OF assms(2)]
    by (auto simp: fun_eq_iff)
qed

end

lemma vs_areas_remove_range: "vs_areas (fst (remove_range b len s ps)) = concat (map (pieces b len) (vs_areas s))"
  using fst_remove_loop [of b len "vs_areas s" ps] by (simp add: remove_range_def split_def Let_def)

lemma snd_remove_range: "snd (remove_range b len s ps) = fold (pins_step b len) (vs_areas s) ps"
  using snd_remove_loop [of b len "vs_areas s" ps] by (simp add: remove_range_def split_def Let_def)

lemma no_device_pieces: "no_device vs \<Longrightarrow> no_device (concat (map (pieces b len) vs))"
  by (fastforce simp: no_device_def pieces_def left_piece_def right_piece_def advance_def
      split: if_splits vm_backing.splits)

lemma overlap_iff_address:
  assumes "wf_area u" "wf_area v"
  shows "overlaps u (va_base v) (va_length v) \<longleftrightarrow> (\<exists>a. contains u a \<and> contains v a)"
proof
  assume "overlaps u (va_base v) (va_length v)"
  then have "lo u < hi v \<and> lo v < hi u" using assms by (simp add: overlaps_area_iff)
  then have "contains u (max (va_base u) (va_base v)) \<and> contains v (max (va_base u) (va_base v))"
    using assms wf_area_less [OF assms(1)] wf_area_less [OF assms(2)]
    by (auto simp: contains_iff max_def lo_def u64_arith)
  then show "\<exists>a. contains u a \<and> contains v a" by blast
next
  assume "\<exists>a. contains u a \<and> contains v a"
  then show "overlaps u (va_base v) (va_length v)"
    using assms by (auto simp: contains_iff overlaps_area_iff)
qed

lemma no_overlap_iff_free:
  assumes "wf_areas vs" "wf_area v"
  shows "(\<exists>u \<in> set vs. overlaps u (va_base v) (va_length v)) \<longleftrightarrow> (\<exists>a. contains v a \<and> lookup_areas vs a \<noteq> None)"
  using assms by (auto simp: lookup_areas_None overlap_iff_address wf_areas_mem)

interpretation vm: address_space "\<lambda>sp. lookup (fst sp)" space_ok area_fits
  "\<lambda>b len sp. remove_range b len (fst sp) (snd sp)" space_put
proof unfold_locales
  fix sp sp' :: "vm_space \<times> pin_state" and v :: vm_area and b len a :: u64
  show "area_fits v \<Longrightarrow> wf_area v" by (simp add: area_fits_def)
  show "space_ok sp \<Longrightarrow> wf_range b len \<Longrightarrow> space_ok (remove_range b len (fst sp) (snd sp))"
    by (simp add: space_ok_def vs_areas_remove_range wf_areas_concat_pieces no_device_pieces)
  show "space_ok sp \<Longrightarrow> wf_range b len \<Longrightarrow>
      lookup (fst (remove_range b len (fst sp) (snd sp))) a = (if in_range b len a then None else lookup (fst sp) a)"
    by (simp add: space_ok_def lookup_lookup_areas vs_areas_remove_range lookup_concat_pieces)
  show "space_ok sp \<Longrightarrow> area_fits v \<Longrightarrow> space_put v sp = None \<longleftrightarrow> (\<exists>a. contains v a \<and> lookup (fst sp) a \<noteq> None)"
    using no_overlap_iff_free [of "vs_areas (fst sp)" v]
    by (auto simp: space_ok_def area_fits_def space_put_def insert_vma_def lookup_lookup_areas split: if_splits)
  show "space_ok sp \<Longrightarrow> area_fits v \<Longrightarrow> space_put v sp = Some sp' \<Longrightarrow> space_ok sp'"
    using wf_areas_vec_insert(1,2) [of "vs_areas (fst sp)" v]
    by (auto simp: space_ok_def area_fits_def space_put_def insert_vma_def no_device_def split: if_splits)
  show "space_ok sp \<Longrightarrow> area_fits v \<Longrightarrow> space_put v sp = Some sp' \<Longrightarrow>
      lookup (fst sp') a = (if contains v a then Some (page_at v a) else lookup (fst sp) a)"
    by (auto simp: space_ok_def area_fits_def space_put_def insert_vma_def lookup_lookup_areas
        lookup_vec_insert split: if_splits)
qed


lemma demo_space_ok: "wf_areas (vs_areas demo_space)" "no_device (vs_areas demo_space)"
  by (simp_all add: wf_areas_def demo_space_def demo_file_def demo_anon_def before_def lo_def hi_def wf_area_def no_device_def)

section \<open>Properties\<close>

text \<open>
  C2: \<open>insert_vma\<close> adds an area to a well-formed address space iff every address of the area
  is free. On success the area list stays sorted and free of overlaps, the addresses of the
  area show the area and all other addresses are as before; on failure the error is
  \<open>Overlap\<close> and neither the address space nor the pins change.
\<close>

theorem insert_vma_refines:
  assumes "wf_areas (vs_areas s)" and "wf_area v"
  shows "case insert_vma v s ps of
      (Inl e, s', ps') \<Rightarrow> e = Overlap \<and> s' = s \<and> ps' = ps \<and> (\<exists>a. contains v a \<and> lookup s a \<noteq> None)
    | (Inr _, s', _) \<Rightarrow> wf_areas (vs_areas s') \<and> (\<forall>a. contains v a \<longrightarrow> lookup s a = None) \<and>
        (\<forall>a. lookup s' a = (if contains v a then Some (page_at v a) else lookup s a))"
proof (cases "\<exists>u \<in> set (vs_areas s). overlaps u (va_base v) (va_length v)")
  case True
  with no_overlap_iff_free [OF assms] show ?thesis
    by (simp add: insert_vma_def lookup_lookup_areas)
next
  case False
  with no_overlap_iff_free [OF assms] have free: "\<forall>a. contains v a \<longrightarrow> lookup_areas (vs_areas s) a = None"
    by blast
  from False have "\<forall>u \<in> set (vs_areas s). \<not> overlaps u (va_base v) (va_length v)" by blast
  with free wf_areas_vec_insert(1) [OF assms] lookup_vec_insert [OF assms] show ?thesis
    by (simp add: insert_vma_def lookup_lookup_areas)
qed

text \<open>
  C1: \<open>remove_range\<close> on a well-formed address space without device mappings unmaps exactly
  the addresses of the range: outside it every address keeps its protection, its flags and
  the byte of file it maps (the offsets of split areas are advanced correctly). The list
  stays sorted and free of overlaps.
\<close>

theorem remove_range_refines:
  assumes "wf_areas (vs_areas s)" and "no_device (vs_areas s)" and "wf_range b len"
  shows "wf_areas (vs_areas (fst (remove_range b len s ps))) \<and>
    lookup (fst (remove_range b len s ps)) = (\<lambda>a. if in_range b len a then None else lookup s a)"
  using vm.view_cut [of "(s, ps)" b len] vm.ok_cut [of "(s, ps)" b len] assms
  by (simp add: space_ok_def fun_eq_iff)

theorem insert_vma_refines_witness:
  "wf_areas (vs_areas demo_space) \<and> wf_area (demo_anon\<lparr>va_base := 0x21000\<rparr>) \<and>
   fst (insert_vma (demo_anon\<lparr>va_base := 0x21000\<rparr>) demo_space demo_pins) = Inr () \<and>
   lookup (fst (snd (insert_vma (demo_anon\<lparr>va_base := 0x21000\<rparr>) demo_space demo_pins))) 0x21800 =
     Some (PROT_WRITE, MAP_PRIVATE, ZeroPage, ''[mmap]'')"
proof -
  let ?v = "demo_anon\<lparr>va_base := 0x21000\<rparr>"
  have v: "wf_area ?v" by (simp add: demo_anon_def wf_area_def lo_def hi_def)
  have ok: "fst (insert_vma ?v demo_space demo_pins) = Inr ()"
    by code_simp
  have "contains ?v 0x21800" "page_at ?v 0x21800 = (PROT_WRITE, MAP_PRIVATE, ZeroPage, ''[mmap]'')"
    by code_simp+
  with insert_vma_refines [OF demo_space_ok(1) v, of demo_pins] ok demo_space_ok(1) v
  show ?thesis by (auto split: prod.splits sum.splits)
qed

theorem remove_range_refines_witness:
  "wf_areas (vs_areas demo_space) \<and> no_device (vs_areas demo_space) \<and> wf_range 0x11000 0x1000 \<and>
   lookup (fst (remove_range 0x11000 0x1000 demo_space demo_pins)) 0x11800 = None \<and>
   lookup (fst (remove_range 0x11000 0x1000 demo_space demo_pins)) 0x12800 =
     Some (PROT_READ, MAP_SHARED, FilePage 1 7 0x4800 0, ''[mmap-file]'')"
proof -
  have r: "wf_range 0x11000 0x1000" by (simp add: wf_range_def)
  have "lookup demo_space 0x12800 = Some (PROT_READ, MAP_SHARED, FilePage 1 7 0x4800 0, ''[mmap-file]'')"
    by code_simp
  with remove_range_refines [OF demo_space_ok r, of demo_pins] demo_space_ok r show ?thesis
    by (simp add: in_range_def)
qed

text \<open>
  C4: Replacing a range, as \<open>mmap\<close> with \<open>MAP_FIXED\<close> does under one lock (\<open>remove_range\<close> of the
  area's range, then \<open>insert_vma\<close>), always succeeds on a well-formed address space without device
  mappings, for a non-empty new area that does not wrap and is not a device mapping itself: the new area takes
  over exactly its own addresses, whatever was mapped there, every other address keeps its page, and the
  area list stays sorted and free of overlaps. (With a device mapping across the end of the range the
  upper piece would show other physical pages.)
\<close>

theorem map_fixed_replaces:
  assumes "wf_areas (vs_areas s)" and "no_device (vs_areas s)" and "area_fits v"
  shows "\<exists>s' ps'. (let (s1, ps1) = remove_range (va_base v) (va_length v) s ps
      in insert_vma v s1 ps1) = (Inr (), s', ps') \<and> wf_areas (vs_areas s') \<and>
      lookup s' = (\<lambda>a. if contains v a then Some (page_at v a) else lookup s a)"
proof -
  have "space_ok (s, ps)" using assms(1,2) by (simp add: space_ok_def)
  then obtain sp where sp: "space_put v (remove_range (va_base v) (va_length v) s ps) = Some sp"
    "space_ok sp" "\<And>a. lookup (fst sp) a = (if contains v a then Some (page_at v a) else lookup s a)"
    by (rule vm.replace [OF _ assms(3), of "(s, ps)", unfolded fst_conv snd_conv]) (rule that)
  obtain s1 ps1 where r: "remove_range (va_base v) (va_length v) s ps = (s1, ps1)" by fastforce
  have "insert_vma v s1 ps1 = (Inr (), sp)"
    using sp(1) unfolding r by (simp add: space_put_def split: prod.splits sum.splits)
  with sp r show ?thesis
    by (intro exI [of _ "fst sp"] exI [of _ "snd sp"]) (simp add: space_ok_def fun_eq_iff)
qed

theorem map_fixed_replaces_witness:
  "wf_areas (vs_areas demo_space) \<and> no_device (vs_areas demo_space) \<and>
   area_fits (demo_anon\<lparr>va_base := 0x12000\<rparr>) \<and>
   (case remove_range 0x12000 0x1000 demo_space demo_pins of (s1, ps1) \<Rightarrow>
      case insert_vma (demo_anon\<lparr>va_base := 0x12000\<rparr>) s1 ps1 of (r, s', ps') \<Rightarrow>
        r = Inr () \<and> lookup s' 0x12000 = Some (PROT_WRITE, MAP_PRIVATE, ZeroPage, ''[mmap]'') \<and>
        lookup s' 0x13000 = Some (PROT_READ, MAP_SHARED, FilePage 1 7 0x5000 0, ''[mmap-file]''))"
proof -
  let ?v = "demo_anon\<lparr>va_base := 0x12000\<rparr>"
  have v: "area_fits ?v" by (simp add: area_fits_def demo_anon_def wf_area_def lo_def hi_def)
  have len: "va_base ?v = 0x12000" "va_length ?v = 0x1000" by (simp_all add: demo_anon_def)
  have at: "contains ?v 0x12000" "\<not> contains ?v 0x13000"
    "page_at ?v 0x12000 = (PROT_WRITE, MAP_PRIVATE, ZeroPage, ''[mmap]'')"
    "lookup demo_space 0x13000 = Some (PROT_READ, MAP_SHARED, FilePage 1 7 0x5000 0, ''[mmap-file]'')"
    by code_simp+
  obtain s1 ps1 where r: "remove_range 0x12000 0x1000 demo_space demo_pins = (s1, ps1)" by fastforce
  obtain s' ps' where "insert_vma ?v s1 ps1 = (Inr (), s', ps')"
    "lookup s' = (\<lambda>a. if contains ?v a then Some (page_at ?v a) else lookup demo_space a)"
    using map_fixed_replaces [OF demo_space_ok v, of demo_pins] unfolding len r by auto
  with r at demo_space_ok v show ?thesis by simp
qed

text \<open>
  C13: \<open>remove_range\<close> keeps the pins in balance with the shared file mappings: for every
  inode, the pins it drops or takes are the shared mappings of the inode that disappear or
  are split in two. It needs that the space's mappings are pinned before the call and that
  no pin counter is about to saturate.
\<close>

theorem remove_range_pin_balance:
  assumes "pins_ok ps" and "share_count k (vs_areas s) \<le> pins ps k"
    and "pins ps k + length (vs_areas s) < 2 ^ 32"
  shows "pins_ok (snd (remove_range b len s ps)) \<and>
    pins (snd (remove_range b len s ps)) k + share_count k (vs_areas s) =
      pins ps k + share_count k (vs_areas (fst (remove_range b len s ps)))"
  using fold_pins_step_balance [OF assms] by (simp add: snd_remove_range vs_areas_remove_range)

theorem remove_range_pin_balance_witness:
  "pins_ok demo_pins \<and> share_count (1, 7) (vs_areas demo_space) = 1 \<and>
   pins (snd (remove_range 0x11000 0x1000 demo_space demo_pins)) (1, 7) = 2"
proof -
  have ok: "pins_ok demo_pins" by (simp add: pins_ok_def demo_pins_def)
  have p: "pins demo_pins (1, 7) = 1" "share_count (1, 7) (vs_areas demo_space) = 1"
    "share_count (1, 7) (vs_areas (fst (remove_range 0x11000 0x1000 demo_space demo_pins))) = 2"
    by code_simp+
  have "length (vs_areas demo_space) = 2" by (simp add: demo_space_def)
  with remove_range_pin_balance [of demo_pins "(1, 7)" demo_space "0x11000" "0x1000"] p ok show ?thesis
    by simp
qed

text \<open>
  C12: After a removal, draining the queue of pending inodes never frees an inode that a
  shared mapping of the address space still shows, even when the removal split the mapping
  and queued the inode on the way.
\<close>

theorem reap_keeps_mapped_inodes:
  assumes "pins_ok ps" and "share_count k (vs_areas s) \<le> pins ps k"
    and "pins ps k + length (vs_areas s) < 2 ^ 32"
    and "0 < share_count k (vs_areas (fst (remove_range b len s ps)))"
  shows "k \<notin> set (fst (reap_pending_inodes fds fs_at (snd (remove_range b len s ps))))"
proof
  let ?ps = "snd (remove_range b len s ps)"
  assume "k \<in> set (fst (reap_pending_inodes fds fs_at ?ps))"
  then have "\<not> inode_is_pinned (fst k) (snd k) ?ps"
    using reap_loop_freed [of k fds fs_at "pending_inode_reap ?ps" "?ps\<lparr>pending_inode_reap := []\<rparr>"]
    by (auto simp: reap_pending_inodes_def inode_is_pinned_def split: if_splits)
  moreover have "pins_ok ?ps \<and> pins ?ps k + share_count k (vs_areas s) =
      pins ps k + share_count k (vs_areas (fst (remove_range b len s ps)))"
    using fold_pins_step_balance [OF assms(1-3)] by (simp add: snd_remove_range vs_areas_remove_range)
  ultimately show False
    using assms(2,4) inode_is_pinned_iff [of ?ps "fst k" "snd k"] by simp
qed

theorem reap_keeps_mapped_inodes_witness:
  "pending_inode_reap (snd (remove_range 0x11000 0x1000 demo_space demo_pins)) = [(1, 7)] \<and>
   (1, 7) \<notin> set (fst (reap_pending_inodes [] (\<lambda>_. True) (snd (remove_range 0x11000 0x1000 demo_space demo_pins))))"
proof -
  have ok: "pins_ok demo_pins" by (simp add: pins_ok_def demo_pins_def)
  have p: "pins demo_pins (1, 7) = 1" "share_count (1, 7) (vs_areas demo_space) = 1"
    "share_count (1, 7) (vs_areas (fst (remove_range 0x11000 0x1000 demo_space demo_pins))) = 2"
    "pending_inode_reap (snd (remove_range 0x11000 0x1000 demo_space demo_pins)) = [(1, 7)]"
    by code_simp+
  have "length (vs_areas demo_space) = 2" by (simp add: demo_space_def)
  with reap_keeps_mapped_inodes [of demo_pins "(1, 7)" demo_space "0x11000" "0x1000" "[]" "\<lambda>_. True"] p ok
  show ?thesis by simp
qed

text \<open>
  C15: In any well-formed address space, removing the front \<open>[base, e)\<close> of a device mapping leaves its
  physical base unchanged while the virtual base moves up, so every remaining address of the mapping maps a
  physical page \<open>e - base\<close> bytes below the one it mapped before.
\<close>

theorem remove_range_device_shift:
  assumes "wf_areas (vs_areas s)" and "v \<in> set (vs_areas s)" and "va_backing v = Device p"
    and "va_base v < e" and "e \<le> a" and "a < va_end v"
  shows "lookup s a = Some (va_prot v, va_flags v, DevicePage (p + (a - va_base v)), va_name v) \<and>
    lookup (fst (remove_range (va_base v) (e - va_base v) s ps)) a =
      Some (va_prot v, va_flags v, DevicePage (p + (a - e)), va_name v)"
proof -
  let ?vs = "concat (map (pieces (va_base v) (e - va_base v)) (vs_areas s))"
  have "overlaps v (va_base v) (e - va_base v)" "e < va_end v" "\<not> va_base v < va_base v"
    using assms(4-6) by (auto simp: overlaps_def)
  then have "pieces (va_base v) (e - va_base v) v = [right_piece e v]" by (simp add: pieces_def)
  then have mem: "right_piece e v \<in> set ?vs" using assms(2) by force
  have "va_base v \<le> e" using assms(4) by simp
  then have "unat (va_base v) + unat (e - va_base v) = unat e" by (simp add: unat_sub_u64 u64_arith)
  moreover have "unat e < 2 ^ 64" by (rule order_less_le_trans [OF unsigned_less]) simp
  ultimately have "wf_range (va_base v) (e - va_base v)" by (simp add: wf_range_def)
  note wf = wf_areas_concat_pieces [OF assms(1) this]
  have "contains (right_piece e v) a" "contains v a"
    using assms(4-6) by (auto simp: contains_def right_piece_def va_end_def)
  with lookup_areas_in [OF assms(1,2)] lookup_areas_in [OF wf mem] assms(3) show ?thesis
    by (simp add: lookup_lookup_areas vs_areas_remove_range page_at_def page_src_at_def right_piece_def advance_def)
qed

theorem remove_range_device_shift_witness:
  "\<exists>s v. vs_areas s = [v, demo_anon] \<and> va_backing v = Device 0xE0000000 \<and>
    lookup s 0x2000 = Some (PROT_WRITE, MAP_SHARED, DevicePage 0xE0001000, ''[fb0]'') \<and>
    lookup (fst (remove_range 0x1000 0x1000 s demo_pins)) 0x2000 =
      Some (PROT_WRITE, MAP_SHARED, DevicePage 0xE0000000, ''[fb0]'')"
proof -
  let ?v = "\<lparr>va_base = 0x1000, va_length = 0x3000, va_prot = PROT_WRITE, va_flags = MAP_SHARED,
    va_backing = Device 0xE0000000, va_name = ''[fb0]''\<rparr>"
  let ?s = "demo_space\<lparr>vs_areas := [?v, demo_anon]\<rparr>"
  have "wf_areas (vs_areas ?s)" by (simp add: wf_areas_def wf_area_def before_def lo_def hi_def demo_anon_def)
  from remove_range_device_shift [OF this, of ?v "0xE0000000" "0x2000" "0x2000" demo_pins]
  show ?thesis by (intro exI [of _ ?s] exI [of _ ?v]) (simp add: va_end_def)
qed

end
