(* ===== verification/Teardown.thy ===== *)
theory Teardown
  imports Rust_Prelude
begin

text \<open>
  The table of teardown reservations of \<open>mm/vma.rs\<close>: \<open>munmap\<close> publishes the range it is
  about to clear from the page tables and retires it afterwards, and placement treats a
  published range as occupied. The three parallel arrays of atomics are one list of slots;
  a publication is one step, as the callers run it, and every search for a free range, under the
  process table lock. A retirement runs outside the lock: it is a sequence of four atomic operations, and a
  search can run between any two of them.
\<close>

section \<open>State and operations\<close>

abbreviation TEARDOWN_SLOTS :: nat where "TEARDOWN_SLOTS \<equiv> 64"
abbreviation TEARDOWN_NO_SLOT :: usize where "TEARDOWN_NO_SLOT \<equiv> - 1"

record slot =
  t_cr3 :: u64
  t_lo :: u64
  t_hi :: u64

record teardown =
  td_slots :: "slot list"
  td_unreserved :: u64
  td_live :: u64
  td_published :: u64

definition free_slot :: slot where
  "free_slot = \<lparr>t_cr3 = 0, t_lo = 0, t_hi = 0\<rparr>"

definition teardown_init :: teardown where
  "teardown_init = \<lparr>td_slots = replicate TEARDOWN_SLOTS free_slot, td_unreserved = 0,
     td_live = 0, td_published = 0\<rparr>"

definition teardown_publish :: "u64 \<Rightarrow> u64 \<Rightarrow> u64 \<Rightarrow> teardown \<Rightarrow> usize \<times> teardown" where
  "teardown_publish cr3 l h t =
     (if cr3 = 0 \<or> h \<le> l then (TEARDOWN_NO_SLOT, t)
      else case position (\<lambda>s. t_cr3 s = 0) (td_slots t) of
             Some i \<Rightarrow>
               (of_nat i,
                t\<lparr>td_slots := (td_slots t)[i := \<lparr>t_cr3 = cr3, t_lo = l, t_hi = h\<rparr>],
                  td_live := td_live t + 1, td_published := td_published t + 1\<rparr>)
           | None \<Rightarrow> (TEARDOWN_NO_SLOT, t\<lparr>td_unreserved := td_unreserved t + 1\<rparr>))"

text \<open>The atomic operations of a retirement, in order: the stores to the bounds and to the owner, and the
  decrement of the live counter.\<close>

definition retire_stores :: "usize \<Rightarrow> (teardown \<Rightarrow> teardown) list" where
  "retire_stores i =
     [\<lambda>t. t\<lparr>td_slots := (td_slots t)[unat i := (td_slots t ! unat i)\<lparr>t_lo := 0\<rparr>]\<rparr>,
      \<lambda>t. t\<lparr>td_slots := (td_slots t)[unat i := (td_slots t ! unat i)\<lparr>t_hi := 0\<rparr>]\<rparr>,
      \<lambda>t. t\<lparr>td_slots := (td_slots t)[unat i := (td_slots t ! unat i)\<lparr>t_cr3 := 0\<rparr>]\<rparr>,
      \<lambda>t. t\<lparr>td_live := td_live t - 1\<rparr>]"

definition teardown_retire :: "usize \<Rightarrow> teardown \<Rightarrow> teardown" where
  "teardown_retire i t = (if i < of_nat TEARDOWN_SLOTS then fold (\<lambda>st. st) (retire_stores i) t else t)"

definition slot_hits :: "u64 \<Rightarrow> u64 \<Rightarrow> u64 \<Rightarrow> slot \<Rightarrow> bool" where
  "slot_hits cr3 l h s \<longleftrightarrow> t_cr3 s = cr3 \<and> l < t_hi s \<and> t_lo s < h"

fun conflict_scan :: "u64 \<Rightarrow> u64 \<Rightarrow> u64 \<Rightarrow> u64 option \<Rightarrow> slot list \<Rightarrow> u64 option" where
  "conflict_scan cr3 l h lowest [] = lowest"
| "conflict_scan cr3 l h lowest (s # ss) =
     conflict_scan cr3 l h
       (if slot_hits cr3 l h s
        then Some (case lowest of None \<Rightarrow> t_lo s | Some c \<Rightarrow> min c (t_lo s))
        else lowest) ss"

definition teardown_conflict :: "u64 \<Rightarrow> u64 \<Rightarrow> u64 \<Rightarrow> teardown \<Rightarrow> u64 option" where
  "teardown_conflict cr3 l h t =
     (if cr3 = 0 \<or> cr3 = - 1 then None
      else if td_live t = 0 then None
      else conflict_scan cr3 l h None (td_slots t))"

fun extent_scan :: "u64 \<Rightarrow> u64 \<Rightarrow> u64 \<Rightarrow> (u64 \<times> u64) option \<Rightarrow> slot list \<Rightarrow> (u64 \<times> u64) option" where
  "extent_scan cr3 l h widest [] = widest"
| "extent_scan cr3 l h widest (s # ss) =
     extent_scan cr3 l h
       (if slot_hits cr3 l h s
        then case widest of
               Some w \<Rightarrow> if saturating_sub (t_hi s) (t_lo s) \<le> saturating_sub (snd w) (fst w)
                          then Some w else Some (t_lo s, t_hi s)
             | None \<Rightarrow> Some (t_lo s, t_hi s)
        else widest) ss"

definition teardown_conflict_extent :: "u64 \<Rightarrow> u64 \<Rightarrow> u64 \<Rightarrow> teardown \<Rightarrow> (u64 \<times> u64) option" where
  "teardown_conflict_extent cr3 l h t =
     (if cr3 = 0 \<or> cr3 = - 1 \<or> td_live t = 0 then None else extent_scan cr3 l h None (td_slots t))"

definition teardown_unreserved_count :: "teardown \<Rightarrow> u64" where
  "teardown_unreserved_count t = td_unreserved t"

definition teardown_published_count :: "teardown \<Rightarrow> u64" where
  "teardown_published_count t = td_published t"

definition teardown_in_flight_count :: "teardown \<Rightarrow> usize" where
  "teardown_in_flight_count t = td_live t"

section \<open>Invariant\<close>

definition live_slots :: "teardown \<Rightarrow> nat" where
  "live_slots t = length (filter (\<lambda>s. t_cr3 s \<noteq> 0) (td_slots t))"

text \<open>
  The live counter is the number of claimed slots, a free slot has an empty extent, and a
  claimed one a proper extent.
\<close>

definition td_ok :: "teardown \<Rightarrow> bool" where
  "td_ok t \<longleftrightarrow> length (td_slots t) = TEARDOWN_SLOTS \<and> td_live t = of_nat (live_slots t) \<and>
     (\<forall>s \<in> set (td_slots t). if t_cr3 s = 0 then s = free_slot else t_lo s < t_hi s)"

text \<open>What a scan for the lowest base among a set of slots returns.\<close>

definition lowest_of :: "u64 option \<Rightarrow> u64 set \<Rightarrow> bool" where
  "lowest_of r S \<longleftrightarrow> (case r of None \<Rightarrow> S = {} | Some m \<Rightarrow> m \<in> S \<and> (\<forall>x \<in> S. m \<le> x))"

section \<open>Lemmas\<close>

lemma td_ok_init: "td_ok teardown_init"
  by (simp add: td_ok_def teardown_init_def live_slots_def free_slot_def)

lemma live_slots_bound: "td_ok t \<Longrightarrow> live_slots t \<le> TEARDOWN_SLOTS"
  by (metis td_ok_def live_slots_def length_filter_le)

lemma td_live_zero:
  assumes "td_ok t"
  shows "td_live t = 0 \<longleftrightarrow> (\<forall>s \<in> set (td_slots t). t_cr3 s = 0)"
proof -
  have "unat (of_nat (live_slots t) :: u64) = live_slots t"
    using live_slots_bound [OF assms] by (simp add: unat_of_nat)
  moreover have "td_live t = of_nat (live_slots t)" using assms by (simp add: td_ok_def)
  ultimately have "td_live t = 0 \<longleftrightarrow> live_slots t = 0"
    using unat_eq_zero [of "td_live t"] by simp
  then show ?thesis by (auto simp: live_slots_def filter_empty_conv)
qed

lemma conflict_scan_lowest:
  "lowest_of acc S \<Longrightarrow>
     lowest_of (conflict_scan cr3 l h acc ss) (S \<union> t_lo ` {s \<in> set ss. slot_hits cr3 l h s})"
proof (induction ss arbitrary: acc S)
  case (Cons s ss)
  show ?case
  proof (cases "slot_hits cr3 l h s")
    case True
    have "lowest_of (Some (case acc of None \<Rightarrow> t_lo s | Some c \<Rightarrow> min c (t_lo s))) (insert (t_lo s) S)"
      using Cons.prems by (auto simp: lowest_of_def min_def split: option.splits)
    moreover have "{x \<in> set (s # ss). slot_hits cr3 l h x} = insert s {x \<in> set ss. slot_hits cr3 l h x}"
      using True by auto
    ultimately show ?thesis using Cons.IH True by fastforce
  next
    case False
    have "{x \<in> set (s # ss). slot_hits cr3 l h x} = {x \<in> set ss. slot_hits cr3 l h x}"
      using False by auto
    with Cons.IH [OF Cons.prems] False show ?thesis by simp
  qed
qed simp

lemma lowest_of_unique: "lowest_of r S \<Longrightarrow> lowest_of q S \<Longrightarrow> r = q"
  by (auto simp: lowest_of_def split: option.splits intro: antisym)

lemma lowest_of_None: "lowest_of r S \<Longrightarrow> r = None \<longleftrightarrow> S = {}"
  by (auto simp: lowest_of_def split: option.splits)

abbreviation hit_slots :: "u64 \<Rightarrow> u64 \<Rightarrow> u64 \<Rightarrow> teardown \<Rightarrow> slot set" where
  "hit_slots cr3 l h t \<equiv> {s \<in> set (td_slots t). slot_hits cr3 l h s}"

lemma teardown_conflict_lowest:
  assumes "td_ok t" "cr3 \<noteq> 0" "cr3 \<noteq> - 1"
  shows "lowest_of (teardown_conflict cr3 l h t) (t_lo ` hit_slots cr3 l h t)"
proof (cases "td_live t = 0")
  case True
  then have "hit_slots cr3 l h t = {}"
    using td_live_zero [OF assms(1)] assms(2) by (auto simp: slot_hits_def)
  with True show ?thesis by (simp add: teardown_conflict_def lowest_of_def)
next
  case False
  with assms(2,3) show ?thesis
    using conflict_scan_lowest [of None "{}" cr3 l h "td_slots t"]
    by (simp add: teardown_conflict_def lowest_of_def)
qed

lemma teardown_conflict_None:
  "td_ok t \<Longrightarrow> cr3 \<noteq> 0 \<Longrightarrow> cr3 \<noteq> - 1 \<Longrightarrow> teardown_conflict cr3 l h t = None \<longleftrightarrow> hit_slots cr3 l h t = {}"
  using lowest_of_None [OF teardown_conflict_lowest] by simp

lemma teardown_conflict_Some:
  assumes "td_ok t" "teardown_conflict cr3 l h t = Some m"
  obtains s where "s \<in> hit_slots cr3 l h t" "m = t_lo s"
proof -
  have "cr3 \<noteq> 0" "cr3 \<noteq> - 1" using assms(2) by (auto simp: teardown_conflict_def)
  from teardown_conflict_lowest [OF assms(1) this, of l h] assms(2) that show thesis
    by (auto simp: lowest_of_def)
qed

lemma publish_some:
  assumes "td_ok t" "cr3 \<noteq> 0" "l < h" "live_slots t < TEARDOWN_SLOTS"
  obtains ys zs where "td_slots t = ys @ free_slot # zs" "length ys < TEARDOWN_SLOTS"
    "teardown_publish cr3 l h t = (of_nat (length ys),
       t\<lparr>td_slots := ys @ \<lparr>t_cr3 = cr3, t_lo = l, t_hi = h\<rparr> # zs,
         td_live := td_live t + 1, td_published := td_published t + 1\<rparr>)"
proof -
  have len: "length (td_slots t) = TEARDOWN_SLOTS" using assms(1) by (simp add: td_ok_def)
  have "\<exists>s \<in> set (td_slots t). t_cr3 s = 0"
  proof (rule ccontr)
    assume "\<not> ?thesis"
    then have "filter (\<lambda>s. t_cr3 s \<noteq> 0) (td_slots t) = td_slots t" by (simp add: filter_id_conv)
    with len assms(4) show False by (simp add: live_slots_def)
  qed
  then obtain i where i: "position (\<lambda>s. t_cr3 s = 0) (td_slots t) = Some i"
    using position_None [of "\<lambda>s. t_cr3 s = 0" "td_slots t"]
    by (cases "position (\<lambda>s. t_cr3 s = 0) (td_slots t)") simp_all
  obtain ys s zs where s: "td_slots t = ys @ s # zs" "i = length ys" "t_cr3 s = 0"
    by (rule position_split [OF i])
  have "\<forall>s \<in> set (td_slots t). if t_cr3 s = 0 then s = free_slot else t_lo s < t_hi s"
    using assms(1) by (simp add: td_ok_def)
  then have "s = free_slot" using s by simp
  moreover have "length ys < TEARDOWN_SLOTS" using len s(1) by simp
  moreover have "teardown_publish cr3 l h t = (of_nat (length ys),
      t\<lparr>td_slots := (td_slots t)[length ys := \<lparr>t_cr3 = cr3, t_lo = l, t_hi = h\<rparr>],
        td_live := td_live t + 1, td_published := td_published t + 1\<rparr>)"
    using assms(2,3) i s(2) by (simp add: teardown_publish_def not_le [symmetric])
  ultimately show thesis using s(1) by (intro that) simp_all
qed

lemma hit_slots_split:
  assumes "td_slots t = ys @ x # zs"
  shows "hit_slots cr3 l h t = {s \<in> set ys \<union> set zs. slot_hits cr3 l h s} \<union> {s. s = x \<and> slot_hits cr3 l h s}"
  using assms by auto

lemma td_ok_publish:
  assumes "td_ok t" "cr3 \<noteq> 0" "l < h" "live_slots t < TEARDOWN_SLOTS"
  shows "td_ok (snd (teardown_publish cr3 l h t))"
proof -
  obtain ys zs where *: "td_slots t = ys @ free_slot # zs"
    "teardown_publish cr3 l h t = (of_nat (length ys),
       t\<lparr>td_slots := ys @ \<lparr>t_cr3 = cr3, t_lo = l, t_hi = h\<rparr> # zs,
         td_live := td_live t + 1, td_published := td_published t + 1\<rparr>)"
    by (rule publish_some [OF assms])
  have "t_cr3 free_slot = 0" by (simp add: free_slot_def)
  then show ?thesis
    using assms(1-3) by (auto simp: *(2) td_ok_def live_slots_def *(1))
qed

lemma retire_eq:
  assumes "i < of_nat TEARDOWN_SLOTS" and "length (td_slots t) = TEARDOWN_SLOTS"
  shows "teardown_retire i t = t\<lparr>td_slots := (td_slots t)[unat i := free_slot], td_live := td_live t - 1\<rparr>"
proof -
  have "unat i < length (td_slots t)" using assms by (simp add: word_less_nat_alt)
  moreover have "(x :: slot)\<lparr>t_lo := 0, t_hi := 0, t_cr3 := 0\<rparr> = free_slot" for x
    by (cases x) (simp add: free_slot_def)
  ultimately show ?thesis using assms(1) by (simp add: teardown_retire_def retire_stores_def)
qed

text \<open>
  While a teardown of \<open>[l, h)\<close> is published for an address space, every placement query
  that overlaps the range reports a conflict, and queries of other address spaces are not
  affected. Retiring the reservation with the returned token restores the slot table and
  the live counter.
\<close>

theorem teardown_publish_retire:
  assumes "td_ok t" and "cr3 \<noteq> 0" and "cr3 \<noteq> - 1" and "l < h" and "live_slots t < TEARDOWN_SLOTS"
    and "teardown_publish cr3 l h t = (i, t')"
  shows "i < of_nat TEARDOWN_SLOTS \<and> td_ok t' \<and>
    (\<forall>a b. a < h \<and> l < b \<longrightarrow> teardown_conflict cr3 a b t' \<noteq> None) \<and>
    (\<forall>c a b. c \<noteq> cr3 \<longrightarrow> teardown_conflict c a b t' = teardown_conflict c a b t) \<and>
    td_slots (teardown_retire i t') = td_slots t \<and> td_live (teardown_retire i t') = td_live t"
proof -
  let ?new = "\<lparr>t_cr3 = cr3, t_lo = l, t_hi = h\<rparr>"
  obtain ys zs where *: "td_slots t = ys @ free_slot # zs" "length ys < TEARDOWN_SLOTS"
    "teardown_publish cr3 l h t = (of_nat (length ys),
       t\<lparr>td_slots := ys @ ?new # zs, td_live := td_live t + 1, td_published := td_published t + 1\<rparr>)"
    by (rule publish_some [OF assms(1,2,4,5)])
  then have i: "i = of_nat (length ys)" "unat i = length ys" and slots: "td_slots t' = ys @ ?new # zs"
    and live: "td_live t' = td_live t + 1"
    using assms(6) by (auto simp: unat_of_nat)
  have ok: "td_ok t'" using td_ok_publish [OF assms(1,2,4,5)] assms(6) by simp
  have "i < of_nat TEARDOWN_SLOTS" using i(2) *(2) by (simp add: word_less_nat_alt)
  moreover have "teardown_conflict cr3 a b t' \<noteq> None" if "a < h" "l < b" for a b
  proof -
    have "?new \<in> hit_slots cr3 a b t'" using that slots by (simp add: slot_hits_def)
    then show ?thesis using teardown_conflict_None [OF ok assms(2,3), of a b] by blast
  qed
  moreover have "teardown_conflict c a b t' = teardown_conflict c a b t" if "c \<noteq> cr3" for c a b
  proof (cases "c = 0 \<or> c = - 1")
    case True
    then show ?thesis by (auto simp: teardown_conflict_def)
  next
    case False
    have "hit_slots c a b t' = hit_slots c a b t"
      using False that hit_slots_split [OF slots] hit_slots_split [OF *(1)]
      by (auto simp: slot_hits_def free_slot_def)
    with False teardown_conflict_lowest [OF ok, of c a b] teardown_conflict_lowest [OF assms(1), of c a b]
    show ?thesis by (auto intro: lowest_of_unique)
  qed
  moreover have "td_slots (teardown_retire i t') = td_slots t" "td_live (teardown_retire i t') = td_live t"
    using retire_eq [OF \<open>i < of_nat TEARDOWN_SLOTS\<close>, of t'] ok i(2) slots live *(1) by (simp_all add: td_ok_def)
  ultimately show ?thesis using ok by blast
qed

theorem teardown_publish_retire_witness:
  "td_ok teardown_init \<and> teardown_conflict 0x5000 0x2000 0x3000 (snd (teardown_publish 0x5000 0x1000 0x4000 teardown_init)) \<noteq> None"
proof -
  have "live_slots teardown_init = 0" by code_simp
  with teardown_publish_retire [OF td_ok_init, of "0x5000" "0x1000" "0x4000"] td_ok_init show ?thesis
    by (cases "teardown_publish 0x5000 0x1000 0x4000 teardown_init") simp
qed

text \<open>
  Between the first two stores of a retirement the slot reads as \<open>[0, h)\<close>. A search in the same address
  space that overlaps it is told of a conflict at base 0, below which nothing can be placed, although
  the range it asked for may never have been under teardown. Once the upper bound is cleared as well
  the slot hits no query.
\<close>

theorem retire_window:
  assumes "length (td_slots t) = TEARDOWN_SLOTS" and "i < of_nat TEARDOWN_SLOTS" and "td_live t \<noteq> 0"
    and "td_slots t ! unat i = \<lparr>t_cr3 = cr3, t_lo = l, t_hi = h\<rparr>" and "cr3 \<noteq> 0" and "cr3 \<noteq> - 1" and "a < h" and "0 < b"
  shows "teardown_conflict cr3 a b ((retire_stores i ! 0) t) = Some 0 \<and>
    \<not> slot_hits cr3 a b (td_slots ((retire_stores i ! 1) ((retire_stores i ! 0) t)) ! unat i)"
proof -
  let ?t = "(retire_stores i ! 0) t"
  have i: "unat i < length (td_slots t)" using assms(1,2) by (simp add: word_less_nat_alt)
  have sl: "td_slots ?t ! unat i = \<lparr>t_cr3 = cr3, t_lo = 0, t_hi = h\<rparr>" "length (td_slots ?t) = length (td_slots t)" "td_live ?t = td_live t"
    using i assms(4) by (simp_all add: retire_stores_def)
  then have "\<lparr>t_cr3 = cr3, t_lo = 0, t_hi = h\<rparr> \<in> hit_slots cr3 a b ?t"
    using i assms(7,8) by (auto simp: slot_hits_def in_set_conv_nth intro: exI [of _ "unat i"])
  then have "0 \<in> t_lo ` hit_slots cr3 a b ?t" by force
  moreover have "lowest_of (teardown_conflict cr3 a b ?t) (t_lo ` hit_slots cr3 a b ?t)"
    using conflict_scan_lowest [of None "{}" cr3 a b "td_slots ?t"] assms(3,5,6) sl(3) by (simp add: teardown_conflict_def lowest_of_def)
  ultimately have "teardown_conflict cr3 a b ?t = Some 0"
    by (auto simp: lowest_of_def split: option.splits)
  moreover have "t_hi (td_slots ((retire_stores i ! 1) ?t) ! unat i) = 0" using i by (simp add: retire_stores_def)
  ultimately show ?thesis by (simp add: slot_hits_def)
qed

end
