(* ===== verification/Vma_Placement.thy ===== *)
theory Vma_Placement
  imports Vma_Space Teardown
begin

text \<open>
  Placement in the address space (\<open>mm/vma.rs\<close>): the top-down search for a free range below
  \<open>MMAP_BASE\<close>, its repetition below ranges whose teardown is in flight, the randomised
  window of thread stacks, and the randomised hints. The draws of the random number
  generator are arguments. The searches are compared with a declarative description of
  the free bases: they return the highest one, and none only if there is none.
\<close>

section \<open>Definitions\<close>

abbreviation MMAP_BASE :: u64 where "MMAP_BASE \<equiv> 0x00007F0000000000"
abbreviation MMAP_ASLR_BITS :: nat where "MMAP_ASLR_BITS \<equiv> 20"
abbreviation STACK_ASLR_MIN :: u64 where "STACK_ASLR_MIN \<equiv> MMAP_BASE"
abbreviation STACK_ASLR_MAX :: u64 where "STACK_ASLR_MAX \<equiv> 0x00007F4000000000"
abbreviation STACK_ASLR_BITS :: nat where "STACK_ASLR_BITS \<equiv> 16"
abbreviation STACK_PLACE_RETRIES :: nat where "STACK_PLACE_RETRIES \<equiv> 16"
abbreviation FLOOR :: u64 where "FLOOR \<equiv> 0x1000"

text \<open>\<open>aslr_page_offset\<close> of \<open>security/rand.rs\<close>, on one draw of \<open>rand_u64\<close>.\<close>

definition aslr_page_offset :: "nat \<Rightarrow> u64 \<Rightarrow> u64" where
  "aslr_page_offset bits r = r AND push_bit 12 (2 ^ bits - 1)"

definition randomised_mmap_hint :: "u64 \<Rightarrow> u64" where
  "randomised_mmap_hint r = saturating_sub MMAP_BASE (aslr_page_offset MMAP_ASLR_BITS r)"

definition randomised_stack_aslr_base :: "u64 \<Rightarrow> u64" where
  "randomised_stack_aslr_base r =
     min (saturating_add STACK_ASLR_MIN (aslr_page_offset 26 r)) (STACK_ASLR_MAX - 0x1000)"

text \<open>The descending sweep, over the areas from the highest to the lowest.\<close>

fun below_loop :: "u64 \<Rightarrow> u64 \<Rightarrow> vm_area list \<Rightarrow> u64 option" where
  "below_loop sz ceiling [] =
     (if FLOOR < ceiling \<and> sz \<le> ceiling - FLOOR then Some (ceiling - sz) else None)"
| "below_loop sz ceiling (v # vs) =
     (if ceiling \<le> va_base v then below_loop sz ceiling vs
      else
        (let gap_top = ceiling;
             gap_bot = max (min (va_end v) ceiling) FLOOR
         in if gap_bot \<le> gap_top \<and> sz \<le> gap_top - gap_bot then Some (gap_top - sz)
            else below_loop sz (min (va_base v) ceiling) vs))"

definition find_free_range_below :: "vm_space \<Rightarrow> u64 \<Rightarrow> u64 \<Rightarrow> u64 option" where
  "find_free_range_below s sz start_ceiling =
     (let sz = page_align_up sz
      in below_loop sz (min start_ceiling MMAP_BASE) (rev (vs_areas s)))"

text \<open>The retry loop, with the number of iterations left.\<close>

fun free_range_loop :: "nat \<Rightarrow> teardown \<Rightarrow> vm_space \<Rightarrow> u64 \<Rightarrow> u64 \<Rightarrow> u64 option" where
  "free_range_loop 0 t s sz ceiling = None"
| "free_range_loop (Suc n) t s sz ceiling =
     (case find_free_range_below s sz ceiling of
        None \<Rightarrow> None
      | Some cand \<Rightarrow>
          (case teardown_conflict (vs_cr3 s) cand (saturating_add cand sz) t of
             None \<Rightarrow> Some cand
           | Some lowest \<Rightarrow> free_range_loop n t s sz lowest))"

definition find_free_range :: "teardown \<Rightarrow> vm_space \<Rightarrow> u64 \<Rightarrow> u64 option" where
  "find_free_range t s sz =
     free_range_loop (Suc TEARDOWN_SLOTS) t s (page_align_up sz) MMAP_BASE"

definition stack_candidate :: "vm_space \<Rightarrow> u64 \<Rightarrow> u64 \<Rightarrow> u64" where
  "stack_candidate s sz r =
     (let jitter = aslr_page_offset STACK_ASLR_BITS r;
          raw = saturating_add (vs_stack_aslr_base s) jitter;
          max_base = saturating_sub STACK_ASLR_MAX sz
      in max (min raw max_base) STACK_ASLR_MIN)"

fun stack_loop :: "teardown \<Rightarrow> vm_space \<Rightarrow> u64 \<Rightarrow> u64 list \<Rightarrow> u64 option" where
  "stack_loop t s sz [] = find_free_range t s sz"
| "stack_loop t s sz (r # rs) =
     (let candidate = stack_candidate s sz r;
          overlap = (\<exists>v \<in> set (vs_areas s). overlaps v candidate sz) \<or>
            teardown_conflict (vs_cr3 s) candidate (saturating_add candidate sz) t \<noteq> None
      in if \<not> overlap then Some candidate else stack_loop t s sz rs)"

text \<open>The search takes the draws it uses from a stream \<open>draws\<close>.\<close>

definition find_free_stack_range :: "(nat \<Rightarrow> u64) \<Rightarrow> teardown \<Rightarrow> vm_space \<Rightarrow> u64 \<Rightarrow> u64 option" where
  "find_free_stack_range draws t s sz =
     (let sz = page_align_up sz
      in if sz = 0 \<or> STACK_ASLR_MAX - STACK_ASLR_MIN < sz then None
         else stack_loop t s sz (map draws [0..<STACK_PLACE_RETRIES]))"

section \<open>Specification\<close>

text \<open>A base at which \<open>n\<close> bytes meet no area and no teardown of the address space.\<close>

definition clear_of :: "vm_area list \<Rightarrow> nat \<Rightarrow> nat \<Rightarrow> bool" where
  "clear_of vs n b \<longleftrightarrow> (\<forall>v \<in> set vs. b + n \<le> lo v \<or> hi v \<le> b)"

definition clear_of_teardowns :: "teardown \<Rightarrow> u64 \<Rightarrow> nat \<Rightarrow> nat \<Rightarrow> bool" where
  "clear_of_teardowns t cr3 n b \<longleftrightarrow>
     (\<forall>s \<in> set (td_slots t). t_cr3 s = cr3 \<longrightarrow> b + n \<le> unat (t_lo s) \<or> unat (t_hi s) \<le> b)"

definition placeable :: "vm_area list \<Rightarrow> nat \<Rightarrow> nat \<Rightarrow> nat \<Rightarrow> bool" where
  "placeable vs n c b \<longleftrightarrow> unat FLOOR \<le> b \<and> b + n \<le> c \<and> clear_of vs n b"

text \<open>A search returns the highest base with a property, and \<open>None\<close> if there is no such base.\<close>

definition highest :: "u64 option \<Rightarrow> (nat \<Rightarrow> bool) \<Rightarrow> bool" where
  "highest r P \<longleftrightarrow> (case r of None \<Rightarrow> \<forall>b. \<not> P b | Some x \<Rightarrow> P (unat x) \<and> (\<forall>b. P b \<longrightarrow> b \<le> unat x))"

definition slots_below :: "teardown \<Rightarrow> u64 \<Rightarrow> u64 \<Rightarrow> nat" where
  "slots_below t cr3 c = length (filter (\<lambda>s. t_cr3 s = cr3 \<and> t_lo s < c) (td_slots t))"

definition space_free :: "teardown \<Rightarrow> vm_space \<Rightarrow> nat \<Rightarrow> nat \<Rightarrow> nat \<Rightarrow> bool" where
  "space_free t s n c b \<longleftrightarrow> placeable (vs_areas s) n (min c (unat MMAP_BASE)) b \<and>
     clear_of_teardowns t (vs_cr3 s) n b"

definition free_base :: "teardown \<Rightarrow> vm_space \<Rightarrow> nat \<Rightarrow> nat \<Rightarrow> bool" where
  "free_base t s n b \<longleftrightarrow> unat FLOOR \<le> b \<and> b + n \<le> unat MMAP_BASE \<and>
     clear_of (vs_areas s) n b \<and> clear_of_teardowns t (vs_cr3 s) n b"

definition stack_ok :: "teardown \<Rightarrow> vm_space \<Rightarrow> nat \<Rightarrow> nat \<Rightarrow> bool" where
  "stack_ok t s n b \<longleftrightarrow> unat STACK_ASLR_MIN \<le> b \<and> b + n \<le> unat STACK_ASLR_MAX \<and>
     clear_of (vs_areas s) n b \<and> clear_of_teardowns t (vs_cr3 s) n b"

definition demo_vm :: vm_space where
  "demo_vm = \<lparr>vs_cr3 = 0x5000, vs_areas =
      [\<lparr>va_base = 0x7EFFFFFFE000, va_length = 0x2000, va_prot = PROT_READ, va_flags = MAP_PRIVATE,
        va_backing = Anonymous, va_name = ''[mmap]''\<rparr>],
     vs_mmap_hint = MMAP_BASE, vs_stack_aslr_base = STACK_ASLR_MIN, vs_brk = 0x4000000000,
     vs_brk_start = 0x4000000000, vs_generation = 0\<rparr>"

lemma highest_cong: "highest r P \<Longrightarrow> (\<And>b. Q b \<longleftrightarrow> P b) \<Longrightarrow> highest r Q"
  by (cases r) (simp_all add: highest_def)

lemma highest_Some_iff: "highest (Some x) P \<longleftrightarrow> P (unat x) \<and> (\<forall>b. P b \<longrightarrow> b \<le> unat x)"
  by (simp add: highest_def)

lemma clear_of_Cons: "clear_of (v # vs) n b \<longleftrightarrow> (b + n \<le> lo v \<or> hi v \<le> b) \<and> clear_of vs n b"
  by (simp add: clear_of_def)

lemma clear_of_rev: "clear_of (rev vs) n b = clear_of vs n b"
  by (simp add: clear_of_def)

lemma floor_gap_highest:
  assumes "0 < sz"
  shows "highest (below_loop sz c []) (placeable [] (unat sz) (unat c))"
proof (cases "FLOOR < c \<and> sz \<le> c - FLOOR")
  case True
  then have "FLOOR \<le> c" "sz \<le> c" "unat sz + unat FLOOR \<le> unat c"
    by (auto simp: u64_arith unat_sub_u64)
  with True show ?thesis
    by (auto simp: highest_def placeable_def clear_of_def unat_sub_u64)
next
  case False
  have "\<not> placeable [] (unat sz) (unat c) b" for b
  proof
    assume "placeable [] (unat sz) (unat c) b"
    then have le: "unat FLOOR + unat sz \<le> unat c" by (simp add: placeable_def)
    moreover have "0 < unat sz" using assms by (simp add: u64_arith)
    ultimately have "FLOOR < c" by (simp add: u64_arith)
    with le False show False by (simp add: u64_arith unat_sub_u64)
  qed
  with False show ?thesis by (simp add: highest_def)
qed

lemma unat_gap_bottom:
  "wf_area v \<Longrightarrow> unat (max (min (va_end v) c) FLOOR) = max (min (hi v) (unat c)) (unat FLOOR)"
  using unat_va_end [of v] by (simp add: max_def min_def u64_arith)

lemma gap_fits_highest:
  assumes "0 < sz" "wf_area v" "\<forall>u \<in> set vs. hi u \<le> lo v" "lo v < unat c"
    and "max (min (va_end v) c) FLOOR \<le> c" "sz \<le> c - max (min (va_end v) c) FLOOR"
  shows "highest (Some (c - sz)) (placeable (v # vs) (unat sz) (unat c))"
proof -
  have fit: "unat (max (min (va_end v) c) FLOOR) + unat sz \<le> unat c" using assms(5,6) by (auto simp: u64_arith unat_sub_u64)
  then have "sz \<le> c" by (simp add: u64_arith)
  then have r: "unat (c - sz) = unat c - unat sz" by (simp add: unat_sub_u64)
  have pos: "0 < unat sz" using assms(1) by (simp add: u64_arith)
  have "hi v \<le> unat c - unat sz" using fit pos unfolding unat_gap_bottom [OF assms(2)] by (auto simp: max_def min_def split: if_splits)
  moreover have "lo v < hi v" by (rule wf_area_less [OF assms(2)])
  ultimately have "placeable (v # vs) (unat sz) (unat c) (unat (c - sz))"
    using fit assms(3) unfolding r unat_gap_bottom [OF assms(2)] by (auto simp: placeable_def clear_of_def)
  then show ?thesis unfolding highest_Some_iff r by (auto simp: placeable_def)
qed

lemma gap_too_small:
  assumes "wf_area v" "lo v < unat c"
    and "\<not> (max (min (va_end v) c) FLOOR \<le> c \<and> sz \<le> c - max (min (va_end v) c) FLOOR)"
  shows "placeable (v # vs) (unat sz) (unat c) b \<longleftrightarrow> placeable vs (unat sz) (lo v) b"
proof
  assume b: "placeable (v # vs) (unat sz) (unat c) b"
  have "\<not> hi v \<le> b"
  proof
    assume "hi v \<le> b"
    with b have "unat (max (min (va_end v) c) FLOOR) + unat sz \<le> unat c"
      unfolding unat_gap_bottom [OF assms(1)] by (auto simp: placeable_def)
    with assms(3) show False by (simp add: u64_arith unat_sub_u64)
  qed
  with b show "placeable vs (unat sz) (lo v) b" by (auto simp: placeable_def clear_of_Cons)
next
  assume "placeable vs (unat sz) (lo v) b"
  with assms(2) show "placeable (v # vs) (unat sz) (unat c) b" by (auto simp: placeable_def clear_of_Cons)
qed

lemma below_loop_highest:
  assumes "0 < sz" "sorted_wrt (\<lambda>u v. before v u) vs" "\<forall>v \<in> set vs. wf_area v"
  shows "highest (below_loop sz c vs) (placeable vs (unat sz) (unat c))"
  using assms(2,3)
proof (induction vs arbitrary: c)
  case Nil
  show ?case by (rule floor_gap_highest [OF assms(1)])
next
  case (Cons v vs)
  from Cons.prems have wf: "wf_area v" and low: "\<forall>u \<in> set vs. hi u \<le> lo v"
    and vs: "sorted_wrt (\<lambda>u v. before v u) vs" "\<forall>v \<in> set vs. wf_area v"
    by (auto simp: before_def)
  note IH = Cons.IH [OF vs]
  let ?bot = "max (min (va_end v) c) FLOOR"
  consider "c \<le> va_base v" | "\<not> c \<le> va_base v" "?bot \<le> c \<and> sz \<le> c - ?bot"
    | "\<not> c \<le> va_base v" "\<not> (?bot \<le> c \<and> sz \<le> c - ?bot)" by blast
  then show ?case
  proof cases
    case 1
    then have "placeable (v # vs) (unat sz) (unat c) b \<longleftrightarrow> placeable vs (unat sz) (unat c) b" for b
      by (auto simp: placeable_def clear_of_Cons u64_arith lo_def)
    from highest_cong [OF IH this] 1 show ?thesis by simp
  next
    case 2
    then have "lo v < unat c" by (simp add: u64_arith lo_def)
    from gap_fits_highest [OF assms(1) wf low this] 2 show ?thesis
      by (simp only: below_loop.simps Let_def if_False if_True simp_thms)
  next
    case 3
    then have "lo v < unat c" by (simp add: u64_arith lo_def)
    from gap_too_small [OF wf this 3(2)]
    have "highest (below_loop sz (va_base v) vs) (placeable (v # vs) (unat sz) (unat c))"
      using highest_cong [OF IH [of "va_base v"]] by (simp add: lo_def)
    moreover have "min (va_base v) c = va_base v" using 3(1) by simp
    ultimately show ?thesis using 3 by (simp only: below_loop.simps Let_def if_False)
  qed
qed

lemma page_align_up_multiple: "0x1000 dvd unat (page_align_up x)"
proof -
  have "page_align_up x = page_align_down (x + 0xFFF)"
    by (simp add: page_align_up_def page_align_down_def)
  then show ?thesis by (simp add: unat_page_align_down)
qed

lemma page_align_up_id:
  assumes "0x1000 dvd unat x"
  shows "page_align_up x = x"
proof -
  obtain k where k: "unat x = 0x1000 * k" using assms by (auto simp: dvd_def)
  have "unat x < 2 ^ 64" by (rule order_less_le_trans [OF unsigned_less]) simp
  then have "k < 2 ^ 52" unfolding k by simp
  then have "unat x + 0xFFF < 2 ^ 64" unfolding k by simp
  then have "unat (page_align_up x) = (0x1000 * k + 0xFFF) div 0x1000 * 0x1000"
    unfolding k [symmetric] by (rule unat_page_align_up)
  also have "(0x1000 * k + 0xFFF) div 0x1000 = k" by (simp only: div_mult_self2)
  finally have "unat (page_align_up x) = unat x" using k by simp
  then show ?thesis by (rule unsigned_word_eqI)
qed

lemma find_free_range_below_highest:
  assumes "wf_areas (vs_areas s)" "0 < sz" "0x1000 dvd unat sz"
  shows "highest (find_free_range_below s sz c) (placeable (vs_areas s) (unat sz) (min (unat c) (unat MMAP_BASE)))"
proof -
  have "sorted_wrt (\<lambda>u v. before v u) (rev (vs_areas s))" "\<forall>v \<in> set (rev (vs_areas s)). wf_area v"
    using assms(1) by (simp_all add: wf_areas_def sorted_wrt_rev)
  from below_loop_highest [OF assms(2) this, of "min c MMAP_BASE"]
  have "highest (find_free_range_below s sz c) (placeable (rev (vs_areas s)) (unat sz) (unat (min c MMAP_BASE)))"
    by (simp add: find_free_range_below_def page_align_up_id [OF assms(3)])
  moreover have "unat (min c MMAP_BASE) = min (unat c) (unat MMAP_BASE)"
    by (simp add: min_def u64_arith)
  ultimately show ?thesis by (auto simp: placeable_def clear_of_rev elim: highest_cong)
qed

lemma slots_below_less:
  assumes "s \<in> set (td_slots t)" "t_cr3 s = cr3" "t_lo s < c"
  shows "slots_below t cr3 (t_lo s) < slots_below t cr3 c"
proof -
  have "filter (\<lambda>x. t_cr3 x = cr3 \<and> t_lo x < t_lo s) (td_slots t) =
      filter (\<lambda>x. t_lo x < t_lo s) (filter (\<lambda>x. t_cr3 x = cr3 \<and> t_lo x < c) (td_slots t))"
    using assms(3) by (auto simp: filter_filter intro!: filter_cong)
  moreover have "length (filter (\<lambda>x. t_lo x < t_lo s) (filter (\<lambda>x. t_cr3 x = cr3 \<and> t_lo x < c) (td_slots t))) <
      length (filter (\<lambda>x. t_cr3 x = cr3 \<and> t_lo x < c) (td_slots t))"
    using assms by (intro length_filter_less [of s]) simp_all
  ultimately show ?thesis by (simp add: slots_below_def)
qed

lemma no_hits_clear:
  "(\<forall>s \<in> set (td_slots t). \<not> slot_hits cr3 b e s) \<Longrightarrow> unat e = unat b + n \<Longrightarrow> clear_of_teardowns t cr3 n (unat b)"
  by (force simp: clear_of_teardowns_def slot_hits_def u64_arith)

text \<open>A conflicting teardown moves the ceiling down to its start without losing a candidate.\<close>

lemma conflict_lowers_ceiling:
  assumes "sl \<in> set (td_slots t)" "t_cr3 sl = vs_cr3 s" "m = t_lo sl" "unat x < unat (t_hi sl)" "unat m < unat c"
    and top: "\<And>b. space_free t s n (unat c) b \<Longrightarrow> b \<le> unat x"
  shows "space_free t s n (unat c) b \<longleftrightarrow> space_free t s n (unat m) b"
proof
  assume b: "space_free t s n (unat c) b"
  have "b + n \<le> unat m \<or> unat (t_hi sl) \<le> b"
    using b assms(1-3) by (auto simp: space_free_def clear_of_teardowns_def)
  with top [OF b] show "space_free t s n (unat m) b"
    using b assms(4) by (auto simp: space_free_def placeable_def)
next
  assume "space_free t s n (unat m) b"
  with assms(5) show "space_free t s n (unat c) b" by (auto simp: space_free_def placeable_def)
qed

lemma free_range_loop_highest:
  assumes "wf_areas (vs_areas s)" "td_ok t" "vs_cr3 s \<noteq> 0" "vs_cr3 s \<noteq> - 1" "0 < sz" "0x1000 dvd unat sz"
  shows "slots_below t (vs_cr3 s) c < k \<Longrightarrow>
    highest (free_range_loop k t s sz c) (space_free t s (unat sz) (unat c))"
proof (induction k arbitrary: c)
  case 0
  then show ?case by simp
next
  case (Suc k)
  let ?n = "unat sz"
  note below = find_free_range_below_highest [OF assms(1,5,6), of c]
  show ?case
  proof (cases "find_free_range_below s sz c")
    case None
    with below show ?thesis by (simp add: highest_def space_free_def)
  next
    case (Some x)
    with below have x: "placeable (vs_areas s) ?n (min (unat c) (unat MMAP_BASE)) (unat x)"
      and top: "\<And>b. placeable (vs_areas s) ?n (min (unat c) (unat MMAP_BASE)) b \<Longrightarrow> b \<le> unat x"
      by (simp_all add: highest_Some_iff)
    from x have "unat x + ?n \<le> unat MMAP_BASE" "unat x + ?n \<le> unat c" by (simp_all add: placeable_def)
    then have e: "unat (saturating_add x sz) = unat x + ?n" by (simp add: unat_saturating_add)
    show ?thesis
    proof (cases "teardown_conflict (vs_cr3 s) x (saturating_add x sz) t")
      case None
      then have "\<forall>sl \<in> set (td_slots t). \<not> slot_hits (vs_cr3 s) x (saturating_add x sz) sl"
        using teardown_conflict_None [OF assms(2-4)] by blast
      from no_hits_clear [OF this e] x top None Some show ?thesis
        by (simp add: highest_Some_iff space_free_def)
    next
      case conf: (Some m)
      obtain sl where sl: "sl \<in> set (td_slots t)" "slot_hits (vs_cr3 s) x (saturating_add x sz) sl" "m = t_lo sl"
        using teardown_conflict_Some [OF assms(2) conf] by blast
      then have hit: "t_cr3 sl = vs_cr3 s" "unat x < unat (t_hi sl)" "unat m < unat x + ?n"
        using e by (simp_all add: slot_hits_def u64_arith)
      have mc: "unat m < unat c" using hit(3) \<open>unat x + ?n \<le> unat c\<close> by simp
      have eq: "space_free t s ?n (unat c) b \<longleftrightarrow> space_free t s ?n (unat m) b" for b
        by (rule conflict_lowers_ceiling [OF sl(1) hit(1) sl(3) hit(2) mc], rule top) (simp add: space_free_def)
      have "slots_below t (vs_cr3 s) m < slots_below t (vs_cr3 s) c"
        using slots_below_less [OF sl(1) hit(1), of c] mc sl(3) by (simp add: u64_arith)
      with Suc.prems have "highest (free_range_loop k t s sz m) (space_free t s ?n (unat m))"
        by (intro Suc.IH) simp
      then have "highest (free_range_loop k t s sz m) (space_free t s ?n (unat c))"
        by (rule highest_cong) (rule eq)
      with Some conf show ?thesis by simp
    qed
  qed
qed

lemma find_free_range_highest:
  assumes "wf_areas (vs_areas s)" "td_ok t" "vs_cr3 s \<noteq> 0" "vs_cr3 s \<noteq> - 1" "0 < page_align_up sz"
  shows "highest (find_free_range t s sz) (space_free t s (unat (page_align_up sz)) (unat MMAP_BASE))"
proof -
  have "slots_below t (vs_cr3 s) MMAP_BASE \<le> length (td_slots t)" by (simp add: slots_below_def)
  then have "slots_below t (vs_cr3 s) MMAP_BASE < Suc TEARDOWN_SLOTS"
    using assms(2) by (simp add: td_ok_def)
  from free_range_loop_highest [OF assms page_align_up_multiple this] show ?thesis
    unfolding find_free_range_def .
qed

lemma space_free_base: "space_free t s n (unat MMAP_BASE) = free_base t s n"
  by (auto simp: fun_eq_iff space_free_def placeable_def free_base_def)

text \<open>
  C3: \<open>find_free_range\<close> returns the highest base below \<open>MMAP_BASE\<close>, above the null guard page, at
  which the page-rounded size meets no mapping and no range whose teardown is in flight. It
  returns \<open>None\<close> only if there is no such base: the single descending sweep misses no gap, and
  the bounded number of retries is enough for any state of the reservation table.
\<close>

theorem find_free_range_spec:
  assumes "wf_areas (vs_areas s)" and "td_ok t" and "vs_cr3 s \<noteq> 0" and "vs_cr3 s \<noteq> - 1"
    and "0 < page_align_up sz"
  shows "case find_free_range t s sz of
      Some r \<Rightarrow> free_base t s (unat (page_align_up sz)) (unat r) \<and>
        (\<forall>b. free_base t s (unat (page_align_up sz)) b \<longrightarrow> b \<le> unat r)
    | None \<Rightarrow> \<forall>b. \<not> free_base t s (unat (page_align_up sz)) b"
  using find_free_range_highest [OF assms, unfolded space_free_base] unfolding highest_def .

lemma min_word_nat: "unat (min a b :: u64) = min (unat a) (unat b)"
  by (simp add: min_def u64_arith)

lemma max_word_nat: "unat (max a b :: u64) = max (unat a) (unat b)"
  by (simp add: max_def u64_arith)

lemma stack_candidate_window:
  assumes "sz \<le> STACK_ASLR_MAX - STACK_ASLR_MIN"
  shows "unat STACK_ASLR_MIN \<le> unat (stack_candidate s sz r) \<and>
    unat (stack_candidate s sz r) + unat sz \<le> unat STACK_ASLR_MAX"
proof -
  have "unat sz \<le> unat STACK_ASLR_MAX - unat STACK_ASLR_MIN"
    using assms by (simp add: u64_arith)
  then show ?thesis
    by (simp add: stack_candidate_def Let_def min_word_nat max_word_nat unat_saturating_sub)
qed

lemma stack_loop_sound:
  assumes "wf_areas (vs_areas s)" "td_ok t" "vs_cr3 s \<noteq> 0" "vs_cr3 s \<noteq> - 1" "0 < sz" "0x1000 dvd unat sz"
    "sz \<le> STACK_ASLR_MAX - STACK_ASLR_MIN"
  shows "(\<exists>b. stack_loop t s sz rs = Some b \<and> stack_ok t s (unat sz) (unat b)) \<or>
    stack_loop t s sz rs = find_free_range t s sz"
proof (induction rs)
  case (Cons r rs)
  let ?c = "stack_candidate s sz r"
  note win = stack_candidate_window [OF assms(7), of s r]
  then have e: "unat (saturating_add ?c sz) = unat ?c + unat sz" by (simp add: unat_saturating_add)
  have wr: "wf_range ?c sz" using win by (simp add: wf_range_def)
  show ?case
  proof (cases "(\<exists>v \<in> set (vs_areas s). overlaps v ?c sz) \<or>
      teardown_conflict (vs_cr3 s) ?c (saturating_add ?c sz) t \<noteq> None")
    case True
    then have "stack_loop t s sz (r # rs) = stack_loop t s sz rs" by (simp only: stack_loop.simps Let_def simp_thms if_False)
    with Cons show ?thesis by simp
  next
    case False
    then have "clear_of (vs_areas s) (unat sz) (unat ?c)"
      using assms(1) wr by (auto simp: clear_of_def overlaps_iff wf_areas_mem not_less)
    moreover have "clear_of_teardowns t (vs_cr3 s) (unat sz) (unat ?c)"
      using False teardown_conflict_None [OF assms(2-4)] by (intro no_hits_clear [OF _ e]) blast
    moreover have "stack_loop t s sz (r # rs) = Some ?c"
      using False by (simp only: stack_loop.simps Let_def simp_thms if_True)
    ultimately show ?thesis using win by (auto simp: stack_ok_def)
  qed
qed simp

text \<open>
  Every stack base that \<open>find_free_stack_range\<close> chooses inside its window keeps the whole
  stack inside the window and clear of all mappings and of all teardowns in flight, whatever
  the random draws are. When all sixteen draws collide the result is that of the general
  search, so a size that fits somewhere is never refused.
\<close>

theorem find_free_stack_range_sound:
  assumes "wf_areas (vs_areas s)" and "td_ok t" and "vs_cr3 s \<noteq> 0" and "vs_cr3 s \<noteq> - 1"
    and "0 < page_align_up sz" and "page_align_up sz \<le> STACK_ASLR_MAX - STACK_ASLR_MIN"
  shows "(\<exists>b. find_free_stack_range draws t s sz = Some b \<and>
      unat STACK_ASLR_MIN \<le> unat b \<and> unat b + unat (page_align_up sz) \<le> unat STACK_ASLR_MAX \<and>
      clear_of (vs_areas s) (unat (page_align_up sz)) (unat b) \<and>
      clear_of_teardowns t (vs_cr3 s) (unat (page_align_up sz)) (unat b)) \<or>
    find_free_stack_range draws t s sz = find_free_range t s (page_align_up sz)"
proof -
  have "find_free_stack_range draws t s sz = stack_loop t s (page_align_up sz) (map draws [0..<STACK_PLACE_RETRIES])"
    using assms(5,6) unfolding find_free_stack_range_def Let_def
    by (metis (no_types, lifting) less_irrefl linorder_not_le)
  with stack_loop_sound [OF assms(1-5) page_align_up_multiple assms(6), of "map draws [0..<STACK_PLACE_RETRIES]"]
  show ?thesis unfolding stack_ok_def by simp
qed

lemma demo_vm_ok: "wf_areas (vs_areas demo_vm)" "vs_cr3 demo_vm \<noteq> 0" "vs_cr3 demo_vm \<noteq> - 1"
  by (simp_all add: demo_vm_def wf_areas_def wf_area_def lo_def hi_def)

lemma page_align_up_example: "page_align_up 0x1800 = 0x2000"
  by code_simp

theorem find_free_range_spec_witness:
  "free_base (snd (teardown_publish 0x5000 0x7EFFFFFFC000 0x7EFFFFFFE000 teardown_init)) demo_vm 0x2000 0x7EFFFFFFA000 \<and>
   find_free_range (snd (teardown_publish 0x5000 0x7EFFFFFFC000 0x7EFFFFFFE000 teardown_init)) demo_vm 0x1800 =
     Some 0x7EFFFFFFA000"
proof -
  let ?t = "snd (teardown_publish 0x5000 0x7EFFFFFFC000 0x7EFFFFFFE000 teardown_init)"
  have "live_slots teardown_init = 0" by code_simp
  then have t: "td_ok ?t" by (intro td_ok_publish td_ok_init) simp_all
  have r: "find_free_range ?t demo_vm 0x1800 = Some 0x7EFFFFFFA000" by code_simp
  have "0 < page_align_up 0x1800" by (simp add: page_align_up_example)
  from find_free_range_spec [OF demo_vm_ok(1) t demo_vm_ok(2,3) this] r
  show ?thesis by (simp add: page_align_up_example)
qed

theorem find_free_stack_range_sound_witness:
  "\<exists>b. find_free_stack_range (\<lambda>_. 0x3000) teardown_init demo_vm 0x1800 = Some b \<and>
    clear_of (vs_areas demo_vm) 0x2000 (unat b)"
proof -
  have "0 < page_align_up 0x1800" "page_align_up 0x1800 \<le> STACK_ASLR_MAX - STACK_ASLR_MIN"
    by (simp_all add: page_align_up_example)
  note th = find_free_stack_range_sound [OF demo_vm_ok(1) td_ok_init demo_vm_ok(2,3) this, of "\<lambda>_. 0x3000"]
  have "find_free_stack_range (\<lambda>_. 0x3000) teardown_init demo_vm 0x1800 \<noteq>
      find_free_range teardown_init demo_vm (page_align_up 0x1800)"
    by code_simp
  with th show ?thesis by (auto simp: page_align_up_example)
qed

lemma and_fff_dvd: "x AND 0xFFF = 0 \<longleftrightarrow> 0x1000 dvd unat x" for x :: u64
  using unat_and_fff [of x] by (auto simp: dvd_eq_mod_eq_0 unat_eq_zero)

lemma aslr_page_offset_20:
  "unat (aslr_page_offset 20 r) \<le> 0xFFFFF000" "0x1000 dvd unat (aslr_page_offset 20 r)"
proof -
  have eq: "aslr_page_offset 20 r = r AND 0xFFFFF000" by (simp add: aslr_page_offset_def)
  show "unat (aslr_page_offset 20 r) \<le> 0xFFFFF000"
    using word_and_le1 [of r "0xFFFFF000"] by (simp add: eq u64_arith)
  have "(r AND 0xFFFFF000) AND 0xFFF = 0" by (simp add: and.assoc)
  then show "0x1000 dvd unat (aslr_page_offset 20 r)" by (simp add: eq and_fff_dvd)
qed

lemma aslr_page_offset_26:
  "unat (aslr_page_offset 26 r) \<le> 0x3FFFFFF000" "0x1000 dvd unat (aslr_page_offset 26 r)"
proof -
  have eq: "aslr_page_offset 26 r = r AND 0x3FFFFFF000" by (simp add: aslr_page_offset_def)
  show "unat (aslr_page_offset 26 r) \<le> 0x3FFFFFF000"
    using word_and_le1 [of r "0x3FFFFFF000"] by (simp add: eq u64_arith)
  have "(r AND 0x3FFFFFF000) AND 0xFFF = 0" by (simp add: and.assoc)
  then show "0x1000 dvd unat (aslr_page_offset 26 r)" by (simp add: eq and_fff_dvd)
qed

text \<open>
  The randomised start values stay in their windows for every draw: the \<open>mmap\<close> hint lies in
  the 4 GiB below \<open>MMAP_BASE\<close>, the stack base in \<open>[STACK_ASLR_MIN, STACK_ASLR_MAX - 4096]\<close>, and both
  are page aligned.
\<close>

theorem randomised_bases_in_window:
  "MMAP_BASE - 0xFFFFF000 \<le> randomised_mmap_hint r \<and> randomised_mmap_hint r \<le> MMAP_BASE \<and>
   STACK_ASLR_MIN \<le> randomised_stack_aslr_base r \<and>
   randomised_stack_aslr_base r \<le> STACK_ASLR_MAX - 0x1000 \<and>
   randomised_mmap_hint r AND 0xFFF = 0 \<and> randomised_stack_aslr_base r AND 0xFFF = 0"
proof -
  have h: "unat (randomised_mmap_hint r) = unat MMAP_BASE - unat (aslr_page_offset 20 r)"
    by (simp add: randomised_mmap_hint_def unat_saturating_sub)
  have s: "unat (randomised_stack_aslr_base r) =
      min (unat STACK_ASLR_MIN + unat (aslr_page_offset 26 r)) (unat (STACK_ASLR_MAX - 0x1000))"
    using aslr_page_offset_26(1) [of r]
    by (simp add: randomised_stack_aslr_base_def min_word_nat unat_saturating_add)
  have "unat (MMAP_BASE - 0xFFFFF000) = 0x7EFF00001000" by simp
  then have "MMAP_BASE - 0xFFFFF000 \<le> randomised_mmap_hint r" "randomised_mmap_hint r \<le> MMAP_BASE"
    using aslr_page_offset_20(1) [of r] unfolding word_le_nat_alt h by simp_all
  moreover have "STACK_ASLR_MIN \<le> randomised_stack_aslr_base r" "randomised_stack_aslr_base r \<le> STACK_ASLR_MAX - 0x1000"
    unfolding word_le_nat_alt s by simp_all
  moreover have "randomised_mmap_hint r AND 0xFFF = 0"
    unfolding and_fff_dvd h by (rule dvd_diff_nat [OF _ aslr_page_offset_20(2)]) simp
  moreover have "0x1000 dvd unat STACK_ASLR_MIN + unat (aslr_page_offset 26 r)"
    by (rule dvd_add [OF _ aslr_page_offset_26(2)]) simp
  then have "randomised_stack_aslr_base r AND 0xFFF = 0"
    unfolding and_fff_dvd s min_def by simp
  ultimately show ?thesis by blast
qed

end
