(* ===== verification/Vma_Brk.thy ===== *)
theory Vma_Brk
  imports Vma_Contract
begin

text \<open>
  The program break (\<open>adjust_brk\<close> of \<open>mm/vma.rs\<close>). The call of
  \<open>unmap_and_free_range_in\<close> is a value of the result: the list of ranges handed to it. The
  heap is the area named \<open>[heap]\<close>; \<open>heap_ok\<close> ties it to the two break values. The break
  is moved correctly when no other area lies in the way; nothing in the code checks that,
  and the last properties show what happens otherwise.
\<close>

section \<open>Definitions\<close>

abbreviation heap_name :: string where "heap_name \<equiv> ''[heap]''"

definition heap_area :: "u64 \<Rightarrow> u64 \<Rightarrow> vm_area" where
  "heap_area b len = \<lparr>va_base = b, va_length = len, va_prot = PROT_READ OR PROT_WRITE,
     va_flags = MAP_PRIVATE OR MAP_ANONYMOUS, va_backing = Anonymous, va_name = heap_name\<rparr>"

definition set_heap_end :: "u64 \<Rightarrow> vm_area list \<Rightarrow> vm_area list" where
  "set_heap_end e = upd_first (\<lambda>v. va_name v = heap_name) (\<lambda>v. v\<lparr>va_length := e - va_base v\<rparr>)"

definition has_heap :: "vm_space \<Rightarrow> bool" where
  "has_heap s \<longleftrightarrow> (\<exists>v \<in> set (vs_areas s). va_name v = heap_name)"

type_synonym unmap_request = "u64 \<times> u64 \<times> u64"

definition adjust_brk ::
  "u64 \<Rightarrow> vm_space \<Rightarrow> pin_state \<Rightarrow> u64 \<times> vm_space \<times> pin_state \<times> unmap_request list" where
  "adjust_brk nb s ps =
     (let new_brk = page_align_up nb in
      if new_brk < vs_brk_start s then (vs_brk s, s, ps, [])
      else if new_brk = vs_brk s then (vs_brk s, s, ps, [])
      else
        (let s1 = s\<lparr>vs_generation := vs_generation s + 1\<rparr> in
         if vs_brk s < new_brk then
           (if has_heap s1
            then (new_brk, s1\<lparr>vs_areas := set_heap_end new_brk (vs_areas s1), vs_brk := new_brk\<rparr>, ps, [])
            else
              (let (_, s2, ps2) =
                 insert_vma (heap_area (vs_brk_start s1) (new_brk - vs_brk_start s1)) s1 ps
               in (new_brk, s2\<lparr>vs_brk := new_brk\<rparr>, ps2, [])))
         else
           (let old_brk = vs_brk s1;
                areas = (if has_heap s1
                         then if new_brk \<le> vs_brk_start s1
                              then filter (\<lambda>v. va_name v \<noteq> heap_name) (vs_areas s1)
                              else set_heap_end new_brk (vs_areas s1)
                         else vs_areas s1);
                unmaps = (if new_brk < old_brk then [(vs_cr3 s1, new_brk, old_brk - new_brk)] else [])
            in (new_brk, s1\<lparr>vs_areas := areas, vs_brk := new_brk\<rparr>, ps, unmaps))))"

text \<open>The heap area spans exactly the two break values, and is absent iff they are equal.\<close>

definition heap_ok :: "vm_space \<Rightarrow> bool" where
  "heap_ok s \<longleftrightarrow> vs_brk_start s \<le> vs_brk s \<and>
     (\<forall>v \<in> set (vs_areas s). va_name v = heap_name \<longrightarrow>
        va_base v = vs_brk_start s \<and> va_end v = vs_brk s \<and> va_flags v AND MAP_SHARED = 0) \<and>
     (has_heap s \<longleftrightarrow> vs_brk_start s < vs_brk s)"

text \<open>No area but the heap meets the range between the heap's start and the new break.\<close>

definition brk_room :: "u64 \<Rightarrow> vm_space \<Rightarrow> bool" where
  "brk_room new_brk s \<longleftrightarrow> (\<forall>v \<in> set (vs_areas s). va_name v \<noteq> heap_name \<longrightarrow>
     hi v \<le> unat (vs_brk_start s) \<or> unat (max new_brk (vs_brk s)) \<le> lo v)"

definition rest_areas :: "vm_area list \<Rightarrow> vm_area list" where
  "rest_areas vs = filter (\<lambda>v. va_name v \<noteq> heap_name) vs"

text \<open>What the three ways of moving the break do to the area list.\<close>

definition heaps_to :: "u64 \<Rightarrow> u64 \<Rightarrow> vm_area list \<Rightarrow> bool" where
  "heaps_to b e vs \<longleftrightarrow>
     (\<forall>v \<in> set vs. va_name v = heap_name \<longrightarrow> va_base v = b \<and> va_end v = e \<and> va_flags v AND MAP_SHARED = 0) \<and>
     ((\<exists>v \<in> set vs. va_name v = heap_name) \<longleftrightarrow> b < e)"

definition moved :: "u64 \<Rightarrow> u64 \<Rightarrow> vm_area list \<Rightarrow> vm_area list \<Rightarrow> bool" where
  "moved b e vs vs' \<longleftrightarrow> wf_areas vs' \<and> heaps_to b e vs' \<and> rest_areas vs' = rest_areas vs \<and>
     (\<forall>h \<in> set vs. \<forall>h' \<in> set vs'. va_name h = heap_name \<longrightarrow> va_name h' = heap_name \<longrightarrow>
        (\<forall>a. page_at h' a = page_at h a))"

definition heap_page :: "vm_area list \<Rightarrow> u64 \<Rightarrow> page_view" where
  "heap_page vs a = page_at (hd (filter (\<lambda>v. va_name v = heap_name) vs)) a"

definition demo_brk :: vm_space where
  "demo_brk = \<lparr>vs_cr3 = 0x5000, vs_areas =
      [heap_area 0x4000000000 0x3000,
       \<lparr>va_base = 0x4000010000, va_length = 0x1000, va_prot = PROT_READ, va_flags = MAP_PRIVATE,
        va_backing = Anonymous, va_name = ''[mmap]''\<rparr>],
     vs_mmap_hint = 0x7F0000000000, vs_stack_aslr_base = 0x7F0000000000, vs_brk = 0x4000003000,
     vs_brk_start = 0x4000000000, vs_generation = 0\<rparr>"

section \<open>Lemmas\<close>

lemma upd_first_mid:
  "\<forall>y \<in> set ys. \<not> P y \<Longrightarrow> P x \<Longrightarrow> upd_first P f (ys @ x # zs) = ys @ f x # zs"
  by (induction ys) auto

lemma heap_split:
  assumes "\<exists>v \<in> set vs. va_name v = heap_name"
  obtains ys h zs where "vs = ys @ h # zs" "va_name h = heap_name" "\<forall>y \<in> set ys. va_name y \<noteq> heap_name"
  using split_list_first_prop [OF assms] by blast

lemma set_heap_end_mid:
  "\<forall>y \<in> set ys. va_name y \<noteq> heap_name \<Longrightarrow> va_name h = heap_name \<Longrightarrow>
     set_heap_end e (ys @ h # zs) = ys @ h\<lparr>va_length := e - va_base h\<rparr> # zs"
  by (simp add: set_heap_end_def upd_first_mid)

text \<open>Changing the end of one area keeps the order if the areas above it start beyond the new end.\<close>

lemma wf_areas_set_length:
  assumes "wf_areas (ys @ h # zs)" "va_base h < e" "\<forall>z \<in> set zs. unat e \<le> lo z"
  shows "wf_areas (ys @ h\<lparr>va_length := e - va_base h\<rparr> # zs)"
proof -
  let ?h = "h\<lparr>va_length := e - va_base h\<rparr>"
  have v: "lo ?h = lo h" "hi ?h = unat e"
    using assms(2) by (simp_all add: lo_def hi_def unat_sub_u64 u64_arith)
  have "unat e < 2 ^ 64" by (rule order_less_le_trans [OF unsigned_less]) simp
  with v assms(2) have "wf_area ?h" by (simp add: wf_area_def lo_def u64_arith)
  with assms v show ?thesis by (auto simp: wf_areas_append wf_areas_Cons before_def)
qed

lemma wf_areas_filter: "wf_areas vs \<Longrightarrow> wf_areas (filter P vs)"
  by (auto simp: wf_areas_def sorted_wrt_filter)

lemma lookup_mid:
  assumes "wf_areas (ys @ h # zs)"
  shows "lookup_areas (ys @ h # zs) a = (if contains h a then Some (page_at h a) else lookup_areas (ys @ zs) a)"
proof (cases "contains h a")
  case True
  with lookup_areas_in [OF assms, of h a] show ?thesis by simp
next
  case False
  then show ?thesis
    by (cases "lookup_areas ys a") (simp_all add: lookup_areas_append lookup_areas_Cons)
qed

text \<open>A second area named \<open>[heap]\<close> would overlap the first.\<close>

lemma heap_unique:
  assumes "wf_areas (ys @ h # zs)" "va_name h = heap_name" "\<forall>y \<in> set ys. va_name y \<noteq> heap_name"
    "\<forall>v \<in> set (ys @ h # zs). va_name v = heap_name \<longrightarrow> va_base v = b"
  shows "\<forall>z \<in> set zs. va_name z \<noteq> heap_name" and "rest_areas (ys @ h # zs) = ys @ zs"
proof -
  show *: "\<forall>z \<in> set zs. va_name z \<noteq> heap_name"
  proof (intro ballI notI)
    fix z assume z: "z \<in> set zs" "va_name z = heap_name"
    with assms(4,2) have "va_base z = va_base h" by simp
    moreover have "hi h \<le> lo z" "wf_area h" using assms(1) z(1) by (auto simp: wf_areas_append wf_areas_Cons before_def)
    ultimately show False using wf_area_less [of h] by (simp add: lo_def)
  qed
  with assms(2,3) show "rest_areas (ys @ h # zs) = ys @ zs"
    by (simp add: rest_areas_def filter_id_conv)
qed

lemma rest_outside_heap:
  assumes "brk_room e s" "wf_areas (vs_areas s)" "vs_brk_start s \<le> a" "a < max e (vs_brk s)"
  shows "lookup_areas (rest_areas (vs_areas s)) a = None"
proof (rule lookup_areas_out, intro ballI notI)
  fix v assume v: "v \<in> set (rest_areas (vs_areas s))" "contains v a"
  then have "wf_area v" "va_name v \<noteq> heap_name" "v \<in> set (vs_areas s)"
    using assms(2) by (auto simp: rest_areas_def wf_areas_mem)
  with assms(1,3,4) v(2) show False
    by (force simp: brk_room_def contains_iff u64_arith)
qed

lemma area_contains_iff: "va_end h = e \<Longrightarrow> contains h a \<longleftrightarrow> va_base h \<le> a \<and> a < e"
  by (simp add: contains_def)

lemma heap_lookup:
  assumes "wf_areas vs" "vs = ys @ h # zs" "va_name h = heap_name" "\<forall>y \<in> set ys. va_name y \<noteq> heap_name"
    "\<forall>v \<in> set vs. va_name v = heap_name \<longrightarrow> va_base v = b" "va_end h = e"
  shows "lookup_areas vs a = (if b \<le> a \<and> a < e then Some (page_at h a) else lookup_areas (rest_areas vs) a)"
proof -
  have "va_base h = b" using assms(2,3,5) by simp
  then show ?thesis
    using lookup_mid [of ys h zs a] heap_unique(2) [of ys h zs b] assms area_contains_iff [of h e a] by simp
qed

lemma heap_ok_heaps_to: "heap_ok s \<longleftrightarrow> vs_brk_start s \<le> vs_brk s \<and> heaps_to (vs_brk_start s) (vs_brk s) (vs_areas s)"
  by (auto simp: heap_ok_def heaps_to_def has_heap_def)

lemma moved_end:
  assumes "wf_areas vs" "heaps_to b e vs" "b < e" "b < e'"
    "\<forall>v \<in> set vs. va_name v \<noteq> heap_name \<longrightarrow> hi v \<le> unat b \<or> unat e' \<le> lo v"
  shows "moved b e' vs (set_heap_end e' vs)"
proof -
  have "\<exists>v \<in> set vs. va_name v = heap_name" using assms(2,3) by (simp add: heaps_to_def)
  then obtain ys h zs where vs: "vs = ys @ h # zs" and h: "va_name h = heap_name"
    and ys: "\<forall>y \<in> set ys. va_name y \<noteq> heap_name"
    by (rule heap_split)
  let ?h = "h\<lparr>va_length := e' - va_base h\<rparr>"
  have hb: "va_base h = b" "va_flags h AND MAP_SHARED = 0" using assms(2) vs h by (simp_all add: heaps_to_def)
  have all: "\<forall>v \<in> set (ys @ h # zs). va_name v = heap_name \<longrightarrow> va_base v = b"
    using assms(2) vs by (simp add: heaps_to_def)
  have wf: "wf_areas (ys @ h # zs)" using assms(1) vs by simp
  have zs: "\<forall>z \<in> set zs. va_name z \<noteq> heap_name" and rest: "rest_areas (ys @ h # zs) = ys @ zs"
    by (rule heap_unique [OF wf h ys all])+
  have "unat e' \<le> lo z" if "z \<in> set zs" for z
  proof -
    have "hi h \<le> lo z" "wf_area h" "wf_area z"
      using wf that by (auto simp: wf_areas_append wf_areas_Cons before_def wf_areas_mem)
    then have "\<not> hi z \<le> unat b"
      using wf_area_less [of h] wf_area_less [of z] hb(1) by (simp add: lo_def)
    with assms(5) zs that vs show ?thesis by auto
  qed
  then have "wf_areas (ys @ ?h # zs)"
    using wf_areas_set_length [OF wf] assms(4) hb(1) by simp
  moreover have "set_heap_end e' vs = ys @ ?h # zs" using vs h ys by (simp add: set_heap_end_mid)
  moreover have "rest_areas (ys @ ?h # zs) = ys @ zs"
    using h ys zs by (simp add: rest_areas_def filter_id_conv)
  moreover have "heaps_to b e' (ys @ ?h # zs)"
    using h hb ys zs assms(4) by (auto simp: heaps_to_def va_end_def)
  moreover have "page_at ?h a = page_at h a" for a
    by (simp add: page_at_def page_src_at_def split: vm_backing.splits)
  ultimately show ?thesis
    using vs rest h ys zs unfolding moved_def by auto
qed

lemma moved_remove:
  assumes "wf_areas vs"
  shows "moved b b vs (filter (\<lambda>v. va_name v \<noteq> heap_name) vs)"
  using assms by (auto simp: moved_def heaps_to_def rest_areas_def wf_areas_filter)

lemma moved_insert:
  assumes "wf_areas vs" "heaps_to b b vs" "b < e"
    "\<forall>v \<in> set vs. va_name v \<noteq> heap_name \<longrightarrow> hi v \<le> unat b \<or> unat e \<le> lo v"
  shows "\<forall>u \<in> set vs. \<not> overlaps u b (e - b)"
    and "moved b e vs (vec_insert (insert_pos (heap_area b (e - b)) vs) (heap_area b (e - b)) vs)"
proof -
  let ?h = "heap_area b (e - b)"
  have no: "\<forall>v \<in> set vs. va_name v \<noteq> heap_name" using assms(2) by (simp add: heaps_to_def)
  have h: "va_base ?h = b" "va_length ?h = e - b" "va_name ?h = heap_name" "va_end ?h = e"
    "va_flags ?h AND MAP_SHARED = 0"
    by (simp_all add: heap_area_def va_end_def)
  have v: "lo ?h = unat b" "hi ?h = unat e"
    using assms(3) h by (simp_all add: lo_def hi_def unat_sub_u64 u64_arith)
  have "unat e < 2 ^ 64" by (rule order_less_le_trans [OF unsigned_less]) simp
  with v assms(3) have wfh: "wf_area ?h" by (simp add: wf_area_def u64_arith)
  have "\<not> overlaps u (va_base ?h) (va_length ?h)" if "u \<in> set vs" for u
    using assms(1,4) no that wfh v by (auto simp: overlaps_area_iff wf_areas_mem)
  then show dis: "\<forall>u \<in> set vs. \<not> overlaps u b (e - b)" using h by simp
  have dis': "\<forall>u \<in> set vs. \<not> overlaps u (va_base ?h) (va_length ?h)" using dis h by simp
  obtain us ws where *: "vs = us @ ws" "insert_pos ?h vs = length us"
    by (rule insert_pos_split [OF assms(1) wfh dis'])
  have "vec_insert (insert_pos ?h vs) ?h vs = us @ ?h # ws"
    unfolding *(2) unfolding *(1) by (rule vec_insert_mid)
  moreover have "wf_areas (vec_insert (insert_pos ?h vs) ?h vs)"
    by (rule wf_areas_vec_insert(1) [OF assms(1) wfh dis'])
  ultimately show "moved b e vs (vec_insert (insert_pos ?h vs) ?h vs)"
    using no h assms(3) *(1) by (auto simp: moved_def heaps_to_def rest_areas_def)
qed

lemma moved_refl: "wf_areas vs \<Longrightarrow> heaps_to b e vs \<Longrightarrow> moved b e vs vs"
proof -
  assume a: "wf_areas vs" "heaps_to b e vs"
  have "h = h'" if "h \<in> set vs" "h' \<in> set vs" "va_name h = heap_name" "va_name h' = heap_name" for h h'
  proof -
    from that a(2) have "va_base h = b" "va_base h' = b" by (simp_all add: heaps_to_def)
    moreover have "wf_area h" "wf_area h'" using a(1) that by (simp_all add: wf_areas_mem)
    ultimately have "contains h b" "contains h' b"
      using wf_area_less [of h] wf_area_less [of h'] by (simp_all add: contains_iff lo_def)
    with a(1) that show ?thesis by (blast intro: contains_unique)
  qed
  with a show "moved b e vs vs" by (auto simp: moved_def)
qed

text \<open>The address-space part of \<open>adjust_brk\<close> moves the end of the heap.\<close>

lemma adjust_brk_moved:
  assumes "wf_areas (vs_areas s)" "heap_ok s" "vs_brk_start s \<le> page_align_up nb" "brk_room (page_align_up nb) s"
  shows "\<exists>s'. adjust_brk nb s ps = (page_align_up nb, s', ps,
      if page_align_up nb < vs_brk s then [(vs_cr3 s, page_align_up nb, vs_brk s - page_align_up nb)] else []) \<and>
    vs_brk s' = page_align_up nb \<and> vs_brk_start s' = vs_brk_start s \<and>
    moved (vs_brk_start s) (page_align_up nb) (vs_areas s) (vs_areas s')"
proof -
  let ?b = "vs_brk_start s" let ?e = "page_align_up nb"
  have hp: "heaps_to ?b (vs_brk s) (vs_areas s)" and le: "?b \<le> vs_brk s"
    using assms(2) by (simp_all add: heap_ok_heaps_to)
  have heap: "has_heap (s\<lparr>vs_generation := g\<rparr>) \<longleftrightarrow> ?b < vs_brk s" for g
    using hp by (simp add: heaps_to_def has_heap_def)
  have room: "\<forall>v \<in> set (vs_areas s). va_name v \<noteq> heap_name \<longrightarrow> hi v \<le> unat ?b \<or> unat e \<le> lo v"
    if "e \<le> max ?e (vs_brk s)" for e
  proof (intro ballI impI)
    fix v assume "v \<in> set (vs_areas s)" "va_name v \<noteq> heap_name"
    with assms(4) have "hi v \<le> unat ?b \<or> unat (max ?e (vs_brk s)) \<le> lo v" by (simp add: brk_room_def)
    with that show "hi v \<le> unat ?b \<or> unat e \<le> lo v" by (auto simp: u64_arith)
  qed
  have nlt: "\<not> ?e < ?b" using assms(3) by simp
  consider "?e = vs_brk s" | "vs_brk s < ?e" "?b < vs_brk s" | "vs_brk s < ?e" "vs_brk s = ?b"
    | "?e < vs_brk s" "?e = ?b" | "?e < vs_brk s" "?b < ?e"
    using le assms(3) by fastforce
  then show ?thesis
  proof cases
    case 1
    with nlt moved_refl [OF assms(1) hp] show ?thesis by (simp add: adjust_brk_def)
  next
    case 2
    with nlt heap moved_end [OF assms(1) hp, of ?e] room [of ?e] show ?thesis
      by (auto simp: adjust_brk_def Let_def)
  next
    case 3
    then have "heaps_to ?b ?b (vs_areas s)" "?b < ?e" using hp by simp_all
    note ins = moved_insert [OF assms(1) this room [of ?e]]
    have "(insert_vma (heap_area ?b (?e - ?b)) (s\<lparr>vs_generation := g\<rparr>) ps) =
        (Inr (), s\<lparr>vs_generation := g + 1, vs_areas := vec_insert (insert_pos (heap_area ?b (?e - ?b)) (vs_areas s))
           (heap_area ?b (?e - ?b)) (vs_areas s)\<rparr>, ps)" for g
      using ins(1) by (auto simp: insert_vma_def heap_area_def vma_pin_if_shared_file_def)
    moreover have "?e \<noteq> ?b" using \<open>?b < ?e\<close> by simp
    ultimately show ?thesis using 3 nlt heap ins(2) by (simp add: adjust_brk_def Let_def)
  next
    case 4
    then have "?b < vs_brk s" by simp
    with 4 nlt heap moved_remove [OF assms(1), of ?b] show ?thesis
      by (simp add: adjust_brk_def Let_def less_imp_not_less [of ?b])
  next
    case 5
    then have "?b < vs_brk s" "\<not> vs_brk s < ?e" "?e \<noteq> vs_brk s" "\<not> ?e \<le> ?b" by auto
    with 5 nlt heap moved_end [OF assms(1) hp, of ?e] room [of ?e] show ?thesis
      by (simp add: adjust_brk_def Let_def)
  qed
qed

lemma heap_space_lookup:
  assumes "wf_areas vs" "heaps_to b e vs"
  shows "lookup_areas vs a = (if b \<le> a \<and> a < e then Some (heap_page vs a) else lookup_areas (rest_areas vs) a)"
proof (cases "b < e")
  case True
  then have "\<exists>v \<in> set vs. va_name v = heap_name" using assms(2) by (simp add: heaps_to_def)
  then obtain ys h zs where vs: "vs = ys @ h # zs" "va_name h = heap_name"
    "\<forall>y \<in> set ys. va_name y \<noteq> heap_name"
    by (rule heap_split)
  have "\<forall>v \<in> set vs. va_name v = heap_name \<longrightarrow> va_base v = b" "va_end h = e"
    using assms(2) vs by (simp_all add: heaps_to_def)
  note hl = heap_lookup [OF assms(1) vs this]
  have "heap_page vs a = page_at h a" using vs by (simp add: heap_page_def)
  with hl show ?thesis by simp
next
  case False
  then have "rest_areas vs = vs" using assms(2) by (simp add: heaps_to_def rest_areas_def filter_id_conv)
  moreover have "\<not> (b \<le> a \<and> a < e)" using False by auto
  ultimately show ?thesis by auto
qed

lemma moved_heap_page:
  assumes "moved b e vs vs'" "heaps_to b e0 vs" "b < e" "b < e0"
  shows "heap_page vs' a = heap_page vs a"
proof -
  have "filter (\<lambda>v. va_name v = heap_name) vs \<noteq> []" "filter (\<lambda>v. va_name v = heap_name) vs' \<noteq> []"
    using assms by (auto simp: heaps_to_def moved_def filter_empty_conv)
  then have "hd (filter (\<lambda>v. va_name v = heap_name) vs) \<in> set (filter (\<lambda>v. va_name v = heap_name) vs)"
    "hd (filter (\<lambda>v. va_name v = heap_name) vs') \<in> set (filter (\<lambda>v. va_name v = heap_name) vs')"
    using hd_in_set by blast+
  then show ?thesis using assms(1) by (simp add: moved_def heap_page_def)
qed

text \<open>
  C11: Moving the program break within its room (no other mapping between the heap's start and the
  larger of the two breaks) sets the break to the page-rounded argument, keeps the area list
  sorted and free of overlaps and the heap area in step with the break. A growing break maps
  every address up to it; a shrinking one unmaps every address above it and hands exactly
  that range to the page tables; no other address changes, and neither do the pins.
\<close>

theorem adjust_brk_correct:
  assumes "wf_areas (vs_areas s)" and "heap_ok s" and "vs_brk_start s \<le> page_align_up nb"
    and "brk_room (page_align_up nb) s"
  shows "\<exists>s'. adjust_brk nb s ps = (page_align_up nb, s', ps,
      if page_align_up nb < vs_brk s then [(vs_cr3 s, page_align_up nb, vs_brk s - page_align_up nb)] else []) \<and>
    vs_brk s' = page_align_up nb \<and> wf_areas (vs_areas s') \<and> heap_ok s' \<and>
    (\<forall>a. vs_brk s \<le> a \<and> a < page_align_up nb \<longrightarrow> lookup s' a \<noteq> None) \<and>
    (\<forall>a. page_align_up nb \<le> a \<and> a < vs_brk s \<longrightarrow> lookup s' a = None) \<and>
    (\<forall>a. (a < page_align_up nb \<longleftrightarrow> a < vs_brk s) \<longrightarrow> lookup s' a = lookup s a)"
proof -
  let ?b = "vs_brk_start s" let ?e = "page_align_up nb"
  obtain s' where s': "adjust_brk nb s ps = (?e, s', ps,
      if ?e < vs_brk s then [(vs_cr3 s, ?e, vs_brk s - ?e)] else [])"
    "vs_brk s' = ?e" "vs_brk_start s' = ?b" and mv: "moved ?b ?e (vs_areas s) (vs_areas s')"
    using adjust_brk_moved [OF assms] by blast
  have hp: "heaps_to ?b (vs_brk s) (vs_areas s)" and le: "?b \<le> vs_brk s"
    using assms(2) by (simp_all add: heap_ok_heaps_to)
  have wf': "wf_areas (vs_areas s')" and hp': "heaps_to ?b ?e (vs_areas s')"
    and rest: "rest_areas (vs_areas s') = rest_areas (vs_areas s)"
    using mv by (simp_all add: moved_def)
  have ok: "heap_ok s'" using hp' s' assms(3) by (simp add: heap_ok_heaps_to)
  have out: "lookup_areas (rest_areas (vs_areas s)) a = None" if "?b \<le> a" "a < max ?e (vs_brk s)" for a
    by (rule rest_outside_heap [OF assms(4,1) that])
  let ?R = "lookup_areas (rest_areas (vs_areas s))"
  have L: "lookup s a = (if ?b \<le> a \<and> a < vs_brk s then Some (heap_page (vs_areas s) a) else ?R a)" for a
    using heap_space_lookup [OF assms(1) hp] by (simp add: lookup_lookup_areas)
  have L': "lookup s' a = (if ?b \<le> a \<and> a < ?e then Some (heap_page (vs_areas s') a) else ?R a)" for a
    using heap_space_lookup [OF wf' hp'] by (simp add: lookup_lookup_areas rest)
  have "lookup s' a \<noteq> None" if "vs_brk s \<le> a" "a < ?e" for a
    using L' [of a] that order_trans [OF le that(1)] by simp
  moreover have "lookup s' a = None" if "?e \<le> a" "a < vs_brk s" for a
    using L' [of a] out [of a] that order_trans [OF assms(3) that(1)] by (simp add: less_max_iff_disj)
  moreover have "lookup s' a = lookup s a" if "a < ?e \<longleftrightarrow> a < vs_brk s" for a
  proof (cases "?b \<le> a \<and> a < ?e")
    case True
    then have "heap_page (vs_areas s') a = heap_page (vs_areas s) a"
      using that by (intro moved_heap_page [OF mv hp]) auto
    with True that L L' show ?thesis by simp
  next
    case False
    with that have "\<not> (?b \<le> a \<and> a < vs_brk s)" by simp
    then have "lookup s a = ?R a" using L by (simp only: if_False)
    moreover have "lookup s' a = ?R a" using L' False by (simp only: if_False)
    ultimately show ?thesis by simp
  qed
  ultimately show ?thesis using s' wf' ok by blast
qed

lemma demo_brk_ok: "wf_areas (vs_areas demo_brk)" "heap_ok demo_brk"
proof -
  show "wf_areas (vs_areas demo_brk)"
    by (simp add: demo_brk_def heap_area_def wf_areas_def before_def wf_area_def lo_def hi_def)
  have "va_flags (heap_area 0x4000000000 0x3000) AND MAP_SHARED = 0" by code_simp
  then show "heap_ok demo_brk"
    by (simp add: demo_brk_def heap_ok_def has_heap_def va_end_def) (simp add: heap_area_def)
qed

lemma page_align_up_demo: "page_align_up 0x4000005800 = 0x4000006000" "page_align_up 0x4000010800 = 0x4000011000"
  by code_simp+

theorem adjust_brk_correct_witness:
  "heap_ok demo_brk \<and> brk_room 0x4000006000 demo_brk \<and>
   (\<exists>s'. adjust_brk 0x4000005800 demo_brk demo_pins = (0x4000006000, s', demo_pins, []) \<and>
     lookup s' 0x4000005000 \<noteq> None)"
proof -
  have r: "brk_room 0x4000006000 demo_brk"
    by (simp add: brk_room_def demo_brk_def) (simp add: heap_area_def lo_def)
  have "vs_brk_start demo_brk \<le> page_align_up 0x4000005800" "vs_brk demo_brk = 0x4000003000"
    by (simp_all add: demo_brk_def page_align_up_demo)
  with adjust_brk_correct [of demo_brk "0x4000005800" demo_pins] demo_brk_ok r show ?thesis
    unfolding page_align_up_demo by fastforce
qed

text \<open>
  Nothing stops a growing break at the next mapping: when the page-rounded new break lies
  beyond the base of a mapping above the heap, the heap area is stretched over that mapping
  and the area list is no longer free of overlaps.
\<close>

theorem adjust_brk_overlaps_mapping:
  assumes "wf_areas (vs_areas s)" and "heap_ok s" and "vs_brk_start s < vs_brk s"
    and "u \<in> set (vs_areas s)" and "va_name u \<noteq> heap_name"
    and "vs_brk s \<le> va_base u" and "va_base u < page_align_up nb"
  shows "fst (adjust_brk nb s ps) = page_align_up nb \<and>
    \<not> wf_areas (vs_areas (fst (snd (adjust_brk nb s ps))))"
proof -
  let ?e = "page_align_up nb"
  have "has_heap (s\<lparr>vs_generation := g\<rparr>)" for g using assms(2,3) by (simp add: heap_ok_def has_heap_def)
  moreover have "vs_brk s < ?e" using assms(6,7) by simp
  moreover have "\<not> ?e < vs_brk_start s" using assms(3) \<open>vs_brk s < ?e\<close> by simp
  ultimately have res: "adjust_brk nb s ps = (?e, s\<lparr>vs_generation := vs_generation s + 1,
      vs_areas := set_heap_end ?e (vs_areas s), vs_brk := ?e\<rparr>, ps, [])"
    by (simp add: adjust_brk_def Let_def)
  have "\<exists>v \<in> set (vs_areas s). va_name v = heap_name" using assms(2,3) by (simp add: heap_ok_def has_heap_def)
  then obtain ys h zs where vs: "vs_areas s = ys @ h # zs" "va_name h = heap_name"
    "\<forall>y \<in> set ys. va_name y \<noteq> heap_name"
    by (rule heap_split)
  let ?h = "h\<lparr>va_length := ?e - va_base h\<rparr>"
  have base: "va_base h = vs_brk_start s" using assms(2) vs by (simp add: heap_ok_def)
  have "\<not> wf_areas (ys @ ?h # zs)"
  proof
    assume wf: "wf_areas (ys @ ?h # zs)"
    have u: "u \<in> set (ys @ ?h # zs)" "wf_area u"
      using assms(1,4,5) vs by (auto simp: wf_areas_mem)
    have "contains u (va_base u)" using u(2) wf_area_less [of u] by (simp add: contains_iff lo_def)
    moreover have "contains ?h (va_base u)"
      using assms(3,6,7) base by (simp add: contains_def va_end_def)
    ultimately have "u = ?h" using contains_unique [OF wf u(1)] by simp
    with vs(2) assms(5) show False by simp
  qed
  with res vs show ?thesis by (simp add: set_heap_end_mid)
qed

theorem adjust_brk_overlaps_mapping_witness:
  "wf_areas (vs_areas demo_brk) \<and> heap_ok demo_brk \<and>
   \<not> wf_areas (vs_areas (fst (snd (adjust_brk 0x4000010800 demo_brk demo_pins))))"
proof -
  let ?u = "\<lparr>va_base = 0x4000010000, va_length = 0x1000, va_prot = PROT_READ, va_flags = MAP_PRIVATE,
        va_backing = Anonymous, va_name = ''[mmap]''\<rparr>"
  have "?u \<in> set (vs_areas demo_brk)" "vs_brk demo_brk = 0x4000003000" "vs_brk_start demo_brk = 0x4000000000"
    by (simp_all add: demo_brk_def)
  with adjust_brk_overlaps_mapping [OF demo_brk_ok, of ?u "0x4000010800" demo_pins] demo_brk_ok
  show ?thesis by (simp add: page_align_up_demo)
qed

text \<open>
  A first call of \<open>brk\<close> whose range is occupied still reports success: the failed insertion of
  the heap area is dropped, the areas are unchanged, and the break moves to the requested
  value over addresses that are not part of any heap area.
\<close>

theorem adjust_brk_ignores_insert_failure:
  assumes "\<not> has_heap s" and "vs_brk_start s \<le> page_align_up nb" and "vs_brk s < page_align_up nb"
    and "\<exists>u \<in> set (vs_areas s). overlaps u (vs_brk_start s) (page_align_up nb - vs_brk_start s)"
  shows "fst (adjust_brk nb s ps) = page_align_up nb \<and>
    vs_brk (fst (snd (adjust_brk nb s ps))) = page_align_up nb \<and>
    vs_areas (fst (snd (adjust_brk nb s ps))) = vs_areas s"
proof -
  have "\<not> has_heap (s\<lparr>vs_generation := g\<rparr>)" for g using assms(1) by (simp add: has_heap_def)
  moreover have "\<not> page_align_up nb < vs_brk_start s" "page_align_up nb \<noteq> vs_brk s" using assms(2,3) by auto
  moreover have "insert_vma (heap_area (vs_brk_start s) (page_align_up nb - vs_brk_start s))
      (s\<lparr>vs_generation := g\<rparr>) ps = (Inl Overlap, s\<lparr>vs_generation := g\<rparr>, ps)" for g
    using assms(4) by (simp add: insert_vma_def heap_area_def)
  ultimately show ?thesis using assms(3) by (simp add: adjust_brk_def Let_def)
qed

theorem adjust_brk_ignores_insert_failure_witness:
  "vs_areas (fst (snd (adjust_brk 0x4000005800 (demo_space\<lparr>vs_areas := [demo_anon\<lparr>va_base := 0x4000000000\<rparr>]\<rparr>) demo_pins))) =
     [demo_anon\<lparr>va_base := 0x4000000000\<rparr>] \<and>
   fst (adjust_brk 0x4000005800 (demo_space\<lparr>vs_areas := [demo_anon\<lparr>va_base := 0x4000000000\<rparr>]\<rparr>) demo_pins) = 0x4000006000"
proof -
  let ?s = "demo_space\<lparr>vs_areas := [demo_anon\<lparr>va_base := 0x4000000000\<rparr>]\<rparr>"
  have "\<not> has_heap ?s" by (simp add: has_heap_def demo_anon_def)
  moreover have "vs_brk_start ?s = 0x4000000000" "vs_brk ?s = 0x4000000000" by (simp_all add: demo_space_def)
  moreover have "overlaps (demo_anon\<lparr>va_base := 0x4000000000\<rparr>) 0x4000000000 0x6000"
    by (simp add: overlaps_def va_end_def demo_anon_def)
  ultimately show ?thesis
    using adjust_brk_ignores_insert_failure [of ?s "0x4000005800" demo_pins] by (simp add: page_align_up_demo)
qed

end
