(* ===== verification/Page_Refcount.thy ===== *)
theory Page_Refcount
  imports Rust_Prelude
begin

text \<open>
  The reference counts of physical frames (\<open>mm/refcount.rs\<close>): a table of \<open>u16\<close> slots that
  exists only after \<open>init\<close> (using it earlier panics in the updating operations and reads as
  zero in the others). The sequential operations are functions on the table. The
  compare-and-swap loop of \<open>page_ref_dec\<close> is in addition a step relation in which any
  number of CPUs increment and decrement one slot in any interleaving.
\<close>

section \<open>The table\<close>

abbreviation MAX_PAGES :: nat where "MAX_PAGES \<equiv> 1024 * 1024"
abbreviation RESERVED_LOW_END :: u64 where "RESERVED_LOW_END \<equiv> 0x100000"

type_synonym rc_table = "u16 list option"

definition refcount_init :: "rc_table \<Rightarrow> rc_table" where
  "refcount_init t = (case t of None \<Rightarrow> Some (replicate MAX_PAGES 0) | Some _ \<Rightarrow> t)"

definition pfn :: "u64 \<Rightarrow> nat" where
  "pfn phys_addr = unat (phys_addr div 4096)"

definition is_refcountable_frame :: "u64 \<Rightarrow> bool" where
  "is_refcountable_frame phys_addr \<longleftrightarrow> RESERVED_LOW_END \<le> phys_addr \<and> pfn phys_addr < MAX_PAGES"

text \<open>\<open>None\<close> is the panic of \<open>refcounts()\<close> before \<open>init\<close>.\<close>

definition page_ref_inc :: "u64 \<Rightarrow> rc_table \<Rightarrow> rc_table option" where
  "page_ref_inc phys_addr t =
     (case t of
        None \<Rightarrow> None
      | Some rc \<Rightarrow>
          (let idx = pfn phys_addr
           in Some (Some (if idx < length rc then rc[idx := rc ! idx + 1] else rc))))"

definition page_ref_dec :: "u64 \<Rightarrow> rc_table \<Rightarrow> (u16 \<times> rc_table) option" where
  "page_ref_dec phys_addr t =
     (case t of
        None \<Rightarrow> None
      | Some rc \<Rightarrow>
          (let idx = pfn phys_addr
           in if length rc \<le> idx then Some (0, t)
              else
                (let cur = rc ! idx
                 in if cur = 0 then Some (0, t)
                    else Some (cur - 1, Some (rc[idx := cur - 1])))))"

definition page_ref_count :: "u64 \<Rightarrow> rc_table \<Rightarrow> u16" where
  "page_ref_count phys_addr t =
     (case t of
        None \<Rightarrow> 0
      | Some rc \<Rightarrow> (let idx = pfn phys_addr in if idx < length rc then rc ! idx else 0))"

definition pte_share_count :: "u64 \<Rightarrow> rc_table \<Rightarrow> u16" where
  "pte_share_count phys_addr t = page_ref_count phys_addr t"

definition page_ref_set :: "u64 \<Rightarrow> u16 \<Rightarrow> rc_table \<Rightarrow> rc_table" where
  "page_ref_set phys_addr count t =
     (case t of
        None \<Rightarrow> None
      | Some rc \<Rightarrow>
          (let idx = pfn phys_addr in Some (if idx < length rc then rc[idx := count] else rc)))"

section \<open>Interleaved access to one slot\<close>

text \<open>
  \<open>Retry cur\<close>: the CPU is in the loop of \<open>page_ref_dec\<close> and last saw the value \<open>cur\<close>. The
  ghost fields count the increments and the decrements that took effect, and the CPUs whose
  decrement was refused at zero.
\<close>

datatype dec_pc = Outside | Retry u16

record slot_state =
  slot_val :: u16
  dec_at :: "nat \<Rightarrow> dec_pc"
  g_incs :: nat
  g_decs :: nat
  g_refused :: nat

inductive slot_step :: "slot_state \<Rightarrow> slot_state \<Rightarrow> bool" where
  inc: "slot_step s (s\<lparr>slot_val := slot_val s + 1, g_incs := g_incs s + 1\<rparr>)"
| dec_load: "dec_at s c = Outside \<Longrightarrow>
    slot_step s (s\<lparr>dec_at := (dec_at s)(c := Retry (slot_val s))\<rparr>)"
| dec_zero: "dec_at s c = Retry 0 \<Longrightarrow>
    slot_step s (s\<lparr>dec_at := (dec_at s)(c := Outside), g_refused := g_refused s + 1\<rparr>)"
| dec_ok: "dec_at s c = Retry cur \<Longrightarrow> cur \<noteq> 0 \<Longrightarrow> slot_val s = cur \<Longrightarrow>
    slot_step s (s\<lparr>slot_val := cur - 1, dec_at := (dec_at s)(c := Outside), g_decs := g_decs s + 1\<rparr>)"
| dec_fail: "dec_at s c = Retry cur \<Longrightarrow> cur \<noteq> 0 \<Longrightarrow>
    slot_step s (s\<lparr>dec_at := (dec_at s)(c := Retry (slot_val s))\<rparr>)"

inductive_cases slot_stepE: "slot_step s s'"

text \<open>
  \<open>dec_run c s k m p t\<close>: a run from \<open>s\<close> to \<open>t\<close> during which CPU \<open>c\<close> stays in the loop, makes \<open>k\<close> exchanges that
  fail, \<open>p\<close> of them although the slot held the value it had last seen (which \<open>compare_exchange_weak\<close>
  allows), while the other CPUs change the value of the slot \<open>m\<close> times.
\<close>

inductive dec_run :: "nat \<Rightarrow> slot_state \<Rightarrow> nat \<Rightarrow> nat \<Rightarrow> nat \<Rightarrow> slot_state \<Rightarrow> bool" for c s where
  enter: "dec_at s c = Retry cur \<Longrightarrow> dec_run c s 0 0 0 s"
| retry: "dec_run c s k m p t \<Longrightarrow> dec_at t c = Retry cur \<Longrightarrow> cur \<noteq> 0 \<Longrightarrow>
    dec_run c s (k + 1) m (if slot_val t = cur then p + 1 else p) (t\<lparr>dec_at := (dec_at t)(c := Retry (slot_val t))\<rparr>)"
| others: "dec_run c s k m p t \<Longrightarrow> slot_step t u \<Longrightarrow> dec_at u c = dec_at t c \<Longrightarrow>
    dec_run c s k (if slot_val u = slot_val t then m else m + 1) p u"

definition balanced :: "u16 \<Rightarrow> slot_state \<Rightarrow> bool" where
  "balanced v0 s \<longleftrightarrow> unat (slot_val s) + g_decs s = unat v0 + g_incs s"

definition demo_slot :: slot_state where
  "demo_slot = \<lparr>slot_val = 1, dec_at = (\<lambda>_. Outside), g_incs = 0, g_decs = 0, g_refused = 0\<rparr>"

section \<open>Lemmas\<close>

lemma g_incs_mono: "slot_step s s' \<Longrightarrow> g_incs s \<le> g_incs s'"
  by (auto elim: slot_stepE)

lemma slot_step_balanced:
  assumes "slot_step s s'" "balanced v0 s" "unat v0 + g_incs s' < 2 ^ 16"
  shows "balanced v0 s'"
  using assms(1)
proof cases
  case inc
  then have "unat (slot_val s) + 1 < 2 ^ 16" using assms(2,3) by (simp add: balanced_def)
  then have "unat (slot_val s + 1) = unat (slot_val s) + 1" by (subst unat_add_lem [THEN iffD1]) simp_all
  with assms(2) inc show ?thesis by (simp add: balanced_def)
next
  case (dec_ok c cur)
  then have "unat (cur - 1) = unat cur - 1" "0 < unat cur" by (auto simp: unat_minus_one unat_gt_0)
  with assms(2) dec_ok show ?thesis by (simp add: balanced_def)
qed (use assms(2) in \<open>auto simp: balanced_def\<close>)

text \<open>
  C6: No interleaving of CPUs loses a reference: as long as the number of references ever taken
  fits the 16-bit slot, the slot holds the initial count plus the increments minus the
  decrements that took effect, at every point of every execution.
\<close>

theorem page_ref_no_lost_update:
  assumes "slot_step\<^sup>*\<^sup>* s s'" and "balanced v0 s" and "unat v0 + g_incs s' < 2 ^ 16"
  shows "unat (slot_val s') + g_decs s' = unat v0 + g_incs s'"
proof -
  have "balanced v0 s'"
    using assms(1,3)
  proof (induction rule: rtranclp_induct)
    case base
    then show ?case using assms(2) by simp
  next
    case (step y z)
    then have "g_incs y \<le> g_incs z" by (blast intro: g_incs_mono)
    with step have "balanced v0 y" by simp
    with step show ?case by (blast intro: slot_step_balanced)
  qed
  then show ?thesis by (simp add: balanced_def)
qed

theorem page_ref_no_lost_update_witness:
  "\<exists>s'. slot_step\<^sup>*\<^sup>* demo_slot s' \<and> g_incs s' = 1 \<and> g_decs s' = 1 \<and> slot_val s' = 1"
proof -
  let ?s1 = "demo_slot\<lparr>dec_at := (dec_at demo_slot)(0 := Retry (slot_val demo_slot))\<rparr>"
  let ?s2 = "?s1\<lparr>slot_val := slot_val ?s1 + 1, g_incs := g_incs ?s1 + 1\<rparr>"
  let ?s3 = "?s2\<lparr>dec_at := (dec_at ?s2)(0 := Retry (slot_val ?s2))\<rparr>"
  let ?s4 = "?s3\<lparr>slot_val := 2 - 1, dec_at := (dec_at ?s3)(0 := Outside), g_decs := g_decs ?s3 + 1\<rparr>"
  have "slot_step demo_slot ?s1" by (rule dec_load) (simp add: demo_slot_def)
  moreover have "slot_step ?s1 ?s2" by (rule inc)
  moreover have "slot_step ?s2 ?s3" by (rule dec_fail [of _ _ 1]) (simp_all add: demo_slot_def)
  moreover have "slot_step ?s3 ?s4" by (rule dec_ok) (simp_all add: demo_slot_def)
  ultimately have run: "slot_step\<^sup>*\<^sup>* demo_slot ?s4"
    by (meson converse_rtranclp_into_rtranclp rtranclp.rtrancl_refl)
  have "balanced 1 demo_slot" by (simp add: balanced_def demo_slot_def)
  from page_ref_no_lost_update [OF run this] have "unat (slot_val ?s4) = 1" by (simp add: demo_slot_def)
  with run show ?thesis by (intro exI [of _ ?s4]) (simp add: demo_slot_def)
qed

lemma dec_run_bound:
  "dec_run c s k m p t \<Longrightarrow> slot_step\<^sup>*\<^sup>* s t \<and>
     (\<exists>cur. dec_at t c = Retry cur \<and> k \<le> m + p + (if slot_val t = cur then 1 else 0))"
proof (induction rule: dec_run.induct)
  case (retry k m p t cur)
  have st: "slot_step t (t\<lparr>dec_at := (dec_at t)(c := Retry (slot_val t))\<rparr>)" using retry(2,3) by (rule dec_fail)
  have "slot_step\<^sup>*\<^sup>* s t" and "k \<le> m + p + (if slot_val t = cur then 1 else 0)" using retry(2,4) by simp_all
  then show ?case using rtranclp.rtrancl_into_rtrancl [of slot_step s t, OF _ st] by (simp split: if_splits)
next
  case (others k m p t u)
  then obtain cur where "slot_step\<^sup>*\<^sup>* s t" "dec_at u c = Retry cur" "k \<le> m + p + (if slot_val t = cur then 1 else 0)" by auto
  then show ?case using rtranclp.rtrancl_into_rtrancl [of slot_step s t, OF _ others(2)] by (simp split: if_splits)
qed simp

lemma dec_leaves:
  assumes "dec_at t c = Retry cur" and "cur = 0 \<or> slot_val t = cur"
  shows "\<exists>u. slot_step t u \<and> dec_at u c = Outside"
proof (cases "cur = 0")
  case True
  then have "dec_at t c = Retry 0" using assms(1) by simp
  from dec_zero [OF this] show ?thesis by (rule exI [where x = "t\<lparr>dec_at := _, g_refused := _\<rparr>", OF conjI]) simp
next
  case False
  then have "slot_val t = cur" using assms(2) by simp
  from dec_ok [OF assms(1) False this] show ?thesis by (rule exI [where x = "t\<lparr>slot_val := _, dec_at := _, g_decs := _\<rparr>", OF conjI]) simp
qed

text \<open>
  C14: The retry loop of \<open>page_ref_dec\<close> is paid for by the others. In every interleaving, as long as a CPU
  has not left the loop, its failed exchanges number at most one more than the changes that other CPUs
  made to the slot since it entered, plus the exchanges that failed spuriously; and after as many as that,
  the value it last saw is the one in the slot, or it has seen zero, so that its next step, unless that
  one fails spuriously, leaves the loop. It therefore ends once the other CPUs leave the slot alone.
\<close>

theorem page_ref_dec_terminates:
  assumes "dec_run c s k m p t"
  shows "slot_step\<^sup>*\<^sup>* s t \<and> k \<le> m + p + 1 \<and>
    (k = m + p + 1 \<longrightarrow> dec_at t c = Retry (slot_val t) \<and> (\<exists>u. slot_step t u \<and> dec_at u c = Outside))"
proof -
  obtain cur where cur: "dec_at t c = Retry cur" "k \<le> m + p + (if slot_val t = cur then 1 else 0)"
    using dec_run_bound [OF assms] by blast
  then have "k = m + p + 1 \<Longrightarrow> slot_val t = cur" by (auto split: if_splits)
  moreover have "slot_step\<^sup>*\<^sup>* s t" using dec_run_bound [OF assms] by simp
  moreover have "k \<le> m + p + 1" using cur(2) by (simp split: if_splits)
  ultimately show ?thesis using cur(1) dec_leaves [OF cur(1)] by simp
qed

theorem page_ref_dec_terminates_witness:
  "\<exists>t. dec_run 0 (demo_slot\<lparr>dec_at := (\<lambda>_. Retry 5)\<rparr>) 1 0 0 t \<and> (\<exists>u. slot_step t u \<and> dec_at u 0 = Outside)"
proof -
  let ?s = "demo_slot\<lparr>dec_at := (\<lambda>_. Retry 5)\<rparr>"
  let ?t = "?s\<lparr>dec_at := (dec_at ?s)(0 := Retry (slot_val ?s))\<rparr>"
  have "dec_run 0 ?s 0 0 0 ?s" by (rule enter [of _ _ 5]) simp
  from retry [OF this, of 5] have run: "dec_run 0 ?s 1 0 0 ?t" by (simp add: demo_slot_def)
  have "\<exists>u. slot_step ?t u \<and> dec_at u 0 = Outside" using page_ref_dec_terminates [OF run] by simp
  with run show ?thesis by blast
qed

lemma unat_inc_u16: "c \<noteq> - 1 \<Longrightarrow> unat (c + 1) = unat c + 1" for c :: u16
  by (metis add.commute add_0 eq_neg_iff_add_eq_0 unatSuc Suc_eq_plus1)

text \<open>
  On a tracked frame the operations count references: after an increment the count is one
  higher, a decrement of a non-zero count returns and stores one less, other frames are
  untouched, and taking and dropping a reference restores the table. A decrement at zero is
  refused and changes nothing.
\<close>

theorem page_ref_counts:
  assumes "pfn p < length rc" and "rc ! pfn p \<noteq> - 1"
  shows "\<exists>t. page_ref_inc p (Some rc) = Some t \<and>
    unat (page_ref_count p t) = unat (page_ref_count p (Some rc)) + 1 \<and>
    (\<forall>q. pfn q \<noteq> pfn p \<longrightarrow> page_ref_count q t = page_ref_count q (Some rc)) \<and>
    page_ref_dec p t = Some (page_ref_count p (Some rc), Some rc) \<and>
    (page_ref_count p (Some rc) = 0 \<longrightarrow> page_ref_dec p (Some rc) = Some (0, Some rc))"
proof -
  let ?t = "Some (rc[pfn p := rc ! pfn p + 1])"
  have u: "unat (rc ! pfn p + 1) = unat (rc ! pfn p) + 1" by (rule unat_inc_u16 [OF assms(2)])
  then have "rc ! pfn p + 1 \<noteq> 0" by (metis add_is_0 one_neq_zero unat_0)
  with assms(1) u show ?thesis
    by (intro exI [of _ ?t])
      (simp add: page_ref_inc_def page_ref_dec_def page_ref_count_def Let_def)
qed

theorem page_ref_counts_witness:
  "\<exists>t. page_ref_inc 0x2000 (Some [0, 0, 4, 1]) = Some t \<and> page_ref_dec 0x2000 t = Some (4, Some [0, 0, 4, 1])"
proof -
  have i: "pfn 0x2000 = 2" by code_simp
  have "pfn 0x2000 < length [0, 0, 4, 1 :: u16]" "[0, 0, 4, 1 :: u16] ! pfn 0x2000 \<noteq> - 1"
    by (simp_all add: i)
  from page_ref_counts [OF this] show ?thesis by (auto simp: page_ref_count_def i)
qed

text \<open>
  C16: The increment does not saturate: with 65535 references outstanding, one more wraps the count
  to zero. The frame then reads as unreferenced, and the next decrement reports zero to a
  caller that frees the frame.
\<close>

theorem page_ref_inc_wraps_to_zero:
  assumes "pfn p < length rc" and "rc ! pfn p = - 1"
  shows "\<exists>t. page_ref_inc p (Some rc) = Some t \<and> page_ref_count p t = 0 \<and> page_ref_dec p t = Some (0, t)"
  using assms
  by (intro exI [of _ "Some (rc[pfn p := rc ! pfn p + 1])"])
    (simp add: page_ref_inc_def page_ref_dec_def page_ref_count_def Let_def)

theorem page_ref_inc_wraps_to_zero_witness:
  "\<exists>t. page_ref_inc 0x1000 (Some [0, 0xFFFF]) = Some t \<and> page_ref_count 0x1000 t = 0"
proof -
  have i: "pfn 0x1000 = 1" by code_simp
  have "pfn 0x1000 < length [0, 0xFFFF :: u16]" "[0, 0xFFFF :: u16] ! pfn 0x1000 = - 1"
    by (simp_all add: i)
  from page_ref_inc_wraps_to_zero [OF this] show ?thesis by blast
qed

end
