(* ===== verification/Pipe_Ring.thy ===== *)
theory Pipe_Ring
  imports Rust_Prelude
begin

text \<open>
  One pipe of \<open>ipc/pipe.rs\<close>: the struct \<open>Pipe\<close> with its ring buffer. Buffer indices and
  lengths are natural numbers; the capacity never exceeds one MiB, so the machine's
  \<open>usize\<close> arithmetic on them does not wrap. The contract of the ring is the locale
  \<open>byte_channel\<close>: a bounded first-in first-out channel. Its lemma on arbitrary sequences of
  operations says that no byte is lost, duplicated or reordered.
\<close>

section \<open>State and operations\<close>

abbreviation PIPE_BUF_SIZE :: nat where "PIPE_BUF_SIZE \<equiv> 4096"
abbreviation PIPE_BUF :: nat where "PIPE_BUF \<equiv> PIPE_BUF_SIZE"
abbreviation PIPE_DEFAULT_CAPACITY :: nat where "PIPE_DEFAULT_CAPACITY \<equiv> 65536"
abbreviation PIPE_MAX_CAPACITY :: nat where "PIPE_MAX_CAPACITY \<equiv> 1048576"

record pipe =
  p_id :: u64
  p_buffer :: "u8 list"
  p_read_pos :: nat
  p_write_pos :: nat
  p_count :: nat
  p_writers :: u32
  p_readers :: u32
  p_closed :: bool

definition pipe_new :: "u64 \<Rightarrow> pipe" where
  "pipe_new i = \<lparr>p_id = i, p_buffer = replicate PIPE_DEFAULT_CAPACITY 0, p_read_pos = 0,
     p_write_pos = 0, p_count = 0, p_writers = 1, p_readers = 1, p_closed = False\<rparr>"

text \<open>
  The doubling loop of \<open>set_capacity\<close>, started at \<open>PIPE_BUF_SIZE\<close>: the state of the loop is the
  number \<open>k\<close> of doublings so far. \<open>None\<close> is the return with \<open>EPERM\<close>.
\<close>

function round_loop :: "nat \<Rightarrow> nat \<Rightarrow> nat option" where
  "round_loop k want =
     (if PIPE_BUF_SIZE * 2 ^ k < want
      then if PIPE_MAX_CAPACITY < PIPE_BUF_SIZE * 2 ^ Suc k then None else round_loop (Suc k) want
      else Some (PIPE_BUF_SIZE * 2 ^ k))"
  by pat_completeness auto

termination
proof (relation "measure (\<lambda>(k, want). want - PIPE_BUF_SIZE * 2 ^ k)", goal_cases)
  case (2 k want)
  then show ?case by (simp add: diff_less_mono2)
qed simp

declare round_loop.simps [simp del]

definition round_capacity :: "nat \<Rightarrow> nat option" where
  "round_capacity want = round_loop 0 want"

text \<open>The copy loop of \<open>set_capacity\<close>: \<open>n\<close> bytes of the old ring from \<open>pos\<close> on.\<close>

definition linearize :: "u8 list \<Rightarrow> nat \<Rightarrow> nat \<Rightarrow> u8 list" where
  "linearize buf pos n = map (\<lambda>i. buf ! ((pos + i) mod length buf)) [0..<n]"

fun read_loop :: "nat \<Rightarrow> u8 list \<Rightarrow> nat \<Rightarrow> u8 list \<times> nat" where
  "read_loop 0 buf pos = ([], pos)"
| "read_loop (Suc n) buf pos =
     (let (rest, pos') = read_loop n buf ((pos + 1) mod length buf) in (buf ! pos # rest, pos'))"

fun write_loop :: "u8 list \<Rightarrow> u8 list \<Rightarrow> nat \<Rightarrow> u8 list \<times> nat" where
  "write_loop [] buf pos = (buf, pos)"
| "write_loop (d # ds) buf pos = write_loop ds (buf[pos := d]) ((pos + 1) mod length buf)"

text \<open>\<open>read\<close> into a buffer of \<open>n\<close> bytes: the bytes read and the pipe.\<close>

definition ring_read :: "nat \<Rightarrow> pipe \<Rightarrow> u8 list \<times> pipe" where
  "ring_read n p =
     (let to_read = min n (p_count p);
          (out, pos) = read_loop to_read (p_buffer p) (p_read_pos p)
      in (out, p\<lparr>p_read_pos := pos, p_count := p_count p - to_read\<rparr>))"

definition ring_write :: "u8 list \<Rightarrow> pipe \<Rightarrow> nat \<times> pipe" where
  "ring_write data p =
     (let cap = length (p_buffer p);
          space = cap - p_count p;
          to_write = min (length data) space;
          (buf, pos) = write_loop (take to_write data) (p_buffer p) (p_write_pos p)
      in (to_write, p\<lparr>p_buffer := buf, p_write_pos := pos, p_count := p_count p + to_write\<rparr>))"

definition has_data :: "pipe \<Rightarrow> bool" where
  "has_data p \<longleftrightarrow> 0 < p_count p"

definition is_eof :: "pipe \<Rightarrow> bool" where
  "is_eof p \<longleftrightarrow> p_writers p = 0 \<and> p_count p = 0"

definition writer_closed :: "pipe \<Rightarrow> bool" where
  "writer_closed p \<longleftrightarrow> p_writers p = 0"

definition reader_closed :: "pipe \<Rightarrow> bool" where
  "reader_closed p \<longleftrightarrow> p_readers p = 0"

definition available :: "pipe \<Rightarrow> nat" where
  "available p = p_count p"

definition space :: "pipe \<Rightarrow> nat" where
  "space p = length (p_buffer p) - p_count p"

definition capacity :: "pipe \<Rightarrow> nat" where
  "capacity p = length (p_buffer p)"

datatype pipe_errno = EPERM | EBUSY | EBADF

definition set_capacity :: "nat \<Rightarrow> pipe \<Rightarrow> (pipe_errno + nat) \<times> pipe" where
  "set_capacity want p =
     (case round_capacity want of
        None \<Rightarrow> (Inl EPERM, p)
      | Some cap \<Rightarrow>
          if cap < p_count p then (Inl EBUSY, p)
          else
            (let nb = linearize (p_buffer p) (p_read_pos p) (p_count p) @ replicate (cap - p_count p) 0
             in (Inr cap, p\<lparr>p_buffer := nb, p_read_pos := 0, p_write_pos := p_count p mod cap\<rparr>)))"

section \<open>Invariant and abstraction\<close>

definition pipe_ok :: "pipe \<Rightarrow> bool" where
  "pipe_ok p \<longleftrightarrow> (\<exists>k\<le>8. length (p_buffer p) = PIPE_BUF_SIZE * 2 ^ k) \<and>
     p_read_pos p < length (p_buffer p) \<and> p_count p \<le> length (p_buffer p) \<and>
     p_write_pos p = (p_read_pos p + p_count p) mod length (p_buffer p)"

text \<open>The unread bytes, oldest first.\<close>

definition contents :: "pipe \<Rightarrow> u8 list" where
  "contents p = linearize (p_buffer p) (p_read_pos p) (p_count p)"

section \<open>The contract of a byte channel\<close>

datatype chan_op = Put "u8 list" | Get nat

text \<open>Running a sequence of operations: the bytes accepted, the bytes delivered, the channel.\<close>

fun chan_run :: "(nat \<Rightarrow> 'c \<Rightarrow> u8 list \<times> 'c) \<Rightarrow> (u8 list \<Rightarrow> 'c \<Rightarrow> nat \<times> 'c) \<Rightarrow>
    chan_op list \<Rightarrow> 'c \<Rightarrow> u8 list \<times> u8 list \<times> 'c" where
  "chan_run get put [] c = ([], [], c)"
| "chan_run get put (Put d # ops) c =
     (case put d c of (n, c') \<Rightarrow> case chan_run get put ops c' of (acc, out, c'') \<Rightarrow> (take n d @ acc, out, c''))"
| "chan_run get put (Get n # ops) c =
     (case get n c of (bs, c') \<Rightarrow> case chan_run get put ops c' of (acc, out, c'') \<Rightarrow> (acc, bs @ out, c''))"

text \<open>The abstract channel: a queue of at most \<open>lim\<close> bytes.\<close>

definition q_get :: "nat \<Rightarrow> u8 list \<Rightarrow> u8 list \<times> u8 list" where
  "q_get n q = (take n q, drop n q)"

definition q_put :: "nat \<Rightarrow> u8 list \<Rightarrow> u8 list \<Rightarrow> nat \<times> u8 list" where
  "q_put lim d q = (min (length d) (lim - length q), q @ take (lim - length q) d)"

section \<open>The loops over the ring\<close>

lemma length_linearize [simp]: "length (linearize buf pos n) = n"
  by (simp add: linearize_def)

lemma linearize_0 [simp]: "linearize buf pos 0 = []"
  by (simp add: linearize_def)

lemma linearize_Suc:
  "linearize buf pos (Suc n) = buf ! (pos mod length buf) # linearize buf (Suc pos mod length buf) n"
  by (simp add: linearize_def upt_conv_Cons map_Suc_upt [symmetric] del: upt_Suc)
    (metis add_Suc mod_add_left_eq)

lemma linearize_take: "m \<le> n \<Longrightarrow> take m (linearize buf pos n) = linearize buf pos m"
  by (simp add: linearize_def take_map)

lemma linearize_drop:
  "m \<le> n \<Longrightarrow> drop m (linearize buf pos n) = linearize buf ((pos + m) mod length buf) (n - m)"
  by (rule nth_equalityI) (auto simp: linearize_def mod_add_left_eq add.assoc)

lemma linearize_append:
  "linearize buf pos (m + n) = linearize buf pos m @ linearize buf ((pos + m) mod length buf) n"
  by (rule nth_equalityI) (auto simp: linearize_def nth_append mod_add_left_eq)

lemma read_loop_eq:
  "pos < length buf \<Longrightarrow> read_loop n buf pos = (linearize buf pos n, (pos + n) mod length buf)"
proof (induction n arbitrary: pos)
  case 0
  then show ?case by (simp add: linearize_def)
next
  case (Suc n)
  have "Suc pos mod length buf < length buf" using Suc.prems by (intro mod_less_divisor) linarith
  from Suc.IH [OF this] Suc.prems show ?case
    by (simp add: linearize_Suc mod_add_left_eq)
qed

lemma length_write_loop [simp]: "length (fst (write_loop ds buf pos)) = length buf"
  by (induction ds arbitrary: buf pos) auto

lemma write_loop_pos:
  "pos < length buf \<Longrightarrow> snd (write_loop ds buf pos) = (pos + length ds) mod length buf"
proof (induction ds arbitrary: buf pos)
  case (Cons d ds)
  have "Suc pos mod length buf < length buf" using Cons.prems by (intro mod_less_divisor) linarith
  with Cons.IH [of "Suc pos mod length buf" "buf[pos := d]"] show ?case
    by (simp add: mod_add_left_eq)
qed simp

text \<open>A ring cell that is not one of the \<open>length ds\<close> cells from \<open>pos\<close> on keeps its value.\<close>

lemma write_loop_other:
  "\<forall>i < length ds. j \<noteq> (pos + i) mod length buf \<Longrightarrow> pos < length buf \<Longrightarrow>
     fst (write_loop ds buf pos) ! j = buf ! j"
proof (induction ds arbitrary: buf pos)
  case (Cons d ds)
  have lt: "Suc pos mod length buf < length buf" using Cons.prems by (intro mod_less_divisor) linarith
  have "j \<noteq> pos" using Cons.prems by force
  moreover have "\<forall>i < length ds. j \<noteq> (Suc pos mod length buf + i) mod length buf"
    using Cons.prems(1) by (auto simp: mod_add_left_eq dest: spec [of _ "Suc _"])
  ultimately show ?case
    using Cons.IH [of "Suc pos mod length buf" "buf[pos := d]"] lt by simp
qed simp

lemma ring_cell_inj:
  fixes i j :: nat
  assumes "(pos + i) mod c = (pos + j) mod c" and "i < c" and "j < c"
  shows "i = j"
proof -
  have le: "j \<le> i" if "(pos + i) mod c = (pos + j) mod c" "i \<le> j" "j < c" for i j :: nat
  proof -
    have "c dvd (pos + j) - (pos + i)" using that mod_eq_dvd_iff_nat [of "pos + i" "pos + j" c] by simp
    then have "c dvd j - i" by simp
    with that(2,3) show "j \<le> i" using dvd_imp_le [of c "j - i"] by linarith
  qed
  show ?thesis using le [OF assms(1) _ assms(3)] le [OF assms(1) [symmetric] _ assms(2)] by linarith
qed

lemma write_loop_read:
  "pos < length buf \<Longrightarrow> length ds \<le> length buf \<Longrightarrow>
     linearize (fst (write_loop ds buf pos)) pos (length ds) = ds"
proof (induction ds arbitrary: buf pos)
  case Nil
  then show ?case by (simp add: linearize_def)
next
  case (Cons d ds)
  let ?b = "buf[pos := d]" and ?q = "Suc pos mod length buf"
  have q: "?q < length buf" using Cons.prems by (intro mod_less_divisor) linarith
  have "\<forall>i < length ds. pos \<noteq> (?q + i) mod length buf"
  proof (intro allI impI notI)
    fix i assume i: "i < length ds" and "pos = (?q + i) mod length buf"
    then have "(pos + Suc i) mod length buf = (pos + 0) mod length buf"
      using Cons.prems(1) by (simp add: mod_add_left_eq)
    moreover have "Suc i < length buf" and "0 < length buf" using i Cons.prems by (simp, linarith)
    ultimately show False using ring_cell_inj [of pos "Suc i" "length buf" 0] by blast
  qed
  then have "fst (write_loop ds ?b ?q) ! pos = d"
    using write_loop_other [of ds pos ?q ?b] q Cons.prems by simp
  moreover have "linearize (fst (write_loop ds ?b ?q)) ?q (length ds) = ds"
    using Cons.IH [of ?q ?b] q Cons.prems by simp
  ultimately show ?case using Cons.prems by (simp add: linearize_Suc)
qed

lemma linearize_write_loop:
  assumes "pos < length buf" and "n + length ds \<le> length buf"
  shows "linearize (fst (write_loop ds buf ((pos + n) mod length buf))) pos (n + length ds) = linearize buf pos n @ ds"
proof -
  let ?q = "(pos + n) mod length buf" and ?b = "fst (write_loop ds buf ((pos + n) mod length buf))"
  have q: "?q < length buf" using assms by (intro mod_less_divisor) linarith
  have "linearize ?b pos n = linearize buf pos n"
  proof (rule nth_equalityI)
    fix i assume i: "i < length (linearize ?b pos n)"
    have "\<forall>k < length ds. (pos + i) mod length buf \<noteq> (?q + k) mod length buf"
    proof (intro allI impI notI)
      fix k assume k: "k < length ds" and "(pos + i) mod length buf = (?q + k) mod length buf"
      then have "(pos + i) mod length buf = (pos + (n + k)) mod length buf"
        by (simp add: mod_add_left_eq add.assoc)
      moreover have "i < n" using i by simp
      moreover have "i < length buf" and "n + k < length buf" using \<open>i < n\<close> k assms by linarith+
      ultimately have "i = n + k" using ring_cell_inj [of pos i "length buf" "n + k"] by blast
      with \<open>i < n\<close> show False by simp
    qed
    from write_loop_other [OF this q] i show "linearize ?b pos n ! i = linearize buf pos n ! i"
      by (simp add: linearize_def)
  qed simp
  moreover have "linearize ?b ?q (length ds) = ds" using write_loop_read [OF q] assms by simp
  ultimately show ?thesis by (simp add: linearize_append)
qed

section \<open>The channel interface\<close>

text \<open>
  A bounded first-in first-out channel: \<open>get n\<close> takes up to \<open>n\<close> of the oldest bytes, \<open>put\<close>
  appends as much of its argument as fits below \<open>limit\<close>.
\<close>

locale byte_channel =
  fixes invar :: "'c \<Rightarrow> bool"
    and bytes :: "'c \<Rightarrow> u8 list"
    and limit :: "'c \<Rightarrow> nat"
    and get :: "nat \<Rightarrow> 'c \<Rightarrow> u8 list \<times> 'c"
    and put :: "u8 list \<Rightarrow> 'c \<Rightarrow> nat \<times> 'c"
  assumes invar_get: "invar c \<Longrightarrow> invar (snd (get n c))"
    and limit_get: "limit (snd (get n c)) = limit c"
    and abs_get: "invar c \<Longrightarrow> map_prod id bytes (get n c) = q_get n (bytes c)"
    and invar_put: "invar c \<Longrightarrow> invar (snd (put d c))"
    and limit_put: "limit (snd (put d c)) = limit c"
    and abs_put: "invar c \<Longrightarrow> map_prod id bytes (put d c) = q_put (limit c) d (bytes c)"
begin

lemma run_invar: "invar c \<Longrightarrow> invar (snd (snd (chan_run get put ops c)))"
proof (induction ops arbitrary: c)
  case (Cons op ops)
  then show ?case
    by (cases op) (simp_all add: split_def invar_get invar_put)
qed simp

lemma run_refines:
  "invar c \<Longrightarrow>
     map_prod id (map_prod id bytes) (chan_run get put ops c) =
       chan_run q_get (q_put (limit c)) ops (bytes c)"
proof (induction ops arbitrary: c)
  case (Cons op ops)
  show ?case
  proof (cases op)
    case (Put d)
    then show ?thesis
      using Cons.IH [OF invar_put [OF Cons.prems, of d]] abs_put [OF Cons.prems, of d] limit_put [of d c]
      by (auto split: prod.splits)
  next
    case (Get n)
    then show ?thesis
      using Cons.IH [OF invar_get [OF Cons.prems, of n]] abs_get [OF Cons.prems, of n] limit_get [of n c]
      by (auto split: prod.splits)
  qed
qed simp

end

lemma queue_fifo:
  "case chan_run q_get (q_put lim) ops q of (acc, out, q') \<Rightarrow> q @ acc = out @ q'"
proof (induction ops arbitrary: q)
  case (Cons op ops)
  show ?case
  proof (cases op)
    case (Put d)
    have "take (min (length d) (lim - length q)) d = take (lim - length q) d" by (simp add: min_def)
    with Put Cons.IH [of "q @ take (lim - length q) d"] show ?thesis
      by (auto simp: q_put_def split: prod.splits)
  next
    case (Get n)
    obtain acc out q' where r: "chan_run q_get (q_put lim) ops (drop n q) = (acc, out, q')"
      by (metis prod_cases3)
    have "q @ acc = take n q @ drop n q @ acc" by (metis append.assoc append_take_drop_id)
    with Get Cons.IH [of "drop n q"] r show ?thesis
      by (simp add: q_get_def [of n q])
  qed
qed simp

section \<open>The pipe is such a channel\<close>

lemma pipe_ok_pos: "pipe_ok p \<Longrightarrow> 0 < length (p_buffer p)"
  by (auto simp: pipe_ok_def)

lemma length_contents [simp]: "length (contents p) = p_count p"
  by (simp add: contents_def)

lemma take_contents: "take n (contents p) = linearize (p_buffer p) (p_read_pos p) (min n (p_count p))"
  by (cases "n \<le> p_count p") (simp_all add: contents_def linearize_take min_def)

lemma drop_contents:
  "drop n (contents p) =
     linearize (p_buffer p) ((p_read_pos p + min n (p_count p)) mod length (p_buffer p)) (p_count p - min n (p_count p))"
  by (cases "n \<le> p_count p")
    (simp_all add: contents_def linearize_drop min_def)

lemma ring_read_eq:
  "pipe_ok p \<Longrightarrow> ring_read n p =
     (take n (contents p),
      p\<lparr>p_read_pos := (p_read_pos p + min n (p_count p)) mod length (p_buffer p),
        p_count := p_count p - min n (p_count p)\<rparr>)"
  by (simp add: ring_read_def Let_def read_loop_eq pipe_ok_def take_contents)

lemma ring_read_ok: "pipe_ok p \<Longrightarrow> pipe_ok (snd (ring_read n p))"
proof -
  assume ok: "pipe_ok p"
  let ?m = "min n (p_count p)" and ?c = "length (p_buffer p)"
  have "(p_read_pos p + p_count p) mod ?c = ((p_read_pos p + ?m) mod ?c + (p_count p - ?m)) mod ?c"
    by (metis add.assoc le_add_diff_inverse min.cobounded2 mod_add_left_eq)
  moreover have "p_count p - ?m \<le> ?c" using ok by (simp add: pipe_ok_def le_diff_conv)
  ultimately show ?thesis
    using ok pipe_ok_pos [OF ok] by (simp add: ring_read_eq [OF ok]) (simp add: pipe_ok_def)
qed

lemma ring_read_refines: "pipe_ok p \<Longrightarrow> map_prod id contents (ring_read n p) = q_get n (contents p)"
  by (simp add: ring_read_eq q_get_def drop_contents) (simp add: contents_def)

lemma ring_write_buffer [simp]: "length (p_buffer (snd (ring_write d p))) = length (p_buffer p)"
  by (simp add: ring_write_def Let_def split_def)

lemma ring_write_ok: "pipe_ok p \<Longrightarrow> pipe_ok (snd (ring_write d p))"
  using pipe_ok_pos [of p]
  by (auto simp: pipe_ok_def ring_write_def Let_def split_def write_loop_pos mod_add_left_eq add.assoc min_def)

lemma ring_write_refines:
  assumes "pipe_ok p"
  shows "map_prod id contents (ring_write d p) = q_put (capacity p) d (contents p)"
proof -
  let ?w = "min (length d) (length (p_buffer p) - p_count p)"
  have "linearize (fst (write_loop (take ?w d) (p_buffer p) (p_write_pos p))) (p_read_pos p) (p_count p + length (take ?w d))
      = linearize (p_buffer p) (p_read_pos p) (p_count p) @ take ?w d"
    using assms linearize_write_loop [of "p_read_pos p" "p_buffer p" "p_count p" "take ?w d"]
      nat_le_linear [of "length d" "length (p_buffer p) - p_count p"]
    by (auto simp: pipe_ok_def min_def)
  moreover have "take ?w d = take (length (p_buffer p) - p_count p) d" by (simp add: min_def)
  ultimately show ?thesis
    by (simp add: ring_write_def q_put_def Let_def split_def capacity_def contents_def min.commute)
qed

interpretation ring: byte_channel pipe_ok contents capacity ring_read ring_write
  by unfold_locales
    (simp_all add: ring_read_ok ring_write_ok ring_read_refines ring_write_refines capacity_def,
      simp add: ring_read_def Let_def split_def)

section \<open>Resizing\<close>

lemma round_loop_spec:
  "k \<le> 8 \<Longrightarrow> \<forall>j<k. PIPE_BUF_SIZE * 2 ^ j < want \<Longrightarrow>
     (case round_loop k want of
        None \<Rightarrow> PIPE_MAX_CAPACITY < want
      | Some cap \<Rightarrow> \<exists>m\<le>8. cap = PIPE_BUF_SIZE * 2 ^ m \<and> want \<le> cap \<and> (\<forall>j<m. PIPE_BUF_SIZE * 2 ^ j < want))"
proof (induction k want rule: round_loop.induct)
  case (1 k want)
  show ?case
  proof (cases "PIPE_BUF_SIZE * 2 ^ k < want")
    case False
    with 1 show ?thesis by (subst round_loop.simps) auto
  next
    case True
    show ?thesis
    proof (cases "k = 8")
      case True
      with \<open>PIPE_BUF_SIZE * 2 ^ k < want\<close> show ?thesis by (subst round_loop.simps) simp
    next
      case False
      with 1 have k: "Suc k \<le> 8" by simp
      then have "(2::nat) ^ Suc k \<le> 2 ^ 8" by (intro power_increasing) simp_all
      then have le: "\<not> PIPE_MAX_CAPACITY < PIPE_BUF_SIZE * 2 ^ Suc k" by simp
      have "\<forall>j<Suc k. PIPE_BUF_SIZE * 2 ^ j < want" using 1 True by (auto simp: less_Suc_eq)
      from "1.IH" [OF True le k this] True le show ?thesis by (subst round_loop.simps) simp
    qed
  qed
qed

lemma round_capacity_spec:
  "case round_capacity want of
     None \<Rightarrow> PIPE_MAX_CAPACITY < want
   | Some cap \<Rightarrow> \<exists>m\<le>8. cap = PIPE_BUF_SIZE * 2 ^ m \<and> want \<le> cap \<and> (\<forall>j<m. PIPE_BUF_SIZE * 2 ^ j < want)"
  using round_loop_spec [of 0 want] by (simp add: round_capacity_def)

lemma round_capacity_None: "round_capacity want = None \<longleftrightarrow> PIPE_MAX_CAPACITY < want"
proof
  assume "PIPE_MAX_CAPACITY < want"
  show "round_capacity want = None"
  proof (rule ccontr)
    assume "round_capacity want \<noteq> None"
    then obtain m where m: "m \<le> 8" "want \<le> PIPE_BUF_SIZE * 2 ^ m"
      using round_capacity_spec [of want] by (auto split: option.splits)
    have "(2::nat) ^ m \<le> 2 ^ 8" using m(1) by (rule power_increasing) simp
    then have "PIPE_BUF_SIZE * 2 ^ m \<le> PIPE_MAX_CAPACITY" by simp
    with m(2) \<open>PIPE_MAX_CAPACITY < want\<close> show False by linarith
  qed
next
  assume "round_capacity want = None"
  then show "PIPE_MAX_CAPACITY < want" using round_capacity_spec [of want] by simp
qed

lemma linearize_id: "n \<le> length xs \<Longrightarrow> linearize (xs @ ys) 0 n = take n xs"
  by (rule nth_equalityI) (auto simp: linearize_def nth_append)

lemma set_capacity_Inr:
  assumes ok: "pipe_ok p" and res: "set_capacity want p = (Inr cap, p')"
  shows "pipe_ok p' \<and> contents p' = contents p \<and> capacity p' = cap \<and> want \<le> cap \<and>
    (\<exists>m\<le>8. cap = PIPE_BUF_SIZE * 2 ^ m \<and> (\<forall>j<m. PIPE_BUF_SIZE * 2 ^ j < want))"
proof -
  from res have rc: "round_capacity want = Some cap" and le: "p_count p \<le> cap"
    and p': "p' = p\<lparr>p_buffer := contents p @ replicate (cap - p_count p) 0, p_read_pos := 0, p_write_pos := p_count p mod cap\<rparr>"
    by (auto simp: set_capacity_def contents_def Let_def split: option.splits if_splits)
  from rc obtain m where m: "m \<le> 8" "cap = PIPE_BUF_SIZE * 2 ^ m" "want \<le> cap" "\<forall>j<m. PIPE_BUF_SIZE * 2 ^ j < want"
    using round_capacity_spec [of want] by auto
  have "0 < cap" using m(2) by simp
  have len: "length (contents p @ replicate (cap - p_count p) 0) = cap" using le by simp
  have "pipe_ok p'" unfolding pipe_ok_def p' using len le m \<open>0 < cap\<close> by auto
  moreover have "contents p' = contents p"
    using linearize_id [of "p_count p" "contents p"] unfolding contents_def [of p'] by (simp add: p')
  moreover have "capacity p' = cap" using p' len by (simp add: capacity_def)
  ultimately show ?thesis using m by blast
qed

lemma pipe_ok_new: "pipe_ok (pipe_new i)"
  unfolding pipe_ok_def pipe_new_def by (auto intro: exI [of _ 4])

lemma contents_new [simp]: "contents (pipe_new i) = []" "capacity (pipe_new i) = PIPE_DEFAULT_CAPACITY"
  by (simp_all add: contents_def capacity_def pipe_new_def linearize_def)

section \<open>Properties\<close>

text \<open>
  C5: For every sequence of reads and writes on a well-formed pipe ring, however often the ring
  wraps around, the pipe behaves exactly like a queue bounded by its capacity: it accepts and
  delivers the same bytes and ends with the same unread bytes. Hence no byte is lost, duplicated
  or reordered: the bytes unread at the start followed by the bytes accepted are the bytes
  delivered followed by the bytes unread at the end.
\<close>

theorem pipe_is_fifo:
  assumes "pipe_ok p"
  shows "case chan_run ring_read ring_write ops p of (acc, out, p') \<Rightarrow>
    pipe_ok p' \<and>
    chan_run q_get (q_put (capacity p)) ops (contents p) = (acc, out, contents p') \<and>
    contents p @ acc = out @ contents p'"
proof -
  obtain acc out p' where r: "chan_run ring_read ring_write ops p = (acc, out, p')"
    by (metis prod_cases3)
  have "chan_run q_get (q_put (capacity p)) ops (contents p) = (acc, out, contents p')"
    using ring.run_refines [OF assms, of ops] r by simp
  then show ?thesis
    using r ring.run_invar [OF assms, of ops] queue_fifo [of "contents p" "capacity p" ops] by simp
qed

theorem pipe_is_fifo_witness:
  "pipe_ok (pipe_new 1) \<and>
   (case chan_run ring_read ring_write [Put [1, 2, 3], Get 2, Put [4], Get 9] (pipe_new 1) of
      (acc, out, p') \<Rightarrow> acc = [1, 2, 3, 4] \<and> out = [1, 2, 3, 4] \<and> contents p' = [])"
proof -
  let ?ops = "[Put [1, 2, 3], Get 2, Put [4], Get 9]"
  have "chan_run q_get (q_put PIPE_DEFAULT_CAPACITY) ?ops [] = ([1, 2, 3, 4], [1, 2, 3, 4], [])"
    by (simp add: q_get_def q_put_def)
  with pipe_is_fifo [OF pipe_ok_new [of 1], of ?ops] pipe_ok_new [of 1] show ?thesis
    by (auto simp del: chan_run.simps split: prod.splits)
qed

text \<open>
  Resizing a well-formed pipe either fails and changes nothing (\<open>EPERM\<close> exactly for a
  request above the one MiB limit, otherwise \<open>EBUSY\<close>), or gives a well-formed pipe with the same
  unread bytes whose capacity is the smallest power of two pages that covers the request. It
  reports \<open>EBUSY\<close> only when the unread bytes do not fit that capacity.
\<close>

theorem set_capacity_correct:
  assumes "pipe_ok p"
  shows "case set_capacity want p of
      (Inl e, p') \<Rightarrow> p' = p \<and>
        (e = EPERM \<and> PIPE_MAX_CAPACITY < want \<or>
         e = EBUSY \<and> (\<exists>cap. round_capacity want = Some cap \<and> cap < length (contents p)))
    | (Inr cap, p') \<Rightarrow> pipe_ok p' \<and> contents p' = contents p \<and> capacity p' = cap \<and> want \<le> cap \<and>
        (\<exists>m\<le>8. cap = PIPE_BUF_SIZE * 2 ^ m \<and> (\<forall>j<m. PIPE_BUF_SIZE * 2 ^ j < want))"
proof (cases "fst (set_capacity want p)")
  case (Inl e)
  then show ?thesis
    using round_capacity_None [of want]
    by (auto simp: set_capacity_def Let_def split: option.splits if_splits)
next
  case (Inr cap)
  then show ?thesis
    using set_capacity_Inr [OF assms, of want cap] by (cases "set_capacity want p") simp
qed

theorem set_capacity_correct_witness:
  "set_capacity 2000000 (pipe_new 1) = (Inl EPERM, pipe_new 1) \<and>
   contents (snd (set_capacity 5000 (pipe_new 1))) = []"
proof -
  have "round_capacity 2000000 = None" by (simp add: round_capacity_None)
  then have "set_capacity 2000000 (pipe_new 1) = (Inl EPERM, pipe_new 1)" by (simp add: set_capacity_def)
  moreover have "contents (snd (set_capacity 5000 (pipe_new 1))) = []"
    using set_capacity_correct [OF pipe_ok_new [of 1], of 5000] by (auto split: prod.splits sum.splits)
  ultimately show ?thesis by simp
qed

end
