(* ===== verification/Waitlist.thy ===== *)
theory Waitlist
  imports Rust_Prelude
begin

text \<open>
  Threads as the wait lists see them (\<open>proc/mod.rs\<close>: \<open>ThreadState\<close>, the fields of \<open>Thread\<close>
  that parking and waking touch, \<open>apply_wake_boost\<close>), the wait list of \<open>ipc/waitlist.rs\<close>
  and the global poll bell. The current thread, the clock and the outcome of the caller's
  readiness scan are arguments; what the rest of the system does while a thread is scheduled
  away is an argument as well, a function on the state the thread gave up.
\<close>

section \<open>Threads\<close>

datatype thread_state = Ready | Running | Blocked | Sleeping | Dead

record thread =
  th_tid :: u64
  th_state :: thread_state
  th_wake_tick :: u64
  th_priority :: u8
  th_ctx_rsp_valid :: bool

abbreviation PRIORITY_MAX :: u8 where "PRIORITY_MAX \<equiv> 31"
abbreviation PRIORITY_BOOST_WAIT :: u8 where "PRIORITY_BOOST_WAIT \<equiv> 2"

definition apply_wake_boost :: "thread \<Rightarrow> thread" where
  "apply_wake_boost t = t\<lparr>th_priority := min (th_priority t + PRIORITY_BOOST_WAIT) PRIORITY_MAX\<rparr>"

section \<open>Wait lists\<close>

type_synonym wait_list = "u64 list"

definition enqueue_self_blocked ::
  "u64 \<Rightarrow> u64 \<Rightarrow> wait_list \<Rightarrow> thread list \<Rightarrow> wait_list \<times> thread list" where
  "enqueue_self_blocked tid wake_tick wl ths =
     (wl @ [tid],
      upd_first (\<lambda>t. th_tid t = tid)
        (\<lambda>t. t\<lparr>th_ctx_rsp_valid := False, th_state := Blocked, th_wake_tick := wake_tick\<rparr>) ths)"

definition drain :: "usize \<Rightarrow> wait_list \<Rightarrow> u64 list \<times> wait_list" where
  "drain m wl =
     (if wl = [] \<or> m = 0 then ([], wl)
      else let n = min (length wl) (unat m) in (take n wl, drop n wl))"

definition drain_all :: "wait_list \<Rightarrow> u64 list \<times> wait_list" where
  "drain_all wl = (if wl = [] then ([], wl) else let n = length wl in (take n wl, drop n wl))"

definition remove_tid :: "u64 \<Rightarrow> wait_list \<Rightarrow> bool \<times> wait_list" where
  "remove_tid tid wl =
     (let wl' = filter (\<lambda>t. t \<noteq> tid) wl in (length wl' < length wl, wl'))"

text \<open>
  The loop of \<open>wake_tids\<close>: the thread table, the highest priority among the woken threads,
  and whether any thread was woken.
\<close>

definition wake_thread :: "thread \<Rightarrow> thread" where
  "wake_thread t = apply_wake_boost (t\<lparr>th_state := Ready, th_wake_tick := 0\<rparr>)"

fun wake_loop :: "u64 list \<Rightarrow> thread list \<Rightarrow> u8 \<Rightarrow> bool \<Rightarrow> thread list \<times> u8 \<times> bool" where
  "wake_loop [] ths max_woken any_woken = (ths, max_woken, any_woken)"
| "wake_loop (t # ts) ths max_woken any_woken =
     (case List.find (\<lambda>th. th_tid th = t) ths of
        Some th \<Rightarrow>
          if th_state th = Blocked
          then wake_loop ts (upd_first (\<lambda>th. th_tid th = t) wake_thread ths)
                 (if max_woken < th_priority (wake_thread th) then th_priority (wake_thread th) else max_woken)
                 True
          else wake_loop ts ths max_woken any_woken
      | None \<Rightarrow> wake_loop ts ths max_woken any_woken)"

text \<open>The second component tells whether a reschedule of this CPU is requested.\<close>

definition wake_tids :: "u64 \<Rightarrow> u64 list \<Rightarrow> thread list \<Rightarrow> thread list \<times> bool" where
  "wake_tids cur_tid tids ths =
     (if tids = [] then (ths, False)
      else
        (let cur_prio = (case List.find (\<lambda>th. th_tid th = cur_tid) ths of
                           Some th \<Rightarrow> th_priority th | None \<Rightarrow> 0);
             (ths', max_woken, any_woken) = wake_loop tids ths 0 False
         in (ths', any_woken \<and> cur_prio < max_woken)))"

section \<open>Wait lists of objects\<close>

text \<open>
  Pipes and eventfds keep their wait lists in a map from the id of the object; an entry is created by the
  first waiter and leaves the map when it is empty.
\<close>

definition waiters :: "(u64, wait_list) btree \<Rightarrow> u64 \<Rightarrow> wait_list" where
  "waiters m obj = (case bt_get m obj of Some l \<Rightarrow> l | None \<Rightarrow> [])"

text \<open>The drain of a wait list, under its lock; an emptied entry leaves the map.\<close>

definition drain_waiters ::
  "u64 \<Rightarrow> (u64, wait_list) btree \<Rightarrow> u64 list \<times> (u64, wait_list) btree" where
  "drain_waiters obj m =
     (case bt_get m obj of
        Some l \<Rightarrow>
          (let (v, l') = drain_all l
           in (v, if l' = [] then bt_remove obj m else bt_insert obj l' m))
      | None \<Rightarrow> ([], m))"

definition cleanup_waiters :: "u64 \<Rightarrow> u64 \<Rightarrow> (u64, wait_list) btree \<Rightarrow> (u64, wait_list) btree" where
  "cleanup_waiters obj tid m =
     (case bt_get m obj of
        Some l \<Rightarrow>
          (let l' = snd (remove_tid tid l)
           in if l' = [] then bt_remove obj m else bt_insert obj l' m)
      | None \<Rightarrow> m)"

section \<open>The poll bell\<close>

datatype poll_bell_source =
    SrcPipe | SrcEventfd | SrcUnixWrite | SrcUnixShutdown | SrcTimerfd | SrcSignalfd
  | SrcInotify | SrcSignalInject | SrcInetRx | SrcUnixRead | SrcInetTx | SrcOther

fun source_index :: "poll_bell_source \<Rightarrow> nat" where
  "source_index SrcPipe = 0"
| "source_index SrcEventfd = 1"
| "source_index SrcUnixWrite = 2"
| "source_index SrcUnixShutdown = 3"
| "source_index SrcTimerfd = 4"
| "source_index SrcSignalfd = 5"
| "source_index SrcInotify = 6"
| "source_index SrcSignalInject = 7"
| "source_index SrcInetRx = 8"
| "source_index SrcUnixRead = 9"
| "source_index SrcInetTx = 10"
| "source_index SrcOther = 11"

abbreviation N_BELL_SOURCES :: nat where "N_BELL_SOURCES \<equiv> 12"
abbreviation RESYNC_INTERVAL_TICKS :: u64 where "RESYNC_INTERVAL_TICKS \<equiv> 100"

record bell =
  poll_bell :: wait_list
  bell_rings :: "u64 list"
  bell_wakes :: u64
  resync_wakes :: u64

record wait_env =
  we_threads :: "thread list"
  we_bell :: bell

text \<open>\<open>ring_poll_bell_for\<close>: the section under the bell lock, then the waking.\<close>

definition ring_drain :: "poll_bell_source \<Rightarrow> wait_env \<Rightarrow> u64 list \<times> wait_env" where
  "ring_drain src e =
     (let b = we_bell e;
          i = source_index src;
          (drained, rest) = drain_all (poll_bell b)
      in (drained, e\<lparr>we_bell := b\<lparr>bell_rings := (bell_rings b)[i := bell_rings b ! i + 1], poll_bell := rest\<rparr>\<rparr>))"

definition wake_env :: "u64 \<Rightarrow> u64 list \<Rightarrow> wait_env \<Rightarrow> wait_env" where
  "wake_env cur_tid tids e = e\<lparr>we_threads := fst (wake_tids cur_tid tids (we_threads e))\<rparr>"

definition ring_poll_bell_for :: "poll_bell_source \<Rightarrow> u64 \<Rightarrow> wait_env \<Rightarrow> wait_env" where
  "ring_poll_bell_for src cur_tid e =
     (let (drained, e') = ring_drain src e in wake_env cur_tid drained e')"

definition ring_poll_bell :: "u64 \<Rightarrow> wait_env \<Rightarrow> wait_env" where
  "ring_poll_bell cur_tid e = ring_poll_bell_for SrcOther cur_tid e"

text \<open>
  \<open>wait_poll_event\<close> up to \<open>schedule()\<close>, and the accounting after it; \<open>elsewhere\<close> is what
  happens in between. The result is the return value of the source.
\<close>

definition poll_park :: "u64 \<Rightarrow> u64 \<Rightarrow> u64 \<Rightarrow> bool \<Rightarrow> wait_env \<Rightarrow> bool \<times> wait_env" where
  "poll_park tid now caller_deadline ready e =
     (let resync_tick = saturating_add now RESYNC_INTERVAL_TICKS;
          wake_tick = min caller_deadline resync_tick
      in if ready then (True, e)
         else
           (let (wl, ths) = enqueue_self_blocked tid wake_tick (poll_bell (we_bell e)) (we_threads e)
            in (False, e\<lparr>we_bell := (we_bell e)\<lparr>poll_bell := wl\<rparr>, we_threads := ths\<rparr>)))"

definition poll_resume :: "u64 \<Rightarrow> wait_env \<Rightarrow> wait_env" where
  "poll_resume tid e =
     (let b = we_bell e;
          (still_parked, wl) = remove_tid tid (poll_bell b)
      in e\<lparr>we_bell :=
             (if still_parked then b\<lparr>poll_bell := wl, resync_wakes := resync_wakes b + 1\<rparr>
              else b\<lparr>poll_bell := wl, bell_wakes := bell_wakes b + 1\<rparr>)\<rparr>)"

definition wait_poll_event ::
  "u64 \<Rightarrow> u64 \<Rightarrow> u64 \<Rightarrow> bool \<Rightarrow> (wait_env \<Rightarrow> wait_env) \<Rightarrow> wait_env \<Rightarrow> bool \<times> wait_env" where
  "wait_poll_event tid now caller_deadline ready elsewhere e =
     (let (ret, e1) = poll_park tid now caller_deadline ready e
      in if ret then (True, e1) else (False, poll_resume tid (elsewhere e1)))"

text \<open>What a wake-up of the threads \<open>ts\<close> does to one thread of the table.\<close>

definition woken :: "u64 list \<Rightarrow> thread \<Rightarrow> thread" where
  "woken ts t = (if th_tid t \<in> set ts \<and> th_state t = Blocked then wake_thread t else t)"

text \<open>A thread of \<open>ts\<close> whose wake-up gives it a priority above \<open>c\<close>.\<close>

definition outranks :: "u8 \<Rightarrow> u64 list \<Rightarrow> thread list \<Rightarrow> bool" where
  "outranks c ts ths \<longleftrightarrow>
     (\<exists>t \<in> set ths. th_tid t \<in> set ts \<and> th_state t = Blocked \<and> c < th_priority (wake_thread t))"

definition tids_ok :: "thread list \<Rightarrow> bool" where
  "tids_ok ths \<longleftrightarrow> distinct (map th_tid ths)"

definition demo_thread :: "u64 \<Rightarrow> thread" where
  "demo_thread k = \<lparr>th_tid = k, th_state = Running, th_wake_tick = 0, th_priority = 8, th_ctx_rsp_valid = True\<rparr>"

definition demo_env :: wait_env where
  "demo_env = \<lparr>we_threads = [demo_thread 1, demo_thread 2],
     we_bell = \<lparr>poll_bell = [], bell_rings = replicate N_BELL_SOURCES 0, bell_wakes = 0, resync_wakes = 0\<rparr>\<rparr>"

section \<open>Facts\<close>

lemma drain_all_simp [simp]: "drain_all wl = (wl, [])"
  by (simp add: drain_all_def Let_def)

lemma remove_tid_simps:
  "fst (remove_tid tid wl) \<longleftrightarrow> tid \<in> set wl" "set (snd (remove_tid tid wl)) = set wl - {tid}"
proof -
  have "length (filter (\<lambda>t. t \<noteq> tid) wl) < length wl \<longleftrightarrow> tid \<in> set wl"
    by (metis (mono_tags, lifting) filter_True length_filter_less less_irrefl)
  then show "fst (remove_tid tid wl) \<longleftrightarrow> tid \<in> set wl" by (simp add: remove_tid_def Let_def)
  show "set (snd (remove_tid tid wl)) = set wl - {tid}" by (auto simp: remove_tid_def Let_def)
qed

lemma wake_thread_tid [simp]: "th_tid (wake_thread t) = th_tid t"
  by (simp add: wake_thread_def apply_wake_boost_def)

lemma upd_first_tid_map:
  "tids_ok ths \<Longrightarrow> upd_first (\<lambda>t. th_tid t = k) f ths = map (\<lambda>t. if th_tid t = k then f t else t) ths"
proof (induction ths)
  case (Cons t ths)
  then have "tids_ok ths" "\<forall>u \<in> set ths. th_tid u \<noteq> th_tid t"
    by (simp_all add: tids_ok_def) (metis image_eqI)
  with Cons.IH show ?case by (auto intro!: map_idI [symmetric])
qed simp

lemma find_tid:
  "tids_ok ths \<Longrightarrow> t \<in> set ths \<Longrightarrow> List.find (\<lambda>u. th_tid u = th_tid t) ths = Some t"
  by (induction ths) (auto simp: tids_ok_def image_iff)


lemma woken_Nil [simp]: "map (woken []) ths = ths"
  by (intro map_idI) (simp add: woken_def)

lemma wake_thread_state [simp]: "th_state (wake_thread t) = Ready"
  by (simp add: wake_thread_def apply_wake_boost_def)

lemma wake_one:
  assumes "tids_ok ths"
  shows "(case List.find (\<lambda>th. th_tid th = k) ths of
      Some th \<Rightarrow> if th_state th = Blocked then upd_first (\<lambda>th. th_tid th = k) wake_thread ths else ths
    | None \<Rightarrow> ths) = map (woken [k]) ths"
proof (cases "List.find (\<lambda>th. th_tid th = k) ths")
  case None
  then have "\<forall>t \<in> set ths. th_tid t \<noteq> k" by (simp add: find_None)
  then have "map (woken [k]) ths = ths" by (intro map_idI) (simp add: woken_def)
  with None show ?thesis by simp
next
  case (Some th)
  then have th: "th \<in> set ths" "th_tid th = k" using find_Some_in by fastforce+
  have "th_state t = th_state th" if "t \<in> set ths" "th_tid t = k" for t
    using find_tid [OF assms that(1)] Some that(2) by simp
  with Some show ?thesis
    by (auto simp: upd_first_tid_map [OF assms] woken_def intro!: map_cong map_idI [symmetric])
qed

lemma tids_ok_woken: "tids_ok ths \<Longrightarrow> tids_ok (map (woken ts) ths)"
proof -
  have "map th_tid (map (woken ts) ths) = map th_tid ths" by (simp add: woken_def)
  then show "tids_ok ths \<Longrightarrow> tids_ok (map (woken ts) ths)" by (simp only: tids_ok_def)
qed

lemma wake_loop_threads: "tids_ok ths \<Longrightarrow> fst (wake_loop ts ths m a) = map (woken ts) ths"
proof (induction ts arbitrary: ths m a)
  case Nil
  then show ?case by simp
next
  case (Cons k ts)
  have "\<exists>m' a'. wake_loop (k # ts) ths m a = wake_loop ts (map (woken [k]) ths) m' a'"
    unfolding wake_one [OF Cons.prems, symmetric]
    by (auto split: option.splits)
  then obtain m' a' where "wake_loop (k # ts) ths m a = wake_loop ts (map (woken [k]) ths) m' a'" by blast
  then have "fst (wake_loop (k # ts) ths m a) = map (woken ts) (map (woken [k]) ths)"
    using Cons.IH [OF tids_ok_woken [OF Cons.prems]] by simp
  also have "\<dots> = map (woken (k # ts)) ths" by (auto simp: woken_def)
  finally show ?case .
qed

lemma outranks_Cons: "outranks c (k # ts) ths \<longleftrightarrow> outranks c [k] ths \<or> outranks c ts (map (woken [k]) ths)"
proof -
  have "outranks c ts (map (woken [k]) ths) \<longleftrightarrow>
      (\<exists>t \<in> set ths. th_tid t \<noteq> k \<and> th_tid t \<in> set ts \<and> th_state t = Blocked \<and> c < th_priority (wake_thread t))"
    by (auto simp: outranks_def woken_def)
  then show ?thesis unfolding outranks_def by auto
qed

lemma wake_loop_max:
  "tids_ok ths \<Longrightarrow> c < fst (snd (wake_loop ts ths m a)) \<longleftrightarrow> c < m \<or> outranks c ts ths"
proof (induction ts arbitrary: ths m a)
  case Nil
  then show ?case by (simp add: outranks_def)
next
  case (Cons k ts)
  note IH = Cons.IH [OF tids_ok_woken [OF Cons.prems]]
  show ?case
  proof (cases "List.find (\<lambda>th. th_tid th = k) ths")
    case None
    then have "\<forall>t \<in> set ths. th_tid t \<noteq> k" by (simp add: find_None)
    then have "\<not> outranks c [k] ths" by (simp add: outranks_def)
    moreover have "map (woken [k]) ths = ths" unfolding wake_one [OF Cons.prems, symmetric] None by simp
    ultimately show ?thesis using None IH [of "[k]" m a] by (simp add: outranks_Cons [of c k ts])
  next
    case (Some th)
    then have th: "th \<in> set ths" "th_tid th = k" using find_Some_in by fastforce+
    have uniq: "t = th" if "t \<in> set ths" "th_tid t = k" for t
      using find_tid [OF Cons.prems that(1)] Some that(2) by simp
    have out: "outranks c [k] ths \<longleftrightarrow> th_state th = Blocked \<and> c < th_priority (wake_thread th)"
    proof
      assume "outranks c [k] ths"
      then obtain t where "t \<in> set ths" "th_tid t = k" "th_state t = Blocked" "c < th_priority (wake_thread t)"
        by (auto simp: outranks_def)
      with uniq show "th_state th = Blocked \<and> c < th_priority (wake_thread th)" by blast
    qed (use th in \<open>auto simp: outranks_def\<close>)
    show ?thesis
    proof (cases "th_state th = Blocked")
      case True
      let ?m = "if m < th_priority (wake_thread th) then th_priority (wake_thread th) else m"
      have "upd_first (\<lambda>th. th_tid th = k) wake_thread ths = map (woken [k]) ths"
        unfolding wake_one [OF Cons.prems, symmetric] Some using True by simp
      then have "wake_loop (k # ts) ths m a = wake_loop ts (map (woken [k]) ths) ?m True"
        using Some True by simp
      moreover have "c < ?m \<longleftrightarrow> c < m \<or> c < th_priority (wake_thread th)" by auto
      ultimately show ?thesis using IH [of "[k]" ?m True] True out by (simp only: outranks_Cons [of c k ts]) blast
    next
      case False
      then have "map (woken [k]) ths = ths" unfolding wake_one [OF Cons.prems, symmetric] Some by simp
      with False Some IH [of "[k]" m a] out show ?thesis by (simp add: outranks_Cons [of c k ts])
    qed
  qed
qed

lemma wake_loop_any_True: "snd (snd (wake_loop ts ths m True))"
  by (induction ts arbitrary: ths m) (auto split: option.split)

lemma wake_loop_any_False:
  "\<not> snd (snd (wake_loop ts ths m a)) \<Longrightarrow> fst (snd (wake_loop ts ths m a)) = m"
proof (induction ts arbitrary: ths m a)
  case (Cons k ts)
  show ?case
  proof (cases "List.find (\<lambda>th. th_tid th = k) ths")
    case None
    with Cons show ?thesis by simp
  next
    case (Some th)
    with Cons wake_loop_any_True show ?thesis by (cases "th_state th = Blocked") simp_all
  qed
qed simp

lemma wake_tids_threads: "tids_ok ths \<Longrightarrow> fst (wake_tids cur ts ths) = map (woken ts) ths"
  by (simp add: wake_tids_def wake_loop_threads Let_def split_def)

lemma waiters_insert [simp]: "waiters (bt_insert k l m) j = (if j = k then l else waiters m j)"
  by (simp add: waiters_def bt.get_ins)

lemma waiters_remove [simp]: "waiters (bt_remove k m) j = (if j = k then [] else waiters m j)"
  by (simp add: waiters_def bt.get_del)

lemma drain_waiters_simps:
  "fst (drain_waiters k m) = waiters m k"
  "waiters (snd (drain_waiters k m)) j = (if j = k then [] else waiters m j)"
  by (auto simp: drain_waiters_def waiters_def bt.get_del Let_def split: option.splits)

lemma cleanup_waiters_simp:
  "set (waiters (cleanup_waiters k tid m) j) = (if j = k then set (waiters m k) - {tid} else set (waiters m j))"
proof (cases "bt_get m k")
  case (Some l)
  have l: "waiters m k = l" using Some by (simp add: waiters_def)
  have "set (snd (remove_tid tid l)) = set l - {tid}" by (rule remove_tid_simps)
  then show ?thesis
    by (cases "snd (remove_tid tid l) = []") (simp_all add: cleanup_waiters_def Some l)
qed (simp add: cleanup_waiters_def waiters_def)

text \<open>
  \<open>wake_tids\<close> wakes exactly the blocked threads of the list: each becomes ready with its deadline
  cleared and its priority raised by the bounded boost, all other threads are untouched, and
  a reschedule of this CPU is requested iff some woken thread now outranks the current one.
\<close>

theorem wake_tids_spec:
  assumes "tids_ok ths"
  shows "fst (wake_tids cur ts ths) =
      map (\<lambda>t. if th_tid t \<in> set ts \<and> th_state t = Blocked
        then t\<lparr>th_state := Ready, th_wake_tick := 0, th_priority := min (th_priority t + 2) 31\<rparr> else t) ths \<and>
    (snd (wake_tids cur ts ths) \<longleftrightarrow>
      (\<exists>t \<in> set ths. th_tid t \<in> set ts \<and> th_state t = Blocked \<and>
        (case List.find (\<lambda>u. th_tid u = cur) ths of Some u \<Rightarrow> th_priority u | None \<Rightarrow> 0) <
          min (th_priority t + 2) 31))"
proof -
  have pr: "th_priority (wake_thread t) = min (th_priority t + 2) 31" for t
    by (simp add: wake_thread_def apply_wake_boost_def)
  have "wake_thread t = t\<lparr>th_state := Ready, th_wake_tick := 0, th_priority := min (th_priority t + 2) 31\<rparr>" for t
    by (simp add: wake_thread_def apply_wake_boost_def)
  moreover have "snd (wake_tids cur ts ths) \<longleftrightarrow>
      (\<exists>t \<in> set ths. th_tid t \<in> set ts \<and> th_state t = Blocked \<and>
        (case List.find (\<lambda>u. th_tid u = cur) ths of Some u \<Rightarrow> th_priority u | None \<Rightarrow> 0) <
          th_priority (wake_thread t))" (is "_ \<longleftrightarrow> ?R")
  proof -
    let ?c = "case List.find (\<lambda>u. th_tid u = cur) ths of Some u \<Rightarrow> th_priority u | None \<Rightarrow> 0"
    let ?W = "wake_loop ts ths 0 False"
    have "snd (wake_tids cur ts ths) \<longleftrightarrow> snd (snd ?W) \<and> ?c < fst (snd ?W)"
      by (cases "ts = []") (simp_all add: wake_tids_def Let_def split_def)
    also have "\<dots> \<longleftrightarrow> ?c < fst (snd ?W)"
      using wake_loop_any_False [of ts ths 0 False] by (cases "snd (snd ?W)") simp_all
    also have "\<dots> \<longleftrightarrow> ?R" using wake_loop_max [OF assms, of ?c ts 0 False] by (simp add: outranks_def)
    finally show ?thesis .
  qed
  ultimately show ?thesis using wake_tids_threads [OF assms, of cur ts] pr by (simp add: woken_def)
qed

lemma woken_tid [simp]: "th_tid (woken ts t) = th_tid t"
  by (simp add: woken_def)

lemma ring_drain_simps:
  assumes "ring_drain src e = (tids, e')"
  shows "tids = poll_bell (we_bell e)" and "poll_bell (we_bell e') = []" and "we_threads e' = we_threads e"
  using assms by (auto simp: ring_drain_def Let_def)

lemma wake_env_simps:
  "we_bell (wake_env cur ts e) = we_bell e"
  "tids_ok (we_threads e) \<Longrightarrow> we_threads (wake_env cur ts e) = map (woken ts) (we_threads e)"
  by (simp_all add: wake_env_def wake_tids_threads)

lemma poll_park_True: "poll_park tid now d ready e = (True, e') \<Longrightarrow> ready \<and> e' = e"
  by (auto simp: poll_park_def Let_def split_def split: if_splits)

lemma poll_park_False:
  assumes "poll_park tid now d ready e = (False, e')" "tids_ok (we_threads e)"
  shows "\<not> ready" and "poll_bell (we_bell e') = poll_bell (we_bell e) @ [tid]"
    and "tids_ok (we_threads e')"
    and "\<forall>t \<in> set (we_threads e'). th_tid t \<noteq> tid \<longrightarrow> t \<in> set (we_threads e)"
proof -
  let ?f = "\<lambda>t. t\<lparr>th_ctx_rsp_valid := False, th_state := Blocked,
      th_wake_tick := min d (saturating_add now RESYNC_INTERVAL_TICKS)\<rparr>"
  have e': "\<not> ready" "poll_bell (we_bell e') = poll_bell (we_bell e) @ [tid]"
    "we_threads e' = upd_first (\<lambda>t. th_tid t = tid) ?f (we_threads e)"
    using assms(1) by (auto simp: poll_park_def enqueue_self_blocked_def Let_def split_def split: if_splits)
  show "\<not> ready" and "poll_bell (we_bell e') = poll_bell (we_bell e) @ [tid]" by (fact e')+
  have "map th_tid (we_threads e') = map th_tid (we_threads e)"
    unfolding e'(3) by (rule map_upd_first) simp
  then show "tids_ok (we_threads e')" using assms(2) by (simp add: tids_ok_def)
  show "\<forall>t \<in> set (we_threads e'). th_tid t \<noteq> tid \<longrightarrow> t \<in> set (we_threads e)"
    unfolding e'(3) upd_first_tid_map [OF assms(2)] by auto
qed

lemma poll_resume_simps:
  "we_threads (poll_resume tid e) = we_threads e"
  "set (poll_bell (we_bell (poll_resume tid e))) = set (poll_bell (we_bell e)) - {tid}"
  using remove_tid_simps(2) [of tid "poll_bell (we_bell e)"]
  by (auto simp: poll_resume_def Let_def split_def)

theorem wake_tids_spec_witness:
  "tids_ok [demo_thread 1, (demo_thread 2)\<lparr>th_state := Blocked, th_priority := 30\<rparr>] \<and>
   map th_state (fst (wake_tids 1 [2] [demo_thread 1, (demo_thread 2)\<lparr>th_state := Blocked, th_priority := 30\<rparr>])) = [Running, Ready] \<and>
   snd (wake_tids 1 [2] [demo_thread 1, (demo_thread 2)\<lparr>th_state := Blocked, th_priority := 30\<rparr>])"
proof -
  have ok: "tids_ok [demo_thread 1, (demo_thread 2)\<lparr>th_state := Blocked, th_priority := 30\<rparr>]"
    by (simp add: tids_ok_def demo_thread_def)
  from wake_tids_spec [OF ok, of 1 "[2]"] ok show ?thesis by (simp add: demo_thread_def)
qed

end
