(* ===== verification/Park_Protocol.thy ===== *)
theory Park_Protocol
  imports Waitlist
begin

text \<open>
  The check-then-park protocol that the poll bell, the pipe wait lists and the eventfd wait lists
  share: a waiter re-checks readiness and enqueues itself in one critical section; whoever makes
  the resource ready later drains the wait list in a second critical section and wakes the drained
  threads in a third. Some callers make the resource ready and announce it to nobody. The locale
  \<open>parking\<close> states what the protocol needs of the operations, and proves once, for any interleaving,
  that no wake-up is lost but those that were never announced; \<open>announced_parking\<close> is the case where every
  change is announced. They are interpreted here on the poll bell, and on the other wait lists in their
  theories.
\<close>

section \<open>Interleavings\<close>

text \<open>
  What the caller of a critical section does afterwards: nothing, because the section makes nobody
  ready; announce it to the waiters; or nothing, although the section may have made waiters ready.
\<close>

datatype notice = Quiet | Announced | Unannounced

abbreviation announce :: "bool \<Rightarrow> notice" where
  "announce b \<equiv> if b then Announced else Quiet"

abbreviation keep_silent :: "bool \<Rightarrow> notice" where
  "keep_silent b \<equiv> if b then Unannounced else Quiet"

text \<open>
  A configuration: the system, the number of announcements that are still to be made, the drained
  but not yet woken threads of each announcement under way, the threads between parking and
  the cleanup after they ran again, each with what it waits for, and those of them that were parked
  when an unannounced section ran after the last drain.
\<close>

record ('s, 'q) park_cfg =
  pc_sys :: 's
  pc_due :: nat
  pc_pending :: "u64 list list"
  pc_parked :: "(u64 \<times> 'q) set"
  pc_missed :: "u64 set"

text \<open>
  \<open>change a\<close> is any other critical section of the system, with the notice \<open>a\<close> its caller gives. A parked thread does not run, so no step of it can park it elsewhere: that is the
  condition on \<open>blocked\<close>.
\<close>

inductive park_step ::
  "(notice \<Rightarrow> 's \<Rightarrow> 's \<Rightarrow> bool) \<Rightarrow> (u64 \<Rightarrow> 'q \<Rightarrow> 's \<Rightarrow> 's \<Rightarrow> bool) \<Rightarrow> ('s \<Rightarrow> u64 list \<Rightarrow> 's \<Rightarrow> bool) \<Rightarrow>
   (u64 list \<Rightarrow> 's \<Rightarrow> 's \<Rightarrow> bool) \<Rightarrow> (u64 \<Rightarrow> 's \<Rightarrow> 's \<Rightarrow> bool) \<Rightarrow> ('s \<Rightarrow> u64 set) \<Rightarrow>
   ('s, 'q) park_cfg \<Rightarrow> ('s, 'q) park_cfg \<Rightarrow> bool"
  for change park drain wake resume blocked where
  Change: "change a (pc_sys c) s \<Longrightarrow> blocked s \<inter> fst ` pc_parked c \<subseteq> blocked (pc_sys c) \<Longrightarrow>
    park_step change park drain wake resume blocked c
      (c\<lparr>pc_sys := s, pc_due := (if a = Announced then pc_due c + 1 else pc_due c),
          pc_missed := (if a = Unannounced then pc_missed c \<union> fst ` pc_parked c else pc_missed c)\<rparr>)"
| Park: "park tid q (pc_sys c) s \<Longrightarrow>
    park_step change park drain wake resume blocked c
      (c\<lparr>pc_sys := s, pc_parked := insert (tid, q) {x \<in> pc_parked c. fst x \<noteq> tid}, pc_missed := pc_missed c - {tid}\<rparr>)"
| Drain: "0 < pc_due c \<Longrightarrow> drain (pc_sys c) tids s \<Longrightarrow>
    park_step change park drain wake resume blocked c
      (c\<lparr>pc_sys := s, pc_due := pc_due c - 1, pc_pending := tids # pc_pending c, pc_missed := {}\<rparr>)"
| Wake: "pc_pending c = ws1 @ tids # ws2 \<Longrightarrow> wake tids (pc_sys c) s \<Longrightarrow>
    park_step change park drain wake resume blocked c
      (c\<lparr>pc_sys := s, pc_pending := ws1 @ ws2\<rparr>)"
| Resume: "resume tid (pc_sys c) s \<Longrightarrow>
    park_step change park drain wake resume blocked c
      (c\<lparr>pc_sys := s, pc_parked := {x \<in> pc_parked c. fst x \<noteq> tid}, pc_missed := pc_missed c - {tid}\<rparr>)"

text \<open>The start of a run: nobody is parked and nothing is to be announced.\<close>

definition park_init :: "'s \<Rightarrow> ('s, 'q) park_cfg" where
  "park_init s = \<lparr>pc_sys = s, pc_due = 0, pc_pending = [], pc_parked = {}, pc_missed = {}\<rparr>"

section \<open>The poll bell as such a system\<close>

text \<open>\<open>ps_ready\<close> holds the descriptors that are ready.\<close>

record poll_sys =
  ps_env :: wait_env
  ps_ready :: "u64 set"

text \<open>The re-scan \<open>ready_now\<close> of a caller that watches the descriptors \<open>ws\<close>.\<close>

definition ready_now :: "u64 list \<Rightarrow> poll_sys \<Rightarrow> bool" where
  "ready_now ws s \<longleftrightarrow> (\<exists>d \<in> set ws. d \<in> ps_ready s)"

definition blocked_tids :: "thread list \<Rightarrow> u64 set" where
  "blocked_tids ths = th_tid ` {t \<in> set ths. th_state t = Blocked}"

definition poll_ok :: "poll_sys \<Rightarrow> bool" where
  "poll_ok s \<longleftrightarrow> tids_ok (we_threads (ps_env s))"

definition poll_queue :: "poll_sys \<Rightarrow> u64 set" where
  "poll_queue s = set (poll_bell (we_bell (ps_env s)))"

definition poll_blocked :: "poll_sys \<Rightarrow> u64 set" where
  "poll_blocked s = blocked_tids (we_threads (ps_env s))"

text \<open>
  A descriptor becomes ready and the writer rings the bell afterwards, or does not ring it; its data is
  consumed; a caller's scan finds one of its descriptors ready; the scheduler tick wakes a thread.
\<close>

inductive poll_change :: "notice \<Rightarrow> poll_sys \<Rightarrow> poll_sys \<Rightarrow> bool" where
  arrive: "poll_change Announced s (s\<lparr>ps_ready := insert d (ps_ready s)\<rparr>)"
| arrive_unrung: "poll_change Unannounced s (s\<lparr>ps_ready := insert d (ps_ready s)\<rparr>)"
| consume: "poll_change Quiet s (s\<lparr>ps_ready := ps_ready s - {d}\<rparr>)"
| scan_ready: "poll_park tid now deadline (ready_now ws s) (ps_env s) = (True, e) \<Longrightarrow>
    poll_change Quiet s (s\<lparr>ps_env := e\<rparr>)"
| tick: "poll_change Quiet s (s\<lparr>ps_env := wake_env cur [tid] (ps_env s)\<rparr>)"

inductive poll_parks :: "u64 \<Rightarrow> u64 list \<Rightarrow> poll_sys \<Rightarrow> poll_sys \<Rightarrow> bool" where
  "poll_park tid now deadline (ready_now ws s) (ps_env s) = (False, e) \<Longrightarrow>
    poll_parks tid ws s (s\<lparr>ps_env := e\<rparr>)"

inductive poll_drains :: "poll_sys \<Rightarrow> u64 list \<Rightarrow> poll_sys \<Rightarrow> bool" where
  "ring_drain src (ps_env s) = (tids, e) \<Longrightarrow> poll_drains s tids (s\<lparr>ps_env := e\<rparr>)"

inductive poll_wakes :: "u64 list \<Rightarrow> poll_sys \<Rightarrow> poll_sys \<Rightarrow> bool" where
  "poll_wakes tids s (s\<lparr>ps_env := wake_env cur tids (ps_env s)\<rparr>)"

inductive poll_resumes :: "u64 \<Rightarrow> poll_sys \<Rightarrow> poll_sys \<Rightarrow> bool" where
  "poll_resumes tid s (s\<lparr>ps_env := poll_resume tid (ps_env s)\<rparr>)"

abbreviation poll_step :: "(poll_sys, u64 list) park_cfg \<Rightarrow> (poll_sys, u64 list) park_cfg \<Rightarrow> bool" where
  "poll_step \<equiv> park_step poll_change poll_parks poll_drains poll_wakes poll_resumes poll_blocked"

section \<open>No wake-up is lost\<close>

lemma notice_simps [simp]: "announce b = Quiet \<longleftrightarrow> \<not> b" "keep_silent b = Quiet \<longleftrightarrow> \<not> b"
  by simp_all

locale parking =
  fixes ok :: "'s \<Rightarrow> bool"
    and ready :: "'q \<Rightarrow> 's \<Rightarrow> bool"
    and queue :: "'s \<Rightarrow> u64 set"
    and blocked :: "'s \<Rightarrow> u64 set"
    and change :: "notice \<Rightarrow> 's \<Rightarrow> 's \<Rightarrow> bool"
    and park :: "u64 \<Rightarrow> 'q \<Rightarrow> 's \<Rightarrow> 's \<Rightarrow> bool"
    and drain :: "'s \<Rightarrow> u64 list \<Rightarrow> 's \<Rightarrow> bool"
    and wake :: "u64 list \<Rightarrow> 's \<Rightarrow> 's \<Rightarrow> bool"
    and resume :: "u64 \<Rightarrow> 's \<Rightarrow> 's \<Rightarrow> bool"
  assumes change_law: "ok s \<Longrightarrow> change a s s' \<Longrightarrow>
        ok s' \<and> (ready q s' \<longrightarrow> a \<noteq> Quiet \<or> ready q s) \<and> queue s' = queue s"
    and park_law: "ok s \<Longrightarrow> park tid q s s' \<Longrightarrow>
        ok s' \<and> \<not> ready q s' \<and> (ready r s' \<longrightarrow> ready r s) \<and>
        queue s' = insert tid (queue s) \<and> blocked s' \<subseteq> insert tid (blocked s)"
    and drain_law: "ok s \<Longrightarrow> drain s tids s' \<Longrightarrow>
        ok s' \<and> set tids = queue s \<and> queue s' = {} \<and> blocked s' = blocked s"
    and wake_law: "ok s \<Longrightarrow> wake tids s s' \<Longrightarrow>
        ok s' \<and> ready q s' = ready q s \<and> queue s' = queue s \<and> blocked s' \<subseteq> blocked s - set tids"
    and resume_law: "ok s \<Longrightarrow> resume tid s s' \<Longrightarrow>
        ok s' \<and> ready q s' = ready q s \<and> queue s' = queue s - {tid} \<and> blocked s' = blocked s"
begin

text \<open>
  While nothing is due, a parked thread that is still queued and has missed nothing is not ready; a
  parked thread that is blocked is queued or about to be woken.
\<close>

definition inv :: "('s, 'q) park_cfg \<Rightarrow> bool" where
  "inv c \<longleftrightarrow> ok (pc_sys c) \<and>
    (\<forall>x \<in> pc_parked c. pc_due c = 0 \<and> fst x \<in> queue (pc_sys c) \<and> fst x \<notin> pc_missed c \<longrightarrow> \<not> ready (snd x) (pc_sys c)) \<and>
    (\<forall>x \<in> pc_parked c. fst x \<in> blocked (pc_sys c) \<longrightarrow> fst x \<in> queue (pc_sys c) \<or> fst x \<in> set (concat (pc_pending c)))"

lemma step_inv:
  assumes "park_step change park drain wake resume blocked c c'" and "inv c"
  shows "inv c'"
  using assms(1)
proof cases
  case (Change a s)
  have "ok (pc_sys c)" using assms(2) by (simp add: inv_def)
  from change_law [OF this Change(2)] Change(1,3) assms(2) show ?thesis unfolding inv_def
    by (cases a) force+
next
  case (Park tid q s)
  have "ok (pc_sys c)" using assms(2) by (simp add: inv_def)
  note law = park_law [OF this Park(2)]
  then have "fst x \<in> blocked (pc_sys c)" if "fst x \<in> blocked s" "fst x \<noteq> tid" for x :: "u64 \<times> 'q"
    using that by blast
  with law Park(1) assms(2) show ?thesis unfolding inv_def by auto
next
  case (Drain tids s)
  have "ok (pc_sys c)" using assms(2) by (simp add: inv_def)
  from drain_law [OF this Drain(3)] Drain(1) assms(2) show ?thesis unfolding inv_def by auto
next
  case (Wake ws1 tids ws2 s)
  have "ok (pc_sys c)" using assms(2) by (simp add: inv_def)
  note law = wake_law [OF this Wake(3)]
  then have "fst x \<in> blocked (pc_sys c) \<and> fst x \<notin> set tids" if "fst x \<in> blocked s" for x :: "u64 \<times> 'q"
    using that by blast
  with law Wake(1,2) assms(2) show ?thesis unfolding inv_def by auto
next
  case (Resume tid s)
  have "ok (pc_sys c)" using assms(2) by (simp add: inv_def)
  from resume_law [OF this Resume(2)] Resume(1) assms(2) show ?thesis unfolding inv_def by auto
qed

lemma run_no_lost_wakeup:
  assumes "(park_step change park drain wake resume blocked)\<^sup>*\<^sup>* (park_init s) c" and "ok s"
    and "pc_due c = 0" and "pc_pending c = []" and "(t, q) \<in> pc_parked c" and "ready q (pc_sys c)"
    and "t \<notin> pc_missed c"
  shows "t \<notin> blocked (pc_sys c)"
proof -
  have "inv (park_init s)" using assms(2) by (simp add: inv_def park_init_def)
  with assms(1) have "inv c" by (induction rule: rtranclp_induct) (blast intro: step_inv)+
  with assms(3-7) show ?thesis unfolding inv_def by force
qed

end

text \<open>Where every change is announced, nothing is missed.\<close>

locale announced_parking = parking +
  assumes change_announced: "change a s s' \<Longrightarrow> a \<noteq> Unannounced"
begin

lemma nothing_missed:
  assumes "(park_step change park drain wake resume blocked)\<^sup>*\<^sup>* (park_init s) c"
  shows "pc_missed c = {}"
  using assms
proof (induction rule: rtranclp_induct)
  case (step c c')
  from step(2,3) show ?case by cases (use change_announced in auto)
qed (simp add: park_init_def)

lemma announced_no_lost_wakeup:
  assumes "(park_step change park drain wake resume blocked)\<^sup>*\<^sup>* (park_init s) c" and "ok s"
    and "pc_due c = 0" and "pc_pending c = []" and "(t, q) \<in> pc_parked c" and "ready q (pc_sys c)"
  shows "t \<notin> blocked (pc_sys c)"
  using run_no_lost_wakeup [OF assms] nothing_missed [OF assms(1)] by simp

end

text \<open>One round of the protocol: a thread parks, the resource becomes ready, the list is drained and woken.\<close>

lemma park_round:
  fixes drain :: "'s \<Rightarrow> u64 list \<Rightarrow> 's \<Rightarrow> bool"
  assumes "park tid q s s1" and "change Announced s1 s2" and "blocked s2 \<subseteq> blocked s1" and "drain s2 tids s3" and "wake tids s3 s4"
  shows "(park_step change park drain wake resume blocked)\<^sup>*\<^sup>* (park_init s)
    \<lparr>pc_sys = s4, pc_due = 0, pc_pending = [], pc_parked = {(tid, q)}, pc_missed = {}\<rparr>"
proof -
  let ?step = "park_step change park drain wake resume blocked"
  have "?step (park_init s) \<lparr>pc_sys = s1, pc_due = 0, pc_pending = [], pc_parked = {(tid, q)}, pc_missed = {}\<rparr>"
    using park_step.Park [of park tid q "park_init s" s1 change drain wake resume blocked] assms(1)
    by (simp add: park_init_def)
  moreover have "?step \<lparr>pc_sys = s1, pc_due = 0, pc_pending = [], pc_parked = {(tid, q)}, pc_missed = {}\<rparr>
      \<lparr>pc_sys = s2, pc_due = 1, pc_pending = [], pc_parked = {(tid, q)}, pc_missed = {}\<rparr>"
    using park_step.Change [of change Announced "\<lparr>pc_sys = s1, pc_due = 0, pc_pending = [], pc_parked = {(tid, q)}, pc_missed = {}\<rparr>" s2 blocked park drain wake resume] assms(2,3)
    by auto
  moreover have "?step \<lparr>pc_sys = s2, pc_due = 1, pc_pending = [], pc_parked = {(tid, q)}, pc_missed = {}\<rparr>
      \<lparr>pc_sys = s3, pc_due = 0, pc_pending = [tids], pc_parked = {(tid, q)}, pc_missed = {}\<rparr>"
    using park_step.Drain [of "\<lparr>pc_sys = s2, pc_due = 1, pc_pending = [], pc_parked = {(tid, q)}, pc_missed = {}\<rparr>" drain tids s3 change park wake resume blocked] assms(4)
    by simp
  moreover have "?step \<lparr>pc_sys = s3, pc_due = 0, pc_pending = [tids], pc_parked = {(tid, q)}, pc_missed = {}\<rparr>
      \<lparr>pc_sys = s4, pc_due = 0, pc_pending = [], pc_parked = {(tid, q)}, pc_missed = {}\<rparr>"
    using park_step.Wake [of "\<lparr>pc_sys = s3, pc_due = 0, pc_pending = [tids], pc_parked = {(tid, q)}, pc_missed = {}\<rparr>" "[]" tids "[]" wake s4 change park drain resume blocked] assms(5)
    by simp
  ultimately show ?thesis by (meson converse_rtranclp_into_rtranclp rtranclp.rtrancl_refl)
qed

section \<open>The laws for the poll bell\<close>

lemma blocked_woken: "blocked_tids (map (woken ts) ths) = blocked_tids ths - set ts"
proof -
  have "th_state (woken ts t) = Blocked \<longleftrightarrow> th_state t = Blocked \<and> th_tid t \<notin> set ts" for t
    by (auto simp: woken_def)
  then have "{t \<in> set (map (woken ts) ths). th_state t = Blocked} =
      woken ts ` {t \<in> set ths. th_state t = Blocked \<and> th_tid t \<notin> set ts}"
    by auto
  then have "blocked_tids (map (woken ts) ths) = th_tid ` woken ts ` {t \<in> set ths. th_state t = Blocked \<and> th_tid t \<notin> set ts}"
    by (simp add: blocked_tids_def)
  also have "\<dots> = th_tid ` {t \<in> set ths. th_state t = Blocked \<and> th_tid t \<notin> set ts}"
    by (simp add: image_image)
  also have "\<dots> = blocked_tids ths - set ts" by (auto simp: blocked_tids_def)
  finally show ?thesis .
qed

lemma blocked_wake_env:
  "tids_ok (we_threads e) \<Longrightarrow> blocked_tids (we_threads (wake_env cur ts e)) = blocked_tids (we_threads e) - set ts"
  by (simp add: wake_env_simps blocked_woken)

lemma blocked_enqueue:
  "tids_ok ths \<Longrightarrow> blocked_tids (snd (enqueue_self_blocked tid w l ths)) \<subseteq> insert tid (blocked_tids ths)"
  by (auto simp: enqueue_self_blocked_def upd_first_tid_map blocked_tids_def)

lemma tids_ok_enqueue: "tids_ok ths \<Longrightarrow> tids_ok (snd (enqueue_self_blocked tid w l ths))"
proof -
  have "map th_tid (snd (enqueue_self_blocked tid w l ths)) = map th_tid ths"
    by (simp add: enqueue_self_blocked_def map_upd_first)
  then show "tids_ok ths \<Longrightarrow> tids_ok (snd (enqueue_self_blocked tid w l ths))" by (simp add: tids_ok_def)
qed

lemma tids_ok_wake_env: "tids_ok (we_threads e) \<Longrightarrow> tids_ok (we_threads (wake_env cur ts e))"
  by (simp add: wake_env_simps tids_ok_woken)

interpretation poll: parking poll_ok ready_now poll_queue poll_blocked poll_change poll_parks poll_drains poll_wakes poll_resumes
proof (unfold_locales, goal_cases)
  case (1 s a s' q)
  from 1(2,1) show ?case
    by cases (auto simp: poll_ok_def poll_queue_def ready_now_def wake_env_simps tids_ok_woken dest: poll_park_True)
next
  case (2 s tid q s' r)
  from 2(2) show ?case
  proof cases
    case (1 now deadline e)
    have "e = (ps_env s)\<lparr>we_bell := (we_bell (ps_env s))\<lparr>poll_bell := poll_bell (we_bell (ps_env s)) @ [tid]\<rparr>,
        we_threads := snd (enqueue_self_blocked tid (min deadline (saturating_add now RESYNC_INTERVAL_TICKS))
          (poll_bell (we_bell (ps_env s))) (we_threads (ps_env s)))\<rparr>" and "\<not> ready_now q s"
      using 1(2) by (auto simp: poll_park_def enqueue_self_blocked_def Let_def split: if_splits)
    with 1(1) 2(1) show ?thesis
      by (auto simp: poll_ok_def ready_now_def poll_queue_def poll_blocked_def tids_ok_enqueue dest: blocked_enqueue [THEN subsetD, rotated])
  qed
next
  case (3 s tids s')
  from 3(2,1) show ?case
    by cases (auto simp: poll_ok_def poll_queue_def poll_blocked_def dest: ring_drain_simps)
next
  case (4 s tids s' q)
  from 4(2,1) show ?case
    by cases (auto simp: poll_ok_def ready_now_def poll_queue_def poll_blocked_def wake_env_simps(1) tids_ok_wake_env blocked_wake_env)
next
  case (5 s tid s' q)
  from 5(2,1) show ?case
    by cases (auto simp: poll_ok_def ready_now_def poll_queue_def poll_blocked_def poll_resume_simps)
qed

text \<open>
  C10: Pollers lose no announced wake-up. In every interleaving of parking pollers (each with the list of
  descriptors it watches), data arriving and being consumed, bell rings in their two critical sections,
  timer wake-ups and cleanups: once a descriptor a poller watches is ready and every ring that was due has
  been delivered, that poller is not blocked on the bell, unless it was parked when a descriptor became
  ready without a ring and the bell has not been rung since.
\<close>

theorem poll_no_lost_wakeup:
  assumes "poll_step\<^sup>*\<^sup>* (park_init s) c" and "poll_ok s"
    and "pc_due c = 0" and "pc_pending c = []" and "ready_now ws (pc_sys c)"
    and "t \<in> set (we_threads (ps_env (pc_sys c)))" and "(th_tid t, ws) \<in> pc_parked c" and "th_tid t \<notin> pc_missed c"
  shows "th_state t \<noteq> Blocked"
  using poll.run_no_lost_wakeup [OF assms(1-4,7,5,8)] assms(6) by (auto simp: poll_blocked_def blocked_tids_def)

theorem poll_no_lost_wakeup_witness:
  "\<exists>s c. poll_ok s \<and> poll_step\<^sup>*\<^sup>* (park_init s) c \<and> pc_parked c = {(1, [3, 4])} \<and>
     ready_now [3, 4] (pc_sys c) \<and> pc_due c = 0 \<and> pc_pending c = [] \<and> pc_missed c = {} \<and>
     (\<forall>t \<in> set (we_threads (ps_env (pc_sys c))). th_tid t = 1 \<longrightarrow> th_state t \<noteq> Blocked)"
proof -
  let ?s0 = "\<lparr>ps_env = demo_env, ps_ready = {}\<rparr>"
  let ?s1 = "?s0\<lparr>ps_env := snd (poll_park 1 5 (- 1) False demo_env)\<rparr>"
  let ?s2 = "?s1\<lparr>ps_ready := insert 4 (ps_ready ?s1)\<rparr>"
  let ?s3 = "?s2\<lparr>ps_env := snd (ring_drain SrcPipe (ps_env ?s2))\<rparr>"
  let ?s4 = "?s3\<lparr>ps_env := wake_env 2 [1] (ps_env ?s3)\<rparr>"
  let ?c = "\<lparr>pc_sys = ?s4, pc_due = 0, pc_pending = [], pc_parked = {(1, [3, 4])}, pc_missed = {}\<rparr>"
  have ok: "poll_ok ?s0"
    by (simp add: poll_ok_def demo_env_def demo_thread_def tids_ok_def)
  have "poll_parks 1 [3, 4] ?s0 ?s1"
    by (rule poll_parks.intros [of 1 5 "- 1"]) (simp add: poll_park_def ready_now_def Let_def split_def)
  moreover have "poll_change Announced ?s1 ?s2" by (rule arrive)
  moreover have "poll_blocked ?s2 \<subseteq> poll_blocked ?s1" by (simp add: poll_blocked_def)
  moreover have "poll_drains ?s2 [1] ?s3"
    by (rule poll_drains.intros [of SrcPipe])
      (simp add: poll_park_def demo_env_def enqueue_self_blocked_def ring_drain_def Let_def split_def)
  moreover have "poll_wakes [1] ?s3 ?s4" by (rule poll_wakes.intros)
  ultimately have run: "poll_step\<^sup>*\<^sup>* (park_init ?s0) ?c" by (rule park_round)
  have "ready_now [3, 4] ?s4" by (simp add: ready_now_def)
  with poll_no_lost_wakeup [OF run ok, of "[3, 4]"] show ?thesis
    by (intro exI [of _ ?s0] exI [of _ ?c]) (use ok run in simp)
qed

end
