(* ===== verification/Pipe_Table.thy ===== *)
theory Pipe_Table
  imports Pipe_Ring Park_Protocol
begin

text \<open>
  The pipe table of \<open>ipc/pipe.rs\<close> with the per-pipe wait lists of readers and writers. A
  function of the source that takes a lock, drops it and takes another is the composition of one
  definition per critical section, so that the interleavings between them can be stated.
  The current thread is an argument; the thread table and the poll bell are the \<open>wait_env\<close>.
  Bytes read are returned instead of being stored through a pointer.
\<close>

section \<open>State\<close>

record pipe_sys =
  pt_pipes :: "pipe list"
  pt_next_id :: u64
  pt_read_waiters :: "(u64, wait_list) btree"
  pt_write_waiters :: "(u64, wait_list) btree"
  pt_env :: wait_env

datatype wait_outcome = WReady | Enqueued | Gone

datatype atomic_write = Wrote | NoSpace | PGone

definition find_pipe :: "u64 \<Rightarrow> pipe_sys \<Rightarrow> pipe option" where
  "find_pipe pipe_id s = List.find (\<lambda>p. p_id p = pipe_id) (pt_pipes s)"

definition put_pipe :: "pipe \<Rightarrow> pipe_sys \<Rightarrow> pipe_sys" where
  "put_pipe p s = s\<lparr>pt_pipes := upd_first (\<lambda>q. p_id q = p_id p) (\<lambda>_. p) (pt_pipes s)\<rparr>"

section \<open>Reading and writing\<close>

definition create_pipe :: "pipe_sys \<Rightarrow> u64 \<times> pipe_sys" where
  "create_pipe s =
     (let i = pt_next_id s
      in (i, s\<lparr>pt_next_id := i + 1, pt_pipes := pt_pipes s @ [pipe_new i]\<rparr>))"

definition pipe_read :: "u64 \<Rightarrow> nat \<Rightarrow> pipe_sys \<Rightarrow> u8 list option \<times> pipe_sys" where
  "pipe_read pipe_id n s =
     (case find_pipe pipe_id s of
        None \<Rightarrow> (None, s)
      | Some p \<Rightarrow> (let (out, p') = ring_read n p in (Some out, put_pipe p' s)))"

definition pipe_write :: "u64 \<Rightarrow> u8 list \<Rightarrow> pipe_sys \<Rightarrow> nat option \<times> pipe_sys" where
  "pipe_write pipe_id data s =
     (case find_pipe pipe_id s of
        None \<Rightarrow> (None, s)
      | Some p \<Rightarrow> (let (n, p') = ring_write data p in (Some n, put_pipe p' s)))"

definition pipe_write_atomic :: "u64 \<Rightarrow> u8 list \<Rightarrow> pipe_sys \<Rightarrow> atomic_write \<times> pipe_sys" where
  "pipe_write_atomic pipe_id data s =
     (case find_pipe pipe_id s of
        None \<Rightarrow> (PGone, s)
      | Some p \<Rightarrow>
          if space p < length data then (NoSpace, s)
          else (let (n, p') = ring_write data p in (Wrote, put_pipe p' s)))"

definition pipe_reader_closed :: "u64 \<Rightarrow> pipe_sys \<Rightarrow> bool" where
  "pipe_reader_closed pipe_id s = (case find_pipe pipe_id s of Some p \<Rightarrow> reader_closed p | None \<Rightarrow> True)"

definition pipe_space :: "u64 \<Rightarrow> pipe_sys \<Rightarrow> nat" where
  "pipe_space pipe_id s = (case find_pipe pipe_id s of Some p \<Rightarrow> space p | None \<Rightarrow> 0)"

definition pipe_capacity :: "u64 \<Rightarrow> pipe_sys \<Rightarrow> nat option" where
  "pipe_capacity pipe_id s = map_option capacity (find_pipe pipe_id s)"

definition pipe_has_data :: "u64 \<Rightarrow> pipe_sys \<Rightarrow> bool" where
  "pipe_has_data pipe_id s = (case find_pipe pipe_id s of Some p \<Rightarrow> has_data p | None \<Rightarrow> False)"

definition pipe_is_eof :: "u64 \<Rightarrow> pipe_sys \<Rightarrow> bool" where
  "pipe_is_eof pipe_id s = (case find_pipe pipe_id s of Some p \<Rightarrow> is_eof p | None \<Rightarrow> True)"

definition pipe_writer_closed :: "u64 \<Rightarrow> pipe_sys \<Rightarrow> bool" where
  "pipe_writer_closed pipe_id s = (case find_pipe pipe_id s of Some p \<Rightarrow> writer_closed p | None \<Rightarrow> True)"

section \<open>Waiting\<close>

definition wait_readable :: "u64 \<Rightarrow> u64 \<Rightarrow> u64 \<Rightarrow> pipe_sys \<Rightarrow> wait_outcome \<times> pipe_sys" where
  "wait_readable tid pipe_id wake_tick s =
     (case find_pipe pipe_id s of
        None \<Rightarrow> (Gone, s)
      | Some p \<Rightarrow>
          if has_data p \<or> writer_closed p then (WReady, s)
          else
            (let (l, ths) = enqueue_self_blocked tid wake_tick (waiters (pt_read_waiters s) pipe_id) (we_threads (pt_env s))
             in (Enqueued, s\<lparr>pt_read_waiters := bt_insert pipe_id l (pt_read_waiters s),
                             pt_env := (pt_env s)\<lparr>we_threads := ths\<rparr>\<rparr>)))"

definition wait_writable :: "u64 \<Rightarrow> u64 \<Rightarrow> nat \<Rightarrow> u64 \<Rightarrow> pipe_sys \<Rightarrow> wait_outcome \<times> pipe_sys" where
  "wait_writable tid pipe_id need wake_tick s =
     (case find_pipe pipe_id s of
        None \<Rightarrow> (Gone, s)
      | Some p \<Rightarrow>
          if need \<le> space p \<or> p_readers p = 0 then (WReady, s)
          else
            (let (l, ths) = enqueue_self_blocked tid wake_tick (waiters (pt_write_waiters s) pipe_id) (we_threads (pt_env s))
             in (Enqueued, s\<lparr>pt_write_waiters := bt_insert pipe_id l (pt_write_waiters s),
                             pt_env := (pt_env s)\<lparr>we_threads := ths\<rparr>\<rparr>)))"

definition drain_readers :: "u64 \<Rightarrow> pipe_sys \<Rightarrow> u64 list \<times> pipe_sys" where
  "drain_readers pipe_id s =
     (let (v, m) = drain_waiters pipe_id (pt_read_waiters s) in (v, s\<lparr>pt_read_waiters := m\<rparr>))"

definition drain_writers :: "u64 \<Rightarrow> pipe_sys \<Rightarrow> u64 list \<times> pipe_sys" where
  "drain_writers pipe_id s =
     (let (v, m) = drain_waiters pipe_id (pt_write_waiters s) in (v, s\<lparr>pt_write_waiters := m\<rparr>))"

definition wake_sys :: "u64 \<Rightarrow> u64 list \<Rightarrow> pipe_sys \<Rightarrow> pipe_sys" where
  "wake_sys cur tids s = s\<lparr>pt_env := wake_env cur tids (pt_env s)\<rparr>"

definition ring_sys :: "u64 \<Rightarrow> pipe_sys \<Rightarrow> pipe_sys" where
  "ring_sys cur s = s\<lparr>pt_env := ring_poll_bell_for SrcPipe cur (pt_env s)\<rparr>"

definition wake_readers_all :: "u64 \<Rightarrow> u64 \<Rightarrow> pipe_sys \<Rightarrow> pipe_sys" where
  "wake_readers_all cur pipe_id s =
     (let (v, s') = drain_readers pipe_id s in ring_sys cur (wake_sys cur v s'))"

definition wake_writers_all :: "u64 \<Rightarrow> u64 \<Rightarrow> pipe_sys \<Rightarrow> pipe_sys" where
  "wake_writers_all cur pipe_id s =
     (let (v, s') = drain_writers pipe_id s in ring_sys cur (wake_sys cur v s'))"

definition waiter_cleanup_reader :: "u64 \<Rightarrow> u64 \<Rightarrow> pipe_sys \<Rightarrow> pipe_sys" where
  "waiter_cleanup_reader pipe_id tid s =
     s\<lparr>pt_read_waiters := cleanup_waiters pipe_id tid (pt_read_waiters s)\<rparr>"

definition waiter_cleanup_writer :: "u64 \<Rightarrow> u64 \<Rightarrow> pipe_sys \<Rightarrow> pipe_sys" where
  "waiter_cleanup_writer pipe_id tid s =
     s\<lparr>pt_write_waiters := cleanup_waiters pipe_id tid (pt_write_waiters s)\<rparr>"

section \<open>Reading with wake-up, the ends of a pipe, resizing\<close>

definition pipe_read_and_wake :: "u64 \<Rightarrow> u64 \<Rightarrow> nat \<Rightarrow> pipe_sys \<Rightarrow> u8 list option \<times> pipe_sys" where
  "pipe_read_and_wake cur pipe_id n s =
     (case pipe_read pipe_id n s of
        (None, s') \<Rightarrow> (None, s')
      | (Some out, s') \<Rightarrow> (Some out, if 0 < length out then wake_writers_all cur pipe_id s' else s'))"

definition pipe_add_writer :: "u64 \<Rightarrow> pipe_sys \<Rightarrow> pipe_sys" where
  "pipe_add_writer pipe_id s =
     (case find_pipe pipe_id s of
        Some p \<Rightarrow> put_pipe (p\<lparr>p_writers := saturating_add (p_writers p) 1\<rparr>) s
      | None \<Rightarrow> s)"

definition pipe_add_reader :: "u64 \<Rightarrow> pipe_sys \<Rightarrow> pipe_sys" where
  "pipe_add_reader pipe_id s =
     (case find_pipe pipe_id s of
        Some p \<Rightarrow> put_pipe (p\<lparr>p_readers := saturating_add (p_readers p) 1\<rparr>) s
      | None \<Rightarrow> s)"

definition close_writer_table :: "u64 \<Rightarrow> pipe_sys \<Rightarrow> bool \<times> pipe_sys" where
  "close_writer_table pipe_id s =
     (case find_pipe pipe_id s of
        Some p \<Rightarrow>
          (let p' = p\<lparr>p_writers := saturating_sub (p_writers p) 1\<rparr> in (p_writers p' = 0, put_pipe p' s))
      | None \<Rightarrow> (False, s))"

definition pipe_close_writer :: "u64 \<Rightarrow> u64 \<Rightarrow> pipe_sys \<Rightarrow> pipe_sys" where
  "pipe_close_writer cur pipe_id s =
     (let (became_eof, s') = close_writer_table pipe_id s
      in if became_eof then wake_writers_all cur pipe_id (wake_readers_all cur pipe_id s') else s')"

definition retain_live :: "pipe_sys \<Rightarrow> pipe_sys" where
  "retain_live s = s\<lparr>pt_pipes := filter (\<lambda>p. 0 < p_readers p \<or> 0 < p_writers p) (pt_pipes s)\<rparr>"

definition close_reader_table :: "u64 \<Rightarrow> pipe_sys \<Rightarrow> bool \<times> pipe_sys" where
  "close_reader_table pipe_id s =
     (let (result, s') =
        (case find_pipe pipe_id s of
           Some p \<Rightarrow>
             (let p' = p\<lparr>p_readers := saturating_sub (p_readers p) 1\<rparr> in (p_readers p' = 0, put_pipe p' s))
         | None \<Rightarrow> (False, s))
      in (result, retain_live s'))"

definition pipe_close_reader :: "u64 \<Rightarrow> u64 \<Rightarrow> pipe_sys \<Rightarrow> pipe_sys" where
  "pipe_close_reader cur pipe_id s =
     (let (no_readers, s') = close_reader_table pipe_id s
      in if no_readers then wake_readers_all cur pipe_id (wake_writers_all cur pipe_id s') else s')"

definition set_capacity_table :: "u64 \<Rightarrow> nat \<Rightarrow> pipe_sys \<Rightarrow> (pipe_errno + nat) \<times> bool \<times> pipe_sys" where
  "set_capacity_table pipe_id want s =
     (case find_pipe pipe_id s of
        None \<Rightarrow> (Inl EBADF, False, s)
      | Some p \<Rightarrow>
          (let before = capacity p;
               (res, p') = set_capacity want p;
               grew = (case res of Inr c \<Rightarrow> before < c | Inl _ \<Rightarrow> False)
           in (res, grew, put_pipe p' s)))"

definition pipe_set_capacity :: "u64 \<Rightarrow> u64 \<Rightarrow> nat \<Rightarrow> pipe_sys \<Rightarrow> (pipe_errno + nat) \<times> pipe_sys" where
  "pipe_set_capacity cur pipe_id want s =
     (let (res, grew, s') = set_capacity_table pipe_id want s
      in (res, if grew then wake_writers_all cur pipe_id s' else s'))"

section \<open>Draining a console pipe\<close>

lemma length_read_loop [simp]: "length (fst (read_loop n buf pos)) = n"
  by (induction n buf pos rule: read_loop.induct) (simp_all add: split_def Let_def)

lemma length_ring_read [simp]: "length (fst (ring_read n p)) = min n (p_count p)"
  by (simp add: ring_read_def Let_def split_def)

lemma ring_read_simps [simp]:
  "p_id (snd (ring_read n p)) = p_id p" "p_count (snd (ring_read n p)) = p_count p - min n (p_count p)"
  "p_writers (snd (ring_read n p)) = p_writers p" "p_readers (snd (ring_read n p)) = p_readers p"
  "length (p_buffer (snd (ring_read n p))) = length (p_buffer p)"
  by (simp_all add: ring_read_def Let_def split_def)

lemma find_put_pipe:
  "find_pipe (p_id p) s = Some q \<Longrightarrow> find_pipe k (put_pipe p s) = (if k = p_id p then Some p else find_pipe k s)"
proof -
  have "List.find (\<lambda>q. p_id q = p_id p) ps = Some q \<Longrightarrow>
      List.find (\<lambda>q. p_id q = k) (upd_first (\<lambda>q. p_id q = p_id p) (\<lambda>_. p) ps) =
      (if k = p_id p then Some p else List.find (\<lambda>q. p_id q = k) ps)" for ps
    by (induction ps) auto
  then show "find_pipe (p_id p) s = Some q \<Longrightarrow> find_pipe k (put_pipe p s) = (if k = p_id p then Some p else find_pipe k s)"
    by (simp add: find_pipe_def put_pipe_def)
qed

lemma find_pipe_id: "find_pipe k s = Some p \<Longrightarrow> p_id p = k"
  using find_Some_in by (fastforce simp: find_pipe_def)

lemma pipe_read_Some:
  assumes "pipe_read k n s = (Some out, s')"
  obtains p where "find_pipe k s = Some p" and "out = fst (ring_read n p)" and "s' = put_pipe (snd (ring_read n p)) s"
    and "p_id p = k" and "find_pipe k s' = Some (snd (ring_read n p))"
proof (cases "find_pipe k s")
  case (Some p)
  with find_pipe_id [OF Some] assms that show ?thesis
    by (auto simp: pipe_read_def split_def Let_def find_put_pipe [of "snd (ring_read n p)" s p])
qed (use assms in \<open>simp add: pipe_read_def\<close>)

text \<open>
  The loop of \<open>pipe_drain_console\<close>: each pass reads up to one scratch buffer and throws the bytes
  away; the number of unread bytes bounds the passes.
\<close>

function drain_console_loop :: "u64 \<Rightarrow> nat \<Rightarrow> pipe_sys \<Rightarrow> nat \<times> pipe_sys" where
  "drain_console_loop pipe_id tot s =
     (case pipe_read pipe_id PIPE_BUF_SIZE s of
        (None, s') \<Rightarrow> (tot, s')
      | (Some out, s') \<Rightarrow>
          if out = [] then (tot, s')
          else if length out < PIPE_BUF_SIZE then (tot + length out, s')
          else drain_console_loop pipe_id (tot + length out) s')"
  by pat_completeness auto

termination
proof (relation "measure (\<lambda>(i, t, s). case find_pipe i s of Some p \<Rightarrow> p_count p | None \<Rightarrow> 0)", goal_cases)
  case (2 i t s x s' out)
  then have "pipe_read i PIPE_BUF_SIZE s = (Some out, s')" by simp
  then show ?case by (rule pipe_read_Some) (use 2 in auto)
qed simp

declare drain_console_loop.simps [simp del]

definition pipe_drain_console :: "u64 \<Rightarrow> pipe_sys \<Rightarrow> nat \<times> pipe_sys" where
  "pipe_drain_console pipe_id s = drain_console_loop pipe_id 0 s"

end
