(* ===== verification/Pipe_Wait.thy ===== *)
theory Pipe_Wait
  imports Pipe_Table
begin

text \<open>
  Blocking on a pipe: the invariant of the pipe table, the critical sections of the pipe
  operations as one relation with the announcements each owes to the parked readers and writers,
  and the two interpretations of the parking protocol, for readers and for writers that wait for
  a given amount of room.
\<close>

section \<open>Invariant and sections\<close>

definition pipes_ok :: "pipe_sys \<Rightarrow> bool" where
  "pipes_ok s \<longleftrightarrow> distinct (map p_id (pt_pipes s)) \<and>
     (\<forall>p \<in> set (pt_pipes s). pipe_ok p \<and> p_id p < pt_next_id s) \<and> tids_ok (we_threads (pt_env s))"

definition can_read :: "u64 \<Rightarrow> pipe_sys \<Rightarrow> bool" where
  "can_read k s = (case find_pipe k s of None \<Rightarrow> True | Some p \<Rightarrow> has_data p \<or> writer_closed p)"

definition can_write :: "u64 \<Rightarrow> nat \<Rightarrow> pipe_sys \<Rightarrow> bool" where
  "can_write k need s = (case find_pipe k s of None \<Rightarrow> True | Some p \<Rightarrow> need \<le> space p \<or> p_readers p = 0)"

definition sys_blocked :: "pipe_sys \<Rightarrow> u64 set" where
  "sys_blocked s = blocked_tids (we_threads (pt_env s))"

definition read_queue :: "u64 \<Rightarrow> pipe_sys \<Rightarrow> u64 set" where
  "read_queue k s = set (waiters (pt_read_waiters s) k)"

definition write_queue :: "u64 \<Rightarrow> pipe_sys \<Rightarrow> u64 set" where
  "write_queue k s = set (waiters (pt_write_waiters s) k)"

text \<open>
  \<open>pipe_section k ar aw s s'\<close>: a critical section on the pipe table, with the notices its caller gives to
  the readers and to the writers of pipe \<open>k\<close>, by calling \<open>wake_readers_all\<close> and \<open>wake_writers_all\<close>. The read
  system calls and the terminal go through \<open>pipe_read_and_wake\<close>, which announces the space it frees;
  \<open>pipe_drain_console\<close> and the demonstration programs call \<open>pipe_read\<close> and announce nothing. The blocking
  write announces the bytes it stores; \<open>sendfile\<close> and the native write system call use \<open>pipe_write\<close> and
  announce nothing. Pipe ids are not reused: the 64-bit counter does not wrap.
\<close>

inductive pipe_section :: "u64 \<Rightarrow> notice \<Rightarrow> notice \<Rightarrow> pipe_sys \<Rightarrow> pipe_sys \<Rightarrow> bool" for k where
  creating: "pt_next_id s < - 1 \<Longrightarrow> create_pipe s = (i, s') \<Longrightarrow> pipe_section k Quiet Quiet s s'"
| reading: "pipe_read j n s = (Some out, s') \<Longrightarrow> pipe_section k Quiet (announce (j = k \<and> 0 < length out)) s s'"
| reading_only: "pipe_read j n s = (Some out, s') \<Longrightarrow> pipe_section k Quiet (keep_silent (j = k \<and> 0 < length out)) s s'"
| writing: "pipe_write j d s = (Some n, s') \<Longrightarrow> pipe_section k (announce (j = k \<and> 0 < n)) Quiet s s'"
| writing_only: "pipe_write j d s = (Some n, s') \<Longrightarrow> pipe_section k (keep_silent (j = k \<and> 0 < n)) Quiet s s'"
| writing_atomic: "pipe_write_atomic j d s = (Wrote, s') \<Longrightarrow> pipe_section k (announce (j = k)) Quiet s s'"
| adding_writer: "pipe_section k Quiet Quiet s (pipe_add_writer j s)"
| adding_reader: "pipe_section k Quiet Quiet s (pipe_add_reader j s)"
| closing_writer: "close_writer_table j s = (b, s') \<Longrightarrow> pipe_section k (announce (j = k \<and> b)) (announce (j = k \<and> b)) s s'"
| closing_reader: "close_reader_table j s = (b, s') \<Longrightarrow> pipe_section k (announce (j = k \<and> b)) (announce (j = k \<and> b)) s s'"
| resizing: "set_capacity_table j want s = (res, grew, s') \<Longrightarrow> pipe_section k Quiet (announce (j = k \<and> grew)) s s'"
| waking: "pipe_section k Quiet Quiet s (wake_sys cur tids s)"
| ringing: "pipe_section k Quiet Quiet s (ring_sys cur s)"

text \<open>The other sections, as seen by the readers and by the writers of pipe \<open>k\<close>.\<close>

inductive reader_change :: "u64 \<Rightarrow> notice \<Rightarrow> pipe_sys \<Rightarrow> pipe_sys \<Rightarrow> bool" for k where
  "pipe_section k a aw s s' \<Longrightarrow> reader_change k a s s'"
| "wait_readable tid j w s = (r, s') \<Longrightarrow> j \<noteq> k \<or> r \<noteq> Enqueued \<Longrightarrow> reader_change k Quiet s s'"
| "wait_writable tid j need w s = (r, s') \<Longrightarrow> reader_change k Quiet s s'"
| "drain_writers j s = (v, s') \<Longrightarrow> reader_change k Quiet s s'"
| "j \<noteq> k \<Longrightarrow> drain_readers j s = (v, s') \<Longrightarrow> reader_change k Quiet s s'"
| "reader_change k Quiet s (waiter_cleanup_writer j tid s)"
| "j \<noteq> k \<Longrightarrow> reader_change k Quiet s (waiter_cleanup_reader j tid s)"

inductive writer_change :: "u64 \<Rightarrow> notice \<Rightarrow> pipe_sys \<Rightarrow> pipe_sys \<Rightarrow> bool" for k where
  "pipe_section k ar a s s' \<Longrightarrow> writer_change k a s s'"
| "wait_writable tid j need w s = (r, s') \<Longrightarrow> j \<noteq> k \<or> r \<noteq> Enqueued \<Longrightarrow> writer_change k Quiet s s'"
| "wait_readable tid j w s = (r, s') \<Longrightarrow> writer_change k Quiet s s'"
| "drain_readers j s = (v, s') \<Longrightarrow> writer_change k Quiet s s'"
| "j \<noteq> k \<Longrightarrow> drain_writers j s = (v, s') \<Longrightarrow> writer_change k Quiet s s'"
| "writer_change k Quiet s (waiter_cleanup_reader j tid s)"
| "j \<noteq> k \<Longrightarrow> writer_change k Quiet s (waiter_cleanup_writer j tid s)"

inductive reader_parks :: "u64 \<Rightarrow> u64 \<Rightarrow> unit \<Rightarrow> pipe_sys \<Rightarrow> pipe_sys \<Rightarrow> bool" for k where
  "wait_readable tid k w s = (Enqueued, s') \<Longrightarrow> reader_parks k tid () s s'"

inductive writer_parks :: "u64 \<Rightarrow> u64 \<Rightarrow> nat \<Rightarrow> pipe_sys \<Rightarrow> pipe_sys \<Rightarrow> bool" for k where
  "wait_writable tid k need w s = (Enqueued, s') \<Longrightarrow> writer_parks k tid need s s'"

definition drains_readers :: "u64 \<Rightarrow> pipe_sys \<Rightarrow> u64 list \<Rightarrow> pipe_sys \<Rightarrow> bool" where
  "drains_readers k s tids s' \<longleftrightarrow> drain_readers k s = (tids, s')"

definition drains_writers :: "u64 \<Rightarrow> pipe_sys \<Rightarrow> u64 list \<Rightarrow> pipe_sys \<Rightarrow> bool" where
  "drains_writers k s tids s' \<longleftrightarrow> drain_writers k s = (tids, s')"

definition sys_wakes :: "u64 list \<Rightarrow> pipe_sys \<Rightarrow> pipe_sys \<Rightarrow> bool" where
  "sys_wakes tids s s' \<longleftrightarrow> (\<exists>cur. s' = wake_sys cur tids s)"

definition resumes_reader :: "u64 \<Rightarrow> u64 \<Rightarrow> pipe_sys \<Rightarrow> pipe_sys \<Rightarrow> bool" where
  "resumes_reader k tid s s' \<longleftrightarrow> s' = waiter_cleanup_reader k tid s"

definition resumes_writer :: "u64 \<Rightarrow> u64 \<Rightarrow> pipe_sys \<Rightarrow> pipe_sys \<Rightarrow> bool" where
  "resumes_writer k tid s s' \<longleftrightarrow> s' = waiter_cleanup_writer k tid s"

abbreviation reader_step :: "u64 \<Rightarrow> (pipe_sys, unit) park_cfg \<Rightarrow> (pipe_sys, unit) park_cfg \<Rightarrow> bool" where
  "reader_step k \<equiv> park_step (reader_change k) (reader_parks k) (drains_readers k) sys_wakes (resumes_reader k) sys_blocked"

abbreviation writer_step :: "u64 \<Rightarrow> (pipe_sys, nat) park_cfg \<Rightarrow> (pipe_sys, nat) park_cfg \<Rightarrow> bool" where
  "writer_step k \<equiv> park_step (writer_change k) (writer_parks k) (drains_writers k) sys_wakes (resumes_writer k) sys_blocked"

definition demo_pipes :: "nat \<Rightarrow> pipe_sys" where
  "demo_pipes n = \<lparr>pt_pipes = [(pipe_new 1)\<lparr>p_count := n, p_write_pos := n mod PIPE_DEFAULT_CAPACITY\<rparr>], pt_next_id = 2,
     pt_read_waiters = [], pt_write_waiters = [], pt_env = demo_env\<rparr>"

text \<open>What a section must keep: the invariant, the wait lists, and readiness unless it is announced.\<close>

definition section_ok :: "u64 \<Rightarrow> bool \<Rightarrow> bool \<Rightarrow> pipe_sys \<Rightarrow> pipe_sys \<Rightarrow> bool" where
  "section_ok k ar aw s s' \<longleftrightarrow> pipes_ok s' \<and> (can_read k s' \<longrightarrow> ar \<or> can_read k s) \<and>
     (\<forall>need. can_write k need s' \<longrightarrow> aw \<or> can_write k need s) \<and>
     pt_read_waiters s' = pt_read_waiters s \<and> pt_write_waiters s' = pt_write_waiters s"

section \<open>Sections and the invariant\<close>

lemma find_pipe_in: "find_pipe k s = Some p \<Longrightarrow> p \<in> set (pt_pipes s) \<and> p_id p = k"
  using find_Some_in by (fastforce simp: find_pipe_def)

lemma put_pipe_fields [simp]:
  "pt_next_id (put_pipe p s) = pt_next_id s" "pt_env (put_pipe p s) = pt_env s"
  "pt_read_waiters (put_pipe p s) = pt_read_waiters s" "pt_write_waiters (put_pipe p s) = pt_write_waiters s"
  "map p_id (pt_pipes (put_pipe p s)) = map p_id (pt_pipes s)"
  by (simp_all add: put_pipe_def map_upd_first)

lemma set_upd_first_subset: "set (upd_first P (\<lambda>_. p) xs) \<subseteq> insert p (set xs)"
  by (induction xs) auto

lemma put_pipe_ok:
  assumes "pipes_ok s" "find_pipe (p_id p) s = Some q" "pipe_ok p"
  shows "pipes_ok (put_pipe p s)"
proof -
  have "p_id p < pt_next_id s" using assms(1,2) find_pipe_in [OF assms(2)] by (auto simp: pipes_ok_def)
  moreover have "set (pt_pipes (put_pipe p s)) \<subseteq> insert p (set (pt_pipes s))"
    using set_upd_first_subset by (fastforce simp: put_pipe_def)
  ultimately show ?thesis using assms(1,3) unfolding pipes_ok_def by auto
qed

lemma find_retain_live:
  "distinct (map p_id (pt_pipes s)) \<Longrightarrow> find_pipe k (retain_live s) =
     (case find_pipe k s of Some p \<Rightarrow> if 0 < p_readers p \<or> 0 < p_writers p then Some p else None | None \<Rightarrow> None)"
proof -
  have "distinct (map p_id ps) \<Longrightarrow> List.find (\<lambda>p. p_id p = k) (filter (\<lambda>p. 0 < p_readers p \<or> 0 < p_writers p) ps) =
      (case List.find (\<lambda>p. p_id p = k) ps of Some p \<Rightarrow> if 0 < p_readers p \<or> 0 < p_writers p then Some p else None | None \<Rightarrow> None)" for ps
  proof (induction ps)
    case (Cons p ps)
    have "\<forall>q \<in> set ps. p_id q \<noteq> p_id p" using Cons.prems by (metis distinct.simps(2) image_eqI list.set_map list.simps(9))
    then have "List.find (\<lambda>q. p_id q = p_id p) ps = None" by (simp add: find_None)
    with Cons show ?case by (cases "p_id p = k") auto
  qed simp
  then show "distinct (map p_id (pt_pipes s)) \<Longrightarrow> ?thesis" by (simp add: find_pipe_def retain_live_def)
qed

lemma retain_live_ok: "pipes_ok s \<Longrightarrow> pipes_ok (retain_live s)"
  by (simp add: pipes_ok_def retain_live_def distinct_map_filter)

lemma found_ok: "pipes_ok s \<Longrightarrow> find_pipe k s = Some p \<Longrightarrow> pipe_ok p \<and> p_id p = k"
  using find_pipe_in [of k s p] by (auto simp: pipes_ok_def)

lemma section_put:
  assumes "pipes_ok s" "find_pipe j s = Some p" "pipe_ok p'" "p_id p' = j"
    and "has_data p' \<or> writer_closed p' \<Longrightarrow> ar \<or> has_data p \<or> writer_closed p"
    and "\<And>need. need \<le> space p' \<or> p_readers p' = 0 \<Longrightarrow> aw \<or> need \<le> space p \<or> p_readers p = 0"
  shows "section_ok k (j = k \<and> ar) (j = k \<and> aw) s (put_pipe p' s)"
proof -
  have f: "find_pipe k (put_pipe p' s) = (if k = j then Some p' else find_pipe k s)"
    using find_put_pipe [of p' s p k] assms(2,4) by simp
  have "pipes_ok (put_pipe p' s)" using put_pipe_ok [of s p' p] assms by simp
  moreover have "can_read k (put_pipe p' s) \<longrightarrow> (j = k \<and> ar) \<or> can_read k s"
    using assms(2,5) by (auto simp: can_read_def f)
  moreover have "can_write k need (put_pipe p' s) \<longrightarrow> (j = k \<and> aw) \<or> can_write k need s" for need
    using assms(2) assms(6) [of need] by (auto simp: can_write_def f)
  ultimately show ?thesis by (simp add: section_ok_def)
qed

lemma section_refl: "pipes_ok s \<Longrightarrow> section_ok k ar aw s s"
  by (simp add: section_ok_def)

lemma section_reading:
  assumes "pipes_ok s" "pipe_read j n s = (Some out, s')"
  shows "section_ok k False (j = k \<and> 0 < length out) s s'"
  using assms(2)
proof (rule pipe_read_Some)
  fix p assume p: "find_pipe j s = Some p" "out = fst (ring_read n p)" "s' = put_pipe (snd (ring_read n p)) s" "p_id p = j"
  have "section_ok k (j = k \<and> False) (j = k \<and> 0 < length out) s s'"
    unfolding p(3)
    by (rule section_put [OF assms(1) p(1)])
      (use found_ok [OF assms(1) p(1)] p(2) in \<open>auto simp: ring_read_ok has_data_def writer_closed_def space_def\<close>)
  then show ?thesis by simp
qed

lemma ring_write_simps [simp]:
  "p_id (snd (ring_write d p)) = p_id p"
  "fst (ring_write d p) = min (length d) (space p)"
  "p_count (snd (ring_write d p)) = p_count p + min (length d) (space p)"
  "p_writers (snd (ring_write d p)) = p_writers p" "p_readers (snd (ring_write d p)) = p_readers p"
  by (simp_all add: ring_write_def space_def Let_def split_def)

lemma section_write:
  assumes "pipes_ok s" "find_pipe j s = Some p" "0 < min (length d) (space p) \<Longrightarrow> ar"
  shows "section_ok k (j = k \<and> ar) (j = k \<and> False) s (put_pipe (snd (ring_write d p)) s)"
  by (rule section_put [OF assms(1,2)])
    (use found_ok [OF assms(1,2)] assms(3) in \<open>auto simp: ring_write_ok has_data_def writer_closed_def space_def\<close>)

lemma section_writing:
  "pipes_ok s \<Longrightarrow> pipe_write j d s = (Some n, s') \<Longrightarrow> section_ok k (j = k \<and> 0 < n) False s s'"
  using section_write [of s j _ d "0 < n" k]
  by (auto simp: pipe_write_def split_def Let_def split: option.splits)

lemma section_writing_atomic:
  "pipes_ok s \<Longrightarrow> pipe_write_atomic j d s = (Wrote, s') \<Longrightarrow> section_ok k (j = k) False s s'"
  using section_write [of s j _ d True k]
  by (auto simp: pipe_write_atomic_def split_def Let_def split: option.splits if_splits)

lemma pipe_ok_ends [simp]: "pipe_ok (p\<lparr>p_writers := w\<rparr>) = pipe_ok p" "pipe_ok (p\<lparr>p_readers := r\<rparr>) = pipe_ok p"
  by (simp_all add: pipe_ok_def)

lemma saturating_add_1_neq_0 [simp]: "saturating_add x 1 \<noteq> (0 :: 'a::len word)"
proof
  assume "saturating_add x 1 = (0 :: 'a word)"
  then have "min (unat x + unat (1 :: 'a word)) (2 ^ LENGTH('a) - 1) = 0"
    using unat_saturating_add [of x 1] by simp
  moreover have "(1::nat) < 2 ^ LENGTH('a)" by (rule one_less_power) simp_all
  ultimately show False by (simp add: min_def split: if_splits)
qed

lemma section_adding:
  "pipes_ok s \<Longrightarrow> section_ok k False False s (pipe_add_writer j s)"
  "pipes_ok s \<Longrightarrow> section_ok k False False s (pipe_add_reader j s)"
proof -
  assume ok: "pipes_ok s"
  show "section_ok k False False s (pipe_add_writer j s)"
  proof (cases "find_pipe j s")
    case (Some p)
    have "section_ok k (j = k \<and> False) (j = k \<and> False) s (put_pipe (p\<lparr>p_writers := saturating_add (p_writers p) 1\<rparr>) s)"
      by (rule section_put [OF ok Some]) (use found_ok [OF ok Some] in \<open>auto simp: has_data_def writer_closed_def space_def\<close>)
    then show ?thesis by (simp add: pipe_add_writer_def Some)
  qed (simp add: pipe_add_writer_def section_refl ok)
  show "section_ok k False False s (pipe_add_reader j s)"
  proof (cases "find_pipe j s")
    case (Some p)
    have "section_ok k (j = k \<and> False) (j = k \<and> False) s (put_pipe (p\<lparr>p_readers := saturating_add (p_readers p) 1\<rparr>) s)"
      by (rule section_put [OF ok Some]) (use found_ok [OF ok Some] in \<open>auto simp: has_data_def writer_closed_def space_def\<close>)
    then show ?thesis by (simp add: pipe_add_reader_def Some)
  qed (simp add: pipe_add_reader_def section_refl ok)
qed

lemma section_trans:
  "section_ok k a1 w1 s s1 \<Longrightarrow> section_ok k a2 w2 s1 s2 \<Longrightarrow> section_ok k (a1 \<or> a2) (w1 \<or> w2) s s2"
  unfolding section_ok_def by auto

lemma section_mono:
  "section_ok k a1 w1 s s' \<Longrightarrow> (a1 \<Longrightarrow> a2) \<Longrightarrow> (w1 \<Longrightarrow> w2) \<Longrightarrow> section_ok k a2 w2 s s'"
  unfolding section_ok_def by auto

lemma section_retain: "pipes_ok s \<Longrightarrow> section_ok k False False s (retain_live s)"
proof -
  assume ok: "pipes_ok s"
  then have f: "find_pipe k (retain_live s) =
     (case find_pipe k s of Some p \<Rightarrow> if 0 < p_readers p \<or> 0 < p_writers p then Some p else None | None \<Rightarrow> None)"
    by (intro find_retain_live) (simp add: pipes_ok_def)
  have "can_read k (retain_live s) \<longrightarrow> can_read k s"
    by (auto simp: can_read_def f writer_closed_def word_gt_0 split: option.splits)
  moreover have "can_write k need (retain_live s) \<longrightarrow> can_write k need s" for need
    by (auto simp: can_write_def f word_gt_0 split: option.splits)
  ultimately show ?thesis using retain_live_ok [OF ok] by (simp add: section_ok_def) (simp add: retain_live_def)
qed

lemma section_closing_writer:
  assumes "pipes_ok s" "close_writer_table j s = (b, s')"
  shows "section_ok k (j = k \<and> b) (j = k \<and> b) s s'"
proof (cases "find_pipe j s")
  case (Some p)
  let ?p = "p\<lparr>p_writers := saturating_sub (p_writers p) 1\<rparr>"
  have "b = (p_writers ?p = 0)" "s' = put_pipe ?p s"
    using assms(2) Some by (auto simp: close_writer_table_def Let_def)
  moreover have "section_ok k (j = k \<and> p_writers ?p = 0) (j = k \<and> p_writers ?p = 0) s (put_pipe ?p s)"
    by (rule section_put [OF assms(1) Some])
      (use found_ok [OF assms(1) Some] in \<open>auto simp: has_data_def writer_closed_def space_def\<close>)
  ultimately show ?thesis by simp
qed (use assms in \<open>simp add: close_writer_table_def section_refl\<close>)

lemma section_closing_reader:
  assumes "pipes_ok s" "close_reader_table j s = (b, s')"
  shows "section_ok k (j = k \<and> b) (j = k \<and> b) s s'"
proof (cases "find_pipe j s")
  case (Some p)
  let ?p = "p\<lparr>p_readers := saturating_sub (p_readers p) 1\<rparr>"
  have s': "b = (p_readers ?p = 0)" "s' = retain_live (put_pipe ?p s)"
    using assms(2) Some by (auto simp: close_reader_table_def Let_def)
  have "section_ok k (j = k \<and> p_readers ?p = 0) (j = k \<and> p_readers ?p = 0) s (put_pipe ?p s)"
    by (rule section_put [OF assms(1) Some])
      (use found_ok [OF assms(1) Some] in \<open>auto simp: has_data_def writer_closed_def space_def\<close>)
  moreover from this have "pipes_ok (put_pipe ?p s)" by (simp add: section_ok_def)
  ultimately show ?thesis using section_trans [OF _ section_retain] s' by fastforce
qed (use assms section_retain [OF assms(1), of k] in \<open>auto simp: close_reader_table_def\<close>)

lemma section_resizing:
  assumes "pipes_ok s" "set_capacity_table j want s = (res, grew, s')"
  shows "section_ok k False (j = k \<and> grew) s s'"
proof (cases "find_pipe j s")
  case (Some p)
  obtain r p' where r: "set_capacity want p = (r, p')" by fastforce
  have ok: "pipe_ok p" "p_id p = j" using found_ok [OF assms(1) Some] by auto
  have s': "s' = put_pipe p' s" "grew = (case r of Inr c \<Rightarrow> capacity p < c | Inl _ \<Rightarrow> False)"
    using assms(2) Some r by (auto simp: set_capacity_table_def)
  have same: "p_id p' = p_id p" "p_count p' = p_count p" "p_writers p' = p_writers p" "p_readers p' = p_readers p"
    using r by (auto simp: set_capacity_def Let_def split: option.splits if_splits)
  have cap: "pipe_ok p' \<and> (capacity p' \<le> capacity p \<or> grew)"
  proof (cases r)
    case (Inl e)
    then show ?thesis using r ok by (auto simp: set_capacity_def Let_def split: option.splits if_splits)
  next
    case (Inr c)
    then show ?thesis using set_capacity_Inr [OF ok(1)] r s'(2) by auto
  qed
  have "section_ok k (j = k \<and> False) (j = k \<and> grew) s (put_pipe p' s)"
    by (rule section_put [OF assms(1) Some])
      (use same ok cap in \<open>auto simp: has_data_def writer_closed_def space_def capacity_def\<close>)
  then show ?thesis using s' by simp
qed (use assms in \<open>simp add: set_capacity_table_def section_refl\<close>)

lemma section_creating:
  assumes "pipes_ok s" "pt_next_id s < - 1" "create_pipe s = (i, s')"
  shows "section_ok k False False s s'"
proof -
  have s': "s' = s\<lparr>pt_next_id := pt_next_id s + 1, pt_pipes := pt_pipes s @ [pipe_new (pt_next_id s)]\<rparr>"
    using assms(3) by (auto simp: create_pipe_def Let_def)
  have "unat (pt_next_id s) < 2 ^ 64 - 1" using assms(2) by (simp add: word_less_nat_alt unat_all_ones)
  then have lt: "pt_next_id s < pt_next_id s + 1" by (simp add: word_less_nat_alt unat_add_u64)
  have fresh: "\<forall>p \<in> set (pt_pipes s). p_id p < pt_next_id s" using assms(1) by (simp add: pipes_ok_def)
  have "pipes_ok s'"
    using assms(1) fresh lt unfolding s' pipes_ok_def
    by (auto simp: pipe_ok_new) (auto simp: pipe_new_def)
  moreover have "find_pipe k s = None \<or> find_pipe k s' = find_pipe k s"
  proof -
    have "List.find P (xs @ ys) = (case List.find P xs of Some x \<Rightarrow> Some x | None \<Rightarrow> List.find P ys)" for P :: "pipe \<Rightarrow> bool" and xs ys
      by (induction xs) auto
    then show ?thesis by (auto simp: find_pipe_def s' split: option.splits)
  qed
  ultimately show ?thesis
    by (auto simp: section_ok_def can_read_def can_write_def) (simp_all add: s')
qed

lemma sys_wake_simps:
  "pipes_ok s \<Longrightarrow> pipes_ok (wake_sys cur tids s)" "pt_pipes (wake_sys cur tids s) = pt_pipes s"
  "pt_read_waiters (wake_sys cur tids s) = pt_read_waiters s" "pt_write_waiters (wake_sys cur tids s) = pt_write_waiters s"
  by (simp_all add: wake_sys_def pipes_ok_def tids_ok_wake_env)

lemma sys_ring_simps:
  "pipes_ok s \<Longrightarrow> pipes_ok (ring_sys cur s)" "pt_pipes (ring_sys cur s) = pt_pipes s"
  "pt_read_waiters (ring_sys cur s) = pt_read_waiters s" "pt_write_waiters (ring_sys cur s) = pt_write_waiters s"
proof -
  have "tids_ok (we_threads e) \<Longrightarrow> tids_ok (we_threads (ring_poll_bell_for src cur e))" for src e
    using ring_drain_simps(3) [of src e "fst (ring_drain src e)" "snd (ring_drain src e)"]
    by (simp add: ring_poll_bell_for_def split_def Let_def tids_ok_wake_env)
  then show "pipes_ok s \<Longrightarrow> pipes_ok (ring_sys cur s)" by (simp add: ring_sys_def pipes_ok_def)
qed (simp_all add: ring_sys_def)

lemma same_pipes: "pt_pipes s' = pt_pipes s \<Longrightarrow> can_read k s' = can_read k s \<and> can_write k need s' = can_write k need s"
  by (simp add: can_read_def can_write_def find_pipe_def)

lemma section_same:
  "pipes_ok s' \<Longrightarrow> pt_pipes s' = pt_pipes s \<Longrightarrow> pt_read_waiters s' = pt_read_waiters s \<Longrightarrow>
     pt_write_waiters s' = pt_write_waiters s \<Longrightarrow> section_ok k False False s s'"
  by (simp add: section_ok_def can_read_def can_write_def find_pipe_def)

lemma section_law:
  assumes "pipe_section k ar aw s s'" "pipes_ok s"
  shows "section_ok k (ar \<noteq> Quiet) (aw \<noteq> Quiet) s s'"
  using assms(1)
proof cases
  case (creating i) with section_creating [OF assms(2), of i s' k] show ?thesis by simp
next
  case (reading j n out) with section_reading [OF assms(2), of j n out s' k] show ?thesis by simp
next
  case (reading_only j n out) with section_reading [OF assms(2), of j n out s' k] show ?thesis by simp
next
  case (writing j d n) with section_writing [OF assms(2), of j d n s' k] show ?thesis by simp
next
  case (writing_only j d n) with section_writing [OF assms(2), of j d n s' k] show ?thesis by simp
next
  case (writing_atomic j d) with section_writing_atomic [OF assms(2), of j d s' k] show ?thesis by simp
next
  case (adding_writer j) with section_adding(1) [OF assms(2)] show ?thesis by simp
next
  case (adding_reader j) with section_adding(2) [OF assms(2)] show ?thesis by simp
next
  case (closing_writer j b) with section_closing_writer [OF assms(2), of j b s' k] show ?thesis by simp
next
  case (closing_reader j b) with section_closing_reader [OF assms(2), of j b s' k] show ?thesis by simp
next
  case (resizing j want res grew) with section_resizing [OF assms(2), of j want res grew s' k] show ?thesis by simp
next
  case (waking cur tids) with assms(2) show ?thesis by (simp add: section_same sys_wake_simps)
next
  case (ringing cur) with assms(2) show ?thesis by (simp add: section_same sys_ring_simps)
qed

section \<open>The parking protocol for readers and writers\<close>

lemma wait_readable_cases:
  assumes "wait_readable tid k w s = (r, s')"
  shows "r \<noteq> Enqueued \<and> s' = s \<or>
    r = Enqueued \<and> \<not> can_read k s \<and> s' = s\<lparr>pt_read_waiters := bt_insert k (waiters (pt_read_waiters s) k @ [tid]) (pt_read_waiters s),
      pt_env := (pt_env s)\<lparr>we_threads := snd (enqueue_self_blocked tid w (waiters (pt_read_waiters s) k) (we_threads (pt_env s)))\<rparr>\<rparr>"
  using assms by (auto simp: wait_readable_def can_read_def enqueue_self_blocked_def split: option.splits if_splits)

lemma wait_writable_cases:
  assumes "wait_writable tid k need w s = (r, s')"
  shows "r \<noteq> Enqueued \<and> s' = s \<or>
    r = Enqueued \<and> \<not> can_write k need s \<and> s' = s\<lparr>pt_write_waiters := bt_insert k (waiters (pt_write_waiters s) k @ [tid]) (pt_write_waiters s),
      pt_env := (pt_env s)\<lparr>we_threads := snd (enqueue_self_blocked tid w (waiters (pt_write_waiters s) k) (we_threads (pt_env s)))\<rparr>\<rparr>"
  using assms by (auto simp: wait_writable_def can_write_def enqueue_self_blocked_def split: option.splits if_splits)

lemma waits_ok:
  assumes "pipes_ok s"
  shows "wait_readable tid k w s = (r, s') \<Longrightarrow> pipes_ok s' \<and> pt_pipes s' = pt_pipes s \<and> pt_write_waiters s' = pt_write_waiters s"
    and "wait_writable tid k need w s = (r, s') \<Longrightarrow> pipes_ok s' \<and> pt_pipes s' = pt_pipes s \<and> pt_read_waiters s' = pt_read_waiters s"
  using assms wait_readable_cases [of tid k w s r s'] wait_writable_cases [of tid k need w s r s']
  by (auto simp: pipes_ok_def tids_ok_enqueue)

lemma drains_simps:
  assumes "drain_readers k s = (v, s')"
  shows "v = waiters (pt_read_waiters s) k" "pt_pipes s' = pt_pipes s" "pt_env s' = pt_env s" "pipes_ok s \<Longrightarrow> pipes_ok s'"
    "read_queue j s' = (if j = k then {} else read_queue j s)" "write_queue j s' = write_queue j s"
  using assms drain_waiters_simps [of k "pt_read_waiters s"]
  by (auto simp: drain_readers_def split_def read_queue_def write_queue_def pipes_ok_def)

lemma drains_writers_simps:
  assumes "drain_writers k s = (v, s')"
  shows "v = waiters (pt_write_waiters s) k" "pt_pipes s' = pt_pipes s" "pt_env s' = pt_env s" "pipes_ok s \<Longrightarrow> pipes_ok s'"
    "write_queue j s' = (if j = k then {} else write_queue j s)" "read_queue j s' = read_queue j s"
  using assms drain_waiters_simps [of k "pt_write_waiters s"]
  by (auto simp: drain_writers_def split_def read_queue_def write_queue_def pipes_ok_def)

lemma cleanup_simps:
  "pt_pipes (waiter_cleanup_reader k tid s) = pt_pipes s" "pt_env (waiter_cleanup_reader k tid s) = pt_env s"
  "pipes_ok s \<Longrightarrow> pipes_ok (waiter_cleanup_reader k tid s)"
  "read_queue j (waiter_cleanup_reader k tid s) = (if j = k then read_queue k s - {tid} else read_queue j s)"
  "write_queue j (waiter_cleanup_reader k tid s) = write_queue j s"
  "pt_pipes (waiter_cleanup_writer k tid s) = pt_pipes s" "pt_env (waiter_cleanup_writer k tid s) = pt_env s"
  "pipes_ok s \<Longrightarrow> pipes_ok (waiter_cleanup_writer k tid s)"
  "write_queue j (waiter_cleanup_writer k tid s) = (if j = k then write_queue k s - {tid} else write_queue j s)"
  "read_queue j (waiter_cleanup_writer k tid s) = read_queue j s"
  by (simp_all add: waiter_cleanup_reader_def waiter_cleanup_writer_def read_queue_def write_queue_def
      cleanup_waiters_simp pipes_ok_def)

lemma sys_wakes_law:
  assumes "pipes_ok s" "sys_wakes tids s s'"
  shows "pipes_ok s'" "pt_pipes s' = pt_pipes s" "read_queue k s' = read_queue k s" "write_queue k s' = write_queue k s"
    "sys_blocked s' = sys_blocked s - set tids"
  using assms by (auto simp: sys_wakes_def sys_wake_simps read_queue_def write_queue_def sys_blocked_def wake_sys_def
      blocked_wake_env pipes_ok_def tids_ok_wake_env)

lemma reader_change_law:
  assumes "pipes_ok s" "reader_change k a s s'"
  shows "pipes_ok s' \<and> (can_read k s' \<longrightarrow> a \<noteq> Quiet \<or> can_read k s) \<and> read_queue k s' = read_queue k s"
  using assms(2)
proof cases
  case (1 aw)
  then show ?thesis using section_law [OF 1 assms(1)] by (simp add: section_ok_def read_queue_def)
next
  case (2 tid j w r)
  then show ?thesis using waits_ok(1) [OF assms(1) 2(2)] wait_readable_cases [OF 2(2)] same_pipes [of s' s k]
    by (auto simp: read_queue_def)
next
  case (3 tid j need w r)
  then show ?thesis using waits_ok(2) [OF assms(1) 3(2)] same_pipes [of s' s k] by (simp add: read_queue_def)
next
  case (4 j v)
  then show ?thesis using drains_writers_simps [OF 4(2)] assms(1) same_pipes [of s' s k] by simp
next
  case (5 j v)
  then show ?thesis using drains_simps [OF 5(3)] assms(1) same_pipes [of s' s k] by simp
next
  case (6 j tid)
  then show ?thesis using assms(1) same_pipes [of s' s k] by (simp add: cleanup_simps)
next
  case (7 j tid)
  then show ?thesis using assms(1) same_pipes [of s' s k] by (simp add: cleanup_simps)
qed

lemma writer_change_law:
  assumes "pipes_ok s" "writer_change k a s s'"
  shows "pipes_ok s' \<and> (can_write k need s' \<longrightarrow> a \<noteq> Quiet \<or> can_write k need s) \<and> write_queue k s' = write_queue k s"
  using assms(2)
proof cases
  case (1 ar)
  then show ?thesis using section_law [OF 1 assms(1)] by (simp add: section_ok_def write_queue_def)
next
  case (2 tid j n w r)
  then show ?thesis using waits_ok(2) [OF assms(1) 2(2)] wait_writable_cases [OF 2(2)] same_pipes [of s' s k need]
    by (auto simp: write_queue_def)
next
  case (3 tid j w r)
  then show ?thesis using waits_ok(1) [OF assms(1) 3(2)] same_pipes [of s' s k need] by (simp add: write_queue_def)
next
  case (4 j v)
  then show ?thesis using drains_simps [OF 4(2)] assms(1) same_pipes [of s' s k need] by simp
next
  case (5 j v)
  then show ?thesis using drains_writers_simps [OF 5(3)] assms(1) same_pipes [of s' s k need] by simp
next
  case (6 j tid)
  then show ?thesis using assms(1) same_pipes [of s' s k need] by (simp add: cleanup_simps)
next
  case (7 j tid)
  then show ?thesis using assms(1) same_pipes [of s' s k need] by (simp add: cleanup_simps)
qed

lemma reader_parks_law:
  assumes "pipes_ok s" "reader_parks k tid q s s'"
  shows "pipes_ok s' \<and> \<not> can_read k s' \<and> read_queue k s' = insert tid (read_queue k s) \<and>
    sys_blocked s' \<subseteq> insert tid (sys_blocked s)"
  using assms(2)
proof cases
  case (1 w)
  have "pt_pipes s' = pt_pipes s" "pipes_ok s'" using waits_ok(1) [OF assms(1) 1(2)] by auto
  moreover have "tids_ok (we_threads (pt_env s))" using assms(1) by (simp add: pipes_ok_def)
  ultimately show ?thesis
    using wait_readable_cases [OF 1(2)] same_pipes [of s' s k 0] blocked_enqueue
    by (auto simp: read_queue_def sys_blocked_def dest!: subsetD)
qed

lemma writer_parks_law:
  assumes "pipes_ok s" "writer_parks k tid need s s'"
  shows "pipes_ok s' \<and> \<not> can_write k need s' \<and> (can_write k n s' \<longrightarrow> can_write k n s) \<and>
    write_queue k s' = insert tid (write_queue k s) \<and> sys_blocked s' \<subseteq> insert tid (sys_blocked s)"
  using assms(2)
proof cases
  case (1 w)
  have "pt_pipes s' = pt_pipes s" "pipes_ok s'" using waits_ok(2) [OF assms(1) 1] by auto
  moreover have "tids_ok (we_threads (pt_env s))" using assms(1) by (simp add: pipes_ok_def)
  ultimately show ?thesis
    using wait_writable_cases [OF 1] same_pipes [of s' s k] blocked_enqueue
    by (auto simp: write_queue_def sys_blocked_def dest!: subsetD)
qed

interpretation rd: parking pipes_ok "\<lambda>_ :: unit. can_read k" "read_queue k" sys_blocked
  "reader_change k" "reader_parks k" "drains_readers k" sys_wakes "resumes_reader k"
  for k
proof (unfold_locales, goal_cases)
  case (1 s a s' q)
  then show ?case by (rule reader_change_law)
next
  case (2 s tid q s' r)
  then show ?case using reader_parks_law [OF 2] by simp
next
  case (3 s tids s')
  then show ?case
    using drains_simps [of k s tids s'] by (simp add: drains_readers_def read_queue_def sys_blocked_def)
next
  case (4 s tids s' q)
  then show ?case using sys_wakes_law [OF 4] same_pipes [of s' s k] by auto
next
  case (5 s tid s' q)
  then show ?case using same_pipes [of s' s k] by (simp add: resumes_reader_def cleanup_simps sys_blocked_def)
qed

interpretation wr: parking pipes_ok "can_write k" "write_queue k" sys_blocked
  "writer_change k" "writer_parks k" "drains_writers k" sys_wakes "resumes_writer k"
  for k
proof (unfold_locales, goal_cases)
  case (1 s a s' q)
  then show ?case by (rule writer_change_law)
next
  case (2 s tid q s' r)
  then show ?case using writer_parks_law [OF 2] by simp
next
  case (3 s tids s')
  then show ?case
    using drains_writers_simps [of k s tids s'] by (simp add: drains_writers_def write_queue_def sys_blocked_def)
next
  case (4 s tids s' q)
  then show ?case using sys_wakes_law [OF 4] same_pipes [of s' s k] by auto
next
  case (5 s tid s' q)
  then show ?case using same_pipes [of s' s k] by (simp add: resumes_writer_def cleanup_simps sys_blocked_def)
qed

text \<open>
  C9: Readers of a pipe lose no announced wake-up. In every interleaving of the critical sections of all pipe
  operations (reads, writes, closes, resizes, creations, waits, drains, wakes, cleanups) of any
  number of threads, once data or end-of-file is available on pipe \<open>k\<close> and every wake-up call owed
  to its readers has completed, no thread that parked in \<open>wait_readable\<close> on it is still blocked, unless it
  was parked while a caller that wakes nobody (\<open>sendfile\<close>, the native write system call) stored bytes in
  the pipe, and no wake-up call has drained the readers since.
\<close>

theorem pipe_readers_no_lost_wakeup:
  assumes "(reader_step k)\<^sup>*\<^sup>* (park_init s) c" and "pipes_ok s"
    and "pc_due c = 0" and "pc_pending c = []" and "can_read k (pc_sys c)"
    and "t \<in> set (we_threads (pt_env (pc_sys c)))" and "(th_tid t, ()) \<in> pc_parked c" and "th_tid t \<notin> pc_missed c"
  shows "th_state t \<noteq> Blocked"
  using rd.run_no_lost_wakeup [OF assms(1-4,7,5,8)] assms(6) by (auto simp: sys_blocked_def blocked_tids_def)

text \<open>
  C7: Writers of a pipe lose no announced wake-up either, for the room each of them waits for: in every
  interleaving, once pipe \<open>k\<close> has room for the \<open>need\<close> bytes a parked writer asked for (or has lost
  its readers) and every wake-up call owed to its writers has completed, that writer is not blocked,
  unless it was parked while a caller that wakes nobody (\<open>pipe_drain_console\<close>, a direct \<open>pipe_read\<close>) took bytes
  out of the pipe, and no wake-up call has drained the writers since.
\<close>

theorem pipe_writers_no_lost_wakeup:
  assumes "(writer_step k)\<^sup>*\<^sup>* (park_init s) c" and "pipes_ok s"
    and "pc_due c = 0" and "pc_pending c = []" and "can_write k need (pc_sys c)"
    and "t \<in> set (we_threads (pt_env (pc_sys c)))" and "(th_tid t, need) \<in> pc_parked c" and "th_tid t \<notin> pc_missed c"
  shows "th_state t \<noteq> Blocked"
  using wr.run_no_lost_wakeup [OF assms(1-4,7,5,8)] assms(6) by (auto simp: sys_blocked_def blocked_tids_def)

text \<open>
  The exception for unannounced writes is needed: when a reader parks and \<open>sendfile\<close> or the native write
  system call then stores bytes in the pipe, data is there, no wake-up call is owed to anyone, and the
  reader is blocked.
\<close>

theorem unannounced_write_strands_reader:
  assumes "wait_readable tid k w s = (Enqueued, s1)" and "pipe_write k d s1 = (Some n, s2)" and "0 < n"
    and "pipes_ok s" and "tid \<in> th_tid ` set (we_threads (pt_env s))"
  shows "(reader_step k)\<^sup>*\<^sup>* (park_init s) \<lparr>pc_sys = s2, pc_due = 0, pc_pending = [], pc_parked = {(tid, ())}, pc_missed = {tid}\<rparr> \<and>
    can_read k s2 \<and> tid \<in> sys_blocked s2"
proof -
  let ?c1 = "\<lparr>pc_sys = s1, pc_due = 0, pc_pending = [], pc_parked = {(tid, ())}, pc_missed = {}\<rparr>"
  let ?c2 = "\<lparr>pc_sys = s2, pc_due = 0, pc_pending = [], pc_parked = {(tid, ())}, pc_missed = {tid}\<rparr>"
  obtain p where p: "find_pipe k s1 = Some p" "n = min (length d) (space p)" "s2 = put_pipe (snd (ring_write d p)) s1"
    using assms(2) by (auto simp: pipe_write_def split_def Let_def split: option.splits)
  have "p_id p = k" using find_pipe_in [OF p(1)] by simp
  then have "find_pipe k s2 = Some (snd (ring_write d p))" using find_put_pipe [of "snd (ring_write d p)" s1 p k] p(1,3) by simp
  then have "can_read k s2" using assms(3) p(2) by (simp add: can_read_def has_data_def)
  moreover have "tid \<in> sys_blocked s1"
    using wait_readable_cases [OF assms(1)] assms(4,5)
    by (auto simp: sys_blocked_def blocked_tids_def pipes_ok_def enqueue_self_blocked_def upd_first_tid_map image_iff)
  moreover have "park_step (reader_change k) (reader_parks k) (drains_readers k) sys_wakes (resumes_reader k) sys_blocked (park_init s) ?c1"
    using park_step.Park [of "reader_parks k" tid "()" "park_init s" s1] reader_parks.intros [OF assms(1)] by (simp add: park_init_def)
  moreover have "reader_step k ?c1 ?c2"
    using park_step.Change [of "reader_change k" Unannounced ?c1 s2 sys_blocked] pipe_section.writing_only [OF assms(2), of k] assms(3)
      reader_change.intros(1) [of k Unannounced Quiet s1 s2] p(3) by (simp add: sys_blocked_def)
  ultimately show ?thesis using p(3) by (auto simp: sys_blocked_def intro: converse_rtranclp_into_rtranclp)
qed

lemma demo_pipes_ok: "n \<le> PIPE_DEFAULT_CAPACITY \<Longrightarrow> pipes_ok (demo_pipes n)"
  unfolding pipes_ok_def demo_pipes_def
  by (auto simp: pipe_ok_def pipe_new_def demo_env_def demo_thread_def tids_ok_def intro: exI [of _ 4])

lemma demo_pipes_find: "find_pipe 1 (demo_pipes n) = Some ((pipe_new 1)\<lparr>p_count := n, p_write_pos := n mod PIPE_DEFAULT_CAPACITY\<rparr>)"
  by (simp add: find_pipe_def demo_pipes_def pipe_new_def)

theorem pipe_readers_no_lost_wakeup_witness:
  "\<exists>c. pipes_ok (demo_pipes 0) \<and> (reader_step 1)\<^sup>*\<^sup>* (park_init (demo_pipes 0)) c \<and> pc_parked c = {(1, ())} \<and>
     pc_due c = 0 \<and> pc_pending c = [] \<and> pc_missed c = {} \<and> can_read 1 (pc_sys c) \<and>
     (\<forall>t \<in> set (we_threads (pt_env (pc_sys c))). th_tid t = 1 \<longrightarrow> th_state t \<noteq> Blocked)"
proof -
  let ?s0 = "demo_pipes 0"
  let ?s1 = "snd (wait_readable 1 1 (- 1) ?s0)"
  let ?s2 = "snd (pipe_write 1 [7] ?s1)"
  let ?s3 = "snd (drain_readers 1 ?s2)"
  let ?s4 = "wake_sys 2 [1] ?s3"
  let ?c = "\<lparr>pc_sys = ?s4, pc_due = 0, pc_pending = [], pc_parked = {(1, ())}, pc_missed = {}\<rparr>"
  let ?p = "(pipe_new 1)\<lparr>p_count := 0, p_write_pos := 0\<rparr>"
  have p: "p_count ?p = 0" "p_writers ?p = 1" "p_id ?p = 1" "space ?p = 65536" by (simp_all add: pipe_new_def space_def)
  have f0: "find_pipe 1 ?s0 = Some ?p" by (simp add: demo_pipes_find)
  have w: "wait_readable 1 1 (- 1) ?s0 = (Enqueued, ?s1)" and q: "waiters (pt_read_waiters ?s1) 1 = [1]" and same: "pt_pipes ?s1 = pt_pipes ?s0"
    using f0 p by (simp_all add: wait_readable_def has_data_def writer_closed_def enqueue_self_blocked_def)
      (simp add: demo_pipes_def waiters_def)
  have f1: "find_pipe 1 ?s1 = Some ?p" using f0 same by (simp add: find_pipe_def)
  have wr: "pipe_write 1 [7] ?s1 = (Some 1, ?s2)" "?s2 = put_pipe (snd (ring_write [7] ?p)) ?s1"
    using f1 p by (simp_all add: pipe_write_def split_def Let_def)
  have f2: "find_pipe 1 ?s2 = Some (snd (ring_write [7] ?p))"
    using wr(2) find_put_pipe [of "snd (ring_write [7] ?p)" ?s1 ?p 1] f1 p by simp
  have "reader_parks 1 1 () ?s0 ?s1" using w by (rule reader_parks.intros)
  moreover have "reader_change 1 Announced ?s1 ?s2"
    using pipe_section.writing [OF wr(1), of 1] reader_change.intros(1) by simp
  moreover have "sys_blocked ?s2 \<subseteq> sys_blocked ?s1" using wr(2) by (simp add: sys_blocked_def)
  moreover have "drains_readers 1 ?s2 [1] ?s3"
    using drains_simps(1) [of 1 ?s2 "fst (drain_readers 1 ?s2)" ?s3] wr(2) q
    by (simp add: drains_readers_def prod_eq_iff)
  moreover have "sys_wakes [1] ?s3 ?s4" by (auto simp: sys_wakes_def)
  ultimately have run: "(reader_step 1)\<^sup>*\<^sup>* (park_init ?s0) ?c" by (rule park_round)
  have "find_pipe 1 ?s4 = Some (snd (ring_write [7] ?p))"
    using f2 drains_simps(2) [of 1 ?s2 "fst (drain_readers 1 ?s2)" ?s3]
    by (simp add: find_pipe_def sys_wake_simps)
  then have cr: "can_read 1 ?s4" using p by (simp add: can_read_def has_data_def)
  from pipe_readers_no_lost_wakeup [OF run demo_pipes_ok] cr show ?thesis
    by (intro exI [of _ ?c]) (use run in \<open>simp add: demo_pipes_ok\<close>)
qed

theorem pipe_writers_no_lost_wakeup_witness:
  "\<exists>c. pipes_ok (demo_pipes 65536) \<and> (writer_step 1)\<^sup>*\<^sup>* (park_init (demo_pipes 65536)) c \<and> pc_parked c = {(1, 100)} \<and>
     pc_due c = 0 \<and> pc_pending c = [] \<and> pc_missed c = {} \<and> can_write 1 100 (pc_sys c) \<and>
     (\<forall>t \<in> set (we_threads (pt_env (pc_sys c))). th_tid t = 1 \<longrightarrow> th_state t \<noteq> Blocked)"
proof -
  let ?s0 = "demo_pipes 65536"
  let ?s1 = "snd (wait_writable 1 1 100 (- 1) ?s0)"
  let ?s2 = "snd (pipe_read 1 4096 ?s1)"
  let ?s3 = "snd (drain_writers 1 ?s2)"
  let ?s4 = "wake_sys 2 [1] ?s3"
  let ?c = "\<lparr>pc_sys = ?s4, pc_due = 0, pc_pending = [], pc_parked = {(1, 100::nat)}, pc_missed = {}\<rparr>"
  let ?p = "(pipe_new 1)\<lparr>p_count := 65536, p_write_pos := 0\<rparr>"
  have p: "p_count ?p = 65536" "p_readers ?p = 1" "p_id ?p = 1" "length (p_buffer ?p) = 65536" by (simp_all add: pipe_new_def)
  have f0: "find_pipe 1 ?s0 = Some ?p" by (simp add: demo_pipes_find)
  have w: "wait_writable 1 1 100 (- 1) ?s0 = (Enqueued, ?s1)" and q: "waiters (pt_write_waiters ?s1) 1 = [1]" and same: "pt_pipes ?s1 = pt_pipes ?s0"
    using f0 p by (simp_all add: wait_writable_def space_def enqueue_self_blocked_def)
      (simp add: demo_pipes_def waiters_def)
  have f1: "find_pipe 1 ?s1 = Some ?p" using f0 same by (simp add: find_pipe_def)
  have rd: "pipe_read 1 4096 ?s1 = (Some (fst (ring_read 4096 ?p)), ?s2)" "?s2 = put_pipe (snd (ring_read 4096 ?p)) ?s1"
    using f1 by (simp_all add: pipe_read_def split_def Let_def)
  have f2: "find_pipe 1 ?s2 = Some (snd (ring_read 4096 ?p))"
    using rd(2) find_put_pipe [of "snd (ring_read 4096 ?p)" ?s1 ?p 1] f1 p by simp
  have "writer_parks 1 1 100 ?s0 ?s1" using w by (rule writer_parks.intros)
  moreover have "writer_change 1 Announced ?s1 ?s2"
    using pipe_section.reading [OF rd(1), of 1] writer_change.intros(1) p by simp
  moreover have "sys_blocked ?s2 \<subseteq> sys_blocked ?s1" using rd(2) by (simp add: sys_blocked_def)
  moreover have "drains_writers 1 ?s2 [1] ?s3"
    using drains_writers_simps(1) [of 1 ?s2 "fst (drain_writers 1 ?s2)" ?s3] rd(2) q
    by (simp add: drains_writers_def prod_eq_iff)
  moreover have "sys_wakes [1] ?s3 ?s4" by (auto simp: sys_wakes_def)
  ultimately have run: "(writer_step 1)\<^sup>*\<^sup>* (park_init ?s0) ?c" by (rule park_round)
  have "find_pipe 1 ?s4 = Some (snd (ring_read 4096 ?p))"
    using f2 drains_writers_simps(2) [of 1 ?s2 "fst (drain_writers 1 ?s2)" ?s3]
    by (simp add: find_pipe_def sys_wake_simps)
  then have cw: "can_write 1 100 ?s4" using p by (simp add: can_write_def space_def)
  from pipe_writers_no_lost_wakeup [OF run demo_pipes_ok] cw show ?thesis
    by (intro exI [of _ ?c]) (use run in \<open>simp add: demo_pipes_ok\<close>)
qed

end
