(* ===== verification/Pipe_Write.thy ===== *)
theory Pipe_Write
  imports Pipe_Wait
begin

text \<open>
  The blocking \<open>write\<close> system call on a pipe: \<open>pipe_write_blocking\<close> and \<open>fd_is_nonblocking\<close> of
  \<open>subsys/linux/syscall.rs\<close>. The call runs interleaved with the rest of the system: before its
  n-th critical section, and while it is scheduled away, the others may have changed the state by
  \<open>wc_others n\<close>, an arbitrary function. Signals and the owner of the console pipe are read from
  the context at the same instants. The loop has no bound of its own (a blocked writer waits as
  long as it must), so it runs with a number of passes; \<open>None\<close> means that it is still waiting.
\<close>

section \<open>The system call\<close>

abbreviation E_PIPE :: int where "E_PIPE \<equiv> - 32"
abbreviation E_BADF :: int where "E_BADF \<equiv> - 9"
abbreviation E_AGAIN :: int where "E_AGAIN \<equiv> - 11"
abbreviation E_INTR :: int where "E_INTR \<equiv> - 4"

text \<open>The status flags of the descriptor, \<open>None\<close> for a descriptor that does not exist.\<close>

definition fd_is_nonblocking :: "u32 option \<Rightarrow> bool" where
  "fd_is_nonblocking fl = (case fl of Some f \<Rightarrow> f AND 0x0800 \<noteq> 0 | None \<Rightarrow> True)"

record write_ctx =
  wc_tid :: u64
  wc_flags :: "u32 option"
  wc_signal :: "nat \<Rightarrow> bool"
  wc_console :: "nat \<Rightarrow> u64"
  wc_drain_owned :: "nat \<Rightarrow> bool"
  wc_others :: "nat \<Rightarrow> pipe_sys \<Rightarrow> pipe_sys"

text \<open>
  The progress of a call: the number of critical sections so far, the system, and the bytes
  that its own sections added to the ring.
\<close>

record write_state =
  ws_k :: nat
  ws_sys :: pipe_sys
  ws_put :: "u8 list"

definition sec :: "write_ctx \<Rightarrow> (pipe_sys \<Rightarrow> 'r \<times> pipe_sys) \<Rightarrow> write_state \<Rightarrow> 'r \<times> write_state" where
  "sec ctx f st =
     (let (r, s') = f (wc_others ctx (ws_k st) (ws_sys st))
      in (r, st\<lparr>ws_k := ws_k st + 1, ws_sys := s'\<rparr>))"

text \<open>A section that writes: what it appended to the unread bytes of the pipe is recorded.\<close>

definition ring_bytes :: "u64 \<Rightarrow> pipe_sys \<Rightarrow> u8 list" where
  "ring_bytes pipe_id s = (case find_pipe pipe_id s of Some p \<Rightarrow> contents p | None \<Rightarrow> [])"

definition put_sec :: "write_ctx \<Rightarrow> u64 \<Rightarrow> (pipe_sys \<Rightarrow> 'r \<times> pipe_sys) \<Rightarrow> write_state \<Rightarrow> 'r \<times> write_state" where
  "put_sec ctx pipe_id f st =
     (let s = wc_others ctx (ws_k st) (ws_sys st);
          (r, s') = f s
      in (r, st\<lparr>ws_k := ws_k st + 1, ws_sys := s',
                ws_put := ws_put st @ drop (length (ring_bytes pipe_id s)) (ring_bytes pipe_id s')\<rparr>))"

datatype pass = Done int | Again nat

definition or_partial :: "nat \<Rightarrow> int \<Rightarrow> pass" where
  "or_partial tot e = Done (if 0 < tot then int tot else e)"

text \<open>The end of a pass that found no room.\<close>

definition no_room :: "write_ctx \<Rightarrow> u64 \<Rightarrow> nat \<Rightarrow> nat \<Rightarrow> write_state \<Rightarrow> pass \<times> write_state" where
  "no_room ctx pipe_id need tot st =
     (if fd_is_nonblocking (wc_flags ctx) then (or_partial tot E_AGAIN, st)
      else if wc_signal ctx (ws_k st) then (or_partial tot E_INTR, st)
      else
        (let (drained, st1) =
           (if pipe_id \<noteq> 0 \<and> pipe_id = wc_console ctx (ws_k st) \<and> \<not> wc_drain_owned ctx (ws_k st)
            then sec ctx (pipe_drain_console pipe_id) st else (0, st))
         in if 0 < drained then (Again tot, st1)
            else
              (case sec ctx (wait_writable (wc_tid ctx) pipe_id need (- 1)) st1 of
                 (WReady, st2) \<Rightarrow> (Again tot, st2)
               | (Gone, st2) \<Rightarrow> (or_partial tot E_BADF, st2)
               | (Enqueued, st2) \<Rightarrow>
                   (Again tot, snd (sec ctx (\<lambda>s. ((), waiter_cleanup_writer pipe_id (wc_tid ctx) s)) st2)))))"

definition wake_sec :: "write_ctx \<Rightarrow> u64 \<Rightarrow> write_state \<Rightarrow> write_state" where
  "wake_sec ctx pipe_id st = snd (sec ctx (\<lambda>s. ((), wake_readers_all (wc_tid ctx) pipe_id s)) st)"

definition write_pass :: "write_ctx \<Rightarrow> u64 \<Rightarrow> u8 list \<Rightarrow> nat \<Rightarrow> write_state \<Rightarrow> pass \<times> write_state" where
  "write_pass ctx pipe_id data tot st =
     (let count = length data;
          (closed, st1) = sec ctx (\<lambda>s. (pipe_reader_closed pipe_id s, s)) st
      in if closed then (or_partial tot E_PIPE, st1)
         else if count \<le> PIPE_BUF then
           (case put_sec ctx pipe_id (pipe_write_atomic pipe_id data) st1 of
              (Wrote, st2) \<Rightarrow> (Done (int count), wake_sec ctx pipe_id st2)
            | (PGone, st2) \<Rightarrow> (Done E_BADF, st2)
            | (NoSpace, st2) \<Rightarrow> no_room ctx pipe_id count tot st2)
         else
           (let (sp, st2) = sec ctx (\<lambda>s. (pipe_space pipe_id s, s)) st1;
                remaining = count - tot;
                writable_now = min sp remaining
            in if 0 < writable_now then
                 (case put_sec ctx pipe_id (pipe_write pipe_id (take writable_now (drop tot data))) st2 of
                    (Some n, st3) \<Rightarrow>
                      (let tot' = tot + n;
                           st4 = (if 0 < n then wake_sec ctx pipe_id st3 else st3)
                       in if count \<le> tot' then (Done (int tot'), st4) else (Again tot', st4))
                  | (None, st3) \<Rightarrow> (or_partial tot E_BADF, st3))
               else no_room ctx pipe_id 1 tot st2))"

fun write_passes :: "nat \<Rightarrow> write_ctx \<Rightarrow> u64 \<Rightarrow> u8 list \<Rightarrow> nat \<Rightarrow> write_state \<Rightarrow> int option \<times> write_state" where
  "write_passes 0 ctx pipe_id data tot st = (None, st)"
| "write_passes (Suc n) ctx pipe_id data tot st =
     (case write_pass ctx pipe_id data tot st of
        (Done r, st') \<Rightarrow> (Some r, st')
      | (Again tot', st') \<Rightarrow> write_passes n ctx pipe_id data tot' st')"

definition pipe_write_blocking :: "nat \<Rightarrow> write_ctx \<Rightarrow> u64 \<Rightarrow> u8 list \<Rightarrow> pipe_sys \<Rightarrow> int option \<times> write_state" where
  "pipe_write_blocking passes ctx pipe_id data s =
     (let st = \<lparr>ws_k = 0, ws_sys = s, ws_put = []\<rparr>
      in if length data = 0 then (Some 0, st) else write_passes passes ctx pipe_id data 0 st)"

section \<open>What a call deposits\<close>

text \<open>The others keep the invariant of the pipe table.\<close>

definition polite :: "write_ctx \<Rightarrow> bool" where
  "polite ctx \<longleftrightarrow> (\<forall>k s. pipes_ok s \<longrightarrow> pipes_ok (wc_others ctx k s))"

definition quiet :: "write_ctx \<Rightarrow> bool" where
  "quiet ctx \<longleftrightarrow> (\<forall>k. wc_others ctx k = id)"

text \<open>What a non-blocking write to pipe \<open>p\<close> returns.\<close>

definition nonblocking_result :: "pipe option \<Rightarrow> nat \<Rightarrow> int" where
  "nonblocking_result po len =
     (case po of
        None \<Rightarrow> E_PIPE
      | Some p \<Rightarrow>
          if p_readers p = 0 then E_PIPE
          else if space p = 0 \<or> len \<le> PIPE_BUF \<and> space p < len then E_AGAIN
          else int (min (space p) len))"

definition demo_ctx :: write_ctx where
  "demo_ctx = \<lparr>wc_tid = 1, wc_flags = Some 0x0801, wc_signal = (\<lambda>_. False), wc_console = (\<lambda>_. 0),
     wc_drain_owned = (\<lambda>_. False), wc_others = (\<lambda>_. id)\<rparr>"

text \<open>The result of a pass and the bytes deposited by the call so far.\<close>

fun accounted :: "u8 list \<Rightarrow> pass \<times> write_state \<Rightarrow> bool" where
  "accounted data (Again tot, st) \<longleftrightarrow> ws_put st = take tot data \<and> tot < length data \<and>
     (length data \<le> PIPE_BUF \<longrightarrow> tot = 0)"
| "accounted data (Done r, st) \<longleftrightarrow>
     (if r < 0 then r \<in> {E_PIPE, E_BADF, E_AGAIN, E_INTR} \<and> ws_put st = []
      else 0 < r \<and> nat r \<le> length data \<and> ws_put st = take (nat r) data \<and>
        (length data \<le> PIPE_BUF \<longrightarrow> nat r = length data))"

lemma write_contents:
  assumes "pipe_ok p"
  shows "contents (snd (ring_write d p)) = contents p @ take (fst (ring_write d p)) d"
proof -
  have "contents (snd (ring_write d p)) = contents p @ take (space p) d"
    using ring_write_refines [OF assms, of d]
    by (simp add: q_put_def map_prod_def split_def capacity_def space_def)
  then show ?thesis by (simp add: min_def)
qed

lemma pipe_write_put:
  assumes "pipes_ok s" "pipe_write k d s = (Some n, s')"
  shows "drop (length (ring_bytes k s)) (ring_bytes k s') = take n d" and "n \<le> length d" and "pipes_ok s'"
proof -
  from assms(2) obtain p where p: "find_pipe k s = Some p" "n = fst (ring_write d p)" "s' = put_pipe (snd (ring_write d p)) s"
    by (auto simp: pipe_write_def split_def Let_def split: option.splits)
  have ok: "pipe_ok p" "p_id p = k" using found_ok [OF assms(1) p(1)] by auto
  have "find_pipe k s' = Some (snd (ring_write d p))"
    using p ok find_put_pipe [of "snd (ring_write d p)" s p k] by simp
  then show "drop (length (ring_bytes k s)) (ring_bytes k s') = take n d"
    using p ok by (simp add: ring_bytes_def write_contents del: ring_write_simps)
  show "n \<le> length d" using p by simp
  show "pipes_ok s'" using section_writing [OF assms, of k] by (simp add: section_ok_def)
qed

lemma pipe_write_atomic_put:
  assumes "pipes_ok s" "pipe_write_atomic k d s = (r, s')"
  shows "drop (length (ring_bytes k s)) (ring_bytes k s') = (if r = Wrote then d else [])" and "pipes_ok s'"
proof -
  show "drop (length (ring_bytes k s)) (ring_bytes k s') = (if r = Wrote then d else [])"
  proof (cases "r = Wrote")
    case True
    then obtain p where p: "find_pipe k s = Some p" "length d \<le> space p" "s' = put_pipe (snd (ring_write d p)) s"
      using assms(2) by (auto simp: pipe_write_atomic_def split_def Let_def split: option.splits if_splits)
    then have "pipe_write k d s = (Some (length d), s')"
      by (simp add: pipe_write_def split_def Let_def)
    then show ?thesis using pipe_write_put [OF assms(1)] True by simp
  next
    case False
    then have "s' = s" using assms(2) by (auto simp: pipe_write_atomic_def split_def Let_def split: option.splits if_splits)
    then show ?thesis using False by simp
  qed
  show "pipes_ok s'"
    using assms section_writing_atomic [OF assms(1), of k d s' k]
    by (cases r) (auto simp: section_ok_def pipe_write_atomic_def split_def Let_def split: option.splits if_splits)
qed

lemma drain_console_ok: "pipes_ok s \<Longrightarrow> pipes_ok (snd (drain_console_loop k tot s))"
proof (induction k tot s rule: drain_console_loop.induct)
  case (1 k tot s)
  show ?case
  proof (cases "pipe_read k PIPE_BUF_SIZE s")
    case (Pair r s')
    have "pipes_ok s'"
    proof (cases r)
      case None
      then have "s' = s" using Pair by (auto simp: pipe_read_def split_def Let_def split: option.splits)
      then show ?thesis using "1.prems" by simp
    next
      case (Some out)
      then show ?thesis using section_reading [OF "1.prems", of k PIPE_BUF_SIZE out s' k] Pair by (simp add: section_ok_def)
    qed
    then show ?thesis
      using "1.IH" Pair by (subst drain_console_loop.simps) (auto split: option.splits)
  qed
qed

lemma wake_readers_all_ok:
  assumes "pipes_ok s"
  shows "pipes_ok (wake_readers_all cur k s)" and "pt_pipes (wake_readers_all cur k s) = pt_pipes s"
  using drains_simps(2,4) [OF prod.collapse [of "drain_readers k s", symmetric]] assms
  by (simp_all add: wake_readers_all_def split_def Let_def sys_wake_simps sys_ring_simps)

lemma sec_simps:
  "ws_put (snd (sec ctx f st)) = ws_put st"
  "ws_sys (snd (sec ctx f st)) = snd (f (wc_others ctx (ws_k st) (ws_sys st)))"
  "fst (sec ctx f st) = fst (f (wc_others ctx (ws_k st) (ws_sys st)))"
  by (simp_all add: sec_def split_def Let_def)

lemma sec_ok:
  assumes "polite ctx" "pipes_ok (ws_sys st)" "\<And>s. pipes_ok s \<Longrightarrow> pipes_ok (snd (f s))"
  shows "pipes_ok (ws_sys (snd (sec ctx f st)))"
  using assms by (simp add: sec_simps polite_def)

lemma put_sec_simps:
  assumes "put_sec ctx k f st = (r, st')"
  shows "f (wc_others ctx (ws_k st) (ws_sys st)) = (r, ws_sys st')"
    and "ws_put st' = ws_put st @ drop (length (ring_bytes k (wc_others ctx (ws_k st) (ws_sys st)))) (ring_bytes k (ws_sys st'))"
  using assms by (auto simp: put_sec_def split_def Let_def prod_eq_iff)

lemma wake_sec_ok:
  "polite ctx \<Longrightarrow> pipes_ok (ws_sys st) \<Longrightarrow> pipes_ok (ws_sys (wake_sec ctx k st))"
  "ws_put (wake_sec ctx k st) = ws_put st"
  by (simp_all add: wake_sec_def sec_ok sec_simps(1) wake_readers_all_ok)

lemma or_partial_accounted:
  assumes "accounted data (Again tot, st)" "e \<in> {E_PIPE, E_BADF, E_AGAIN, E_INTR}"
  shows "accounted data (or_partial tot e, st)"
  using assms by (auto simp: or_partial_def)

text \<open>The state of a call between two sections: the table is well-formed and the bytes are accounted for.\<close>

definition going :: "u8 list \<Rightarrow> nat \<Rightarrow> write_state \<Rightarrow> bool" where
  "going data tot st \<longleftrightarrow> pipes_ok (ws_sys st) \<and> accounted data (Again tot, st)"

definition pass_ok :: "u8 list \<Rightarrow> pass \<times> write_state \<Rightarrow> bool" where
  "pass_ok data r \<longleftrightarrow> pipes_ok (ws_sys (snd r)) \<and> accounted data r"

lemma going_sec:
  assumes "polite ctx" "going data tot st" "\<And>s. pipes_ok s \<Longrightarrow> pipes_ok (snd (f s))"
  shows "going data tot (snd (sec ctx f st))"
  using assms by (simp add: going_def sec_ok sec_simps(1))

lemma going_again: "going data tot st \<Longrightarrow> pass_ok data (Again tot, st)"
  by (simp add: going_def pass_ok_def)

lemma going_partial:
  "going data tot st \<Longrightarrow> e \<in> {E_PIPE, E_BADF, E_AGAIN, E_INTR} \<Longrightarrow> pass_ok data (or_partial tot e, st)"
  unfolding going_def pass_ok_def using or_partial_accounted by simp

lemma no_room_ok:
  assumes "polite ctx" "going data tot st"
  shows "pass_ok data (no_room ctx k need tot st)"
proof -
  let ?console = "k \<noteq> 0 \<and> k = wc_console ctx (ws_k st) \<and> \<not> wc_drain_owned ctx (ws_k st)"
  define d where "d = (if ?console then sec ctx (pipe_drain_console k) st else (0, st))"
  define w where "w = sec ctx (wait_writable (wc_tid ctx) k need (- 1)) (snd d)"
  have "going data tot (snd (sec ctx (pipe_drain_console k) st))"
    by (rule going_sec [OF assms]) (simp add: pipe_drain_console_def drain_console_ok)
  then have d: "going data tot (snd d)" using assms(2) unfolding d_def by (auto split: if_split)
  have w: "going data tot (snd w)"
    unfolding w_def by (rule going_sec [OF assms(1) d]) (metis prod.collapse waits_ok(2))
  have c: "going data tot (snd (sec ctx (\<lambda>s. ((), waiter_cleanup_writer k (wc_tid ctx) s)) (snd w)))"
    by (rule going_sec [OF assms(1) w]) (simp add: cleanup_simps)
  have "no_room ctx k need tot st =
    (if fd_is_nonblocking (wc_flags ctx) then (or_partial tot E_AGAIN, st)
     else if wc_signal ctx (ws_k st) then (or_partial tot E_INTR, st)
     else if 0 < fst d then (Again tot, snd d)
     else case fst w of WReady \<Rightarrow> (Again tot, snd w) | Gone \<Rightarrow> (or_partial tot E_BADF, snd w)
       | Enqueued \<Rightarrow> (Again tot, snd (sec ctx (\<lambda>s. ((), waiter_cleanup_writer k (wc_tid ctx) s)) (snd w))))"
    by (simp add: no_room_def d_def [symmetric] w_def split_def Let_def split: wait_outcome.splits)
  then show ?thesis
    using going_again [OF d] going_again [OF w] going_again [OF c] going_partial [OF w] going_partial [OF assms(2)]
    by (auto split: wait_outcome.splits)
qed

lemma atomic_arm_ok:
  assumes "polite ctx" "going data tot st" "length data \<le> PIPE_BUF"
    and "put_sec ctx k (pipe_write_atomic k data) st = (r, st')"
  shows "pass_ok data (case r of Wrote \<Rightarrow> (Done (int (length data)), wake_sec ctx k st')
    | PGone \<Rightarrow> (Done E_BADF, st') | NoSpace \<Rightarrow> no_room ctx k (length data) tot st')"
proof -
  have tot: "tot = 0" "ws_put st = []" "data \<noteq> []" using assms(2,3) by (auto simp: going_def)
  have ok: "pipes_ok (wc_others ctx (ws_k st) (ws_sys st))"
    using assms(1,2) by (simp add: going_def polite_def)
  note put = pipe_write_atomic_put [OF ok put_sec_simps(1) [OF assms(4)]]
  have "ws_put st' = (if r = Wrote then data else [])"
    using put_sec_simps(2) [OF assms(4)] put(1) tot by simp
  moreover from this have "r \<noteq> Wrote \<Longrightarrow> going data tot st'" using put(2) tot by (simp add: going_def)
  ultimately show ?thesis
    using put(2) tot no_room_ok [OF assms(1)] assms(1,3)
    by (cases r) (auto simp: pass_ok_def wake_sec_ok)
qed

lemma large_arm_ok:
  assumes "polite ctx" "going data tot st" "\<not> length data \<le> PIPE_BUF"
    and "put_sec ctx k (pipe_write k (take w (drop tot data))) st = (r, st')"
  shows "pass_ok data (case r of
      Some n \<Rightarrow> (let st4 = (if 0 < n then wake_sec ctx k st' else st')
         in if length data \<le> tot + n then (Done (int (tot + n)), st4) else (Again (tot + n), st4))
    | None \<Rightarrow> (or_partial tot E_BADF, st'))"
proof -
  have ok: "pipes_ok (wc_others ctx (ws_k st) (ws_sys st))"
    using assms(1,2) by (simp add: going_def polite_def)
  have lt: "tot < length data" "ws_put st = take tot data" using assms(2) by (auto simp: going_def)
  show ?thesis
  proof (cases r)
    case None
    then have "ws_sys st' = wc_others ctx (ws_k st) (ws_sys st)"
      using put_sec_simps(1) [OF assms(4)] by (auto simp: pipe_write_def split_def Let_def split: option.splits)
    then have "going data tot st'" using put_sec_simps(2) [OF assms(4)] ok assms(2) by (simp add: going_def)
    then show ?thesis using None going_partial by simp
  next
    case (Some n)
    note put = pipe_write_put [OF ok, of k "take w (drop tot data)" n "ws_sys st'"]
    have pw: "pipe_write k (take w (drop tot data)) (wc_others ctx (ws_k st) (ws_sys st)) = (Some n, ws_sys st')"
      using put_sec_simps(1) [OF assms(4)] Some by simp
    have n: "tot + n \<le> length data" and nw: "n \<le> w" using put(2) [OF pw] lt by auto
    have "ws_put st' = take tot data @ take n (take w (drop tot data))"
      using put_sec_simps(2) [OF assms(4)] put(1) [OF pw] lt by simp
    also have "\<dots> = take (tot + n) data" using nw by (simp add: take_add min_def)
    finally have "ws_put st' = take (tot + n) data" .
    then show ?thesis
      using Some put(3) [OF pw] n lt assms(1,3) by (auto simp: pass_ok_def wake_sec_ok Let_def)
  qed
qed

lemma write_pass_ok:
  assumes "polite ctx" "going data tot st"
  shows "pass_ok data (write_pass ctx k data tot st)"
proof -
  define c where "c = sec ctx (\<lambda>s. (pipe_reader_closed k s, s)) st"
  have c: "going data tot (snd c)" unfolding c_def by (rule going_sec [OF assms]) simp
  show ?thesis
  proof (cases "fst c")
    case True
    then have "write_pass ctx k data tot st = (or_partial tot E_PIPE, snd c)"
      by (simp add: write_pass_def c_def split_def Let_def)
    then show ?thesis using going_partial [OF c] by simp
  next
    case open_end: False
    show ?thesis
    proof (cases "length data \<le> PIPE_BUF")
      case True
      obtain r st2 where p: "put_sec ctx k (pipe_write_atomic k data) (snd c) = (r, st2)" by fastforce
      have "write_pass ctx k data tot st = (case r of Wrote \<Rightarrow> (Done (int (length data)), wake_sec ctx k st2)
          | PGone \<Rightarrow> (Done E_BADF, st2) | NoSpace \<Rightarrow> no_room ctx k (length data) tot st2)"
        using open_end True p by (simp add: write_pass_def c_def split_def Let_def split: atomic_write.splits)
      then show ?thesis using atomic_arm_ok [OF assms(1) c True p] by simp
    next
      case False
      define q where "q = sec ctx (\<lambda>s. (pipe_space k s, s)) (snd c)"
      have q: "going data tot (snd q)" unfolding q_def by (rule going_sec [OF assms(1) c]) simp
      let ?w = "min (fst q) (length data - tot)"
      show ?thesis
      proof (cases "0 < ?w")
        case True
        obtain r st3 where p: "put_sec ctx k (pipe_write k (take ?w (drop tot data))) (snd q) = (r, st3)" by fastforce
        have "write_pass ctx k data tot st = (case r of
            Some n \<Rightarrow> (let st4 = (if 0 < n then wake_sec ctx k st3 else st3)
               in if length data \<le> tot + n then (Done (int (tot + n)), st4) else (Again (tot + n), st4))
          | None \<Rightarrow> (or_partial tot E_BADF, st3))"
          using open_end False True p
          by (simp add: write_pass_def c_def [symmetric] q_def [symmetric] split_def Let_def split: option.splits)
        then show ?thesis using large_arm_ok [OF assms(1) q False p] by simp
      next
        case no: False
        then have "write_pass ctx k data tot st = no_room ctx k 1 tot (snd q)"
          using open_end False by (auto simp: write_pass_def c_def [symmetric] q_def [symmetric] split_def Let_def)
        then show ?thesis using no_room_ok [OF assms(1) q] by simp
      qed
    qed
  qed
qed

lemma write_passes_ok:
  assumes "polite ctx" "going data tot st"
  shows "case write_passes n ctx k data tot st of
    (Some r, st') \<Rightarrow> pass_ok data (Done r, st')
  | (None, st') \<Rightarrow> \<exists>tot'. going data tot' st'"
  using assms(2)
proof (induction n arbitrary: tot st)
  case 0
  then show ?case by auto
next
  case (Suc n)
  obtain r st' where p: "write_pass ctx k data tot st = (r, st')" by fastforce
  have ok: "pass_ok data (r, st')" using write_pass_ok [OF assms(1) Suc.prems, of k] p by simp
  show ?case
  proof (cases r)
    case (Done v)
    then show ?thesis using p ok by simp
  next
    case (Again tot')
    then have "going data tot' st'" using ok by (simp add: pass_ok_def going_def)
    from Suc.IH [OF this] show ?thesis using p Again by simp
  qed
qed

text \<open>
  C8: In every interleaving with other threads that keep the pipe table well-formed, for any number
  of passes of the loop: when the blocking \<open>write\<close> on a pipe returns a count, its own critical
  sections have appended exactly that prefix of the data to the pipe, in order; when it returns an
  error it has deposited nothing; and a write of at most \<open>PIPE_BUF\<close> bytes is all or nothing.
\<close>

theorem pipe_write_blocking_accounts:
  assumes "polite ctx" and "pipes_ok s" and "pipe_write_blocking n ctx k data s = (Some r, st)"
  shows "(0 \<le> r \<longrightarrow> nat r \<le> length data \<and> ws_put st = take (nat r) data) \<and>
    (r < 0 \<longrightarrow> ws_put st = [] \<and> r \<in> {E_PIPE, E_BADF, E_AGAIN, E_INTR}) \<and>
    (length data \<le> PIPE_BUF \<longrightarrow> r < 0 \<or> nat r = length data)"
proof (cases "data = []")
  case True
  then show ?thesis using assms(3) by (auto simp: pipe_write_blocking_def)
next
  case False
  let ?st = "\<lparr>ws_k = 0, ws_sys = s, ws_put = []\<rparr>"
  have "going data 0 ?st" using assms(2) False by (simp add: going_def)
  from write_passes_ok [OF assms(1) this, of n k] have "pass_ok data (Done r, st)"
    using assms(3) False by (simp add: pipe_write_blocking_def)
  then show ?thesis by (auto simp: pass_ok_def split: if_splits)
qed

section \<open>A call left alone\<close>

lemma quiet_polite: "quiet ctx \<Longrightarrow> polite ctx"
  by (simp add: quiet_def polite_def)

lemma quiet_sec:
  "quiet ctx \<Longrightarrow> fst (sec ctx f st) = fst (f (ws_sys st)) \<and> ws_sys (snd (sec ctx f st)) = snd (f (ws_sys st))"
  by (simp add: quiet_def sec_simps)

lemma quiet_put_sec:
  "quiet ctx \<Longrightarrow> fst (put_sec ctx k f st) = fst (f (ws_sys st)) \<and> ws_sys (snd (put_sec ctx k f st)) = snd (f (ws_sys st))"
  by (simp add: quiet_def put_sec_def split_def Let_def)

lemma quiet_wake_sec:
  "quiet ctx \<Longrightarrow> pipes_ok (ws_sys st) \<Longrightarrow> pt_pipes (ws_sys (wake_sec ctx k st)) = pt_pipes (ws_sys st)"
  by (simp add: wake_sec_def quiet_sec wake_readers_all_ok)

lemma quiet_pass_full:
  assumes "quiet ctx" "fd_is_nonblocking (wc_flags ctx)" "find_pipe k (ws_sys st) = Some p"
    "p_readers p \<noteq> 0" "space p = 0" "\<not> length data \<le> PIPE_BUF"
  shows "fst (write_pass ctx k data tot st) = or_partial tot E_AGAIN \<and> ws_sys (snd (write_pass ctx k data tot st)) = ws_sys st"
  using assms by (simp add: write_pass_def no_room_def split_def Let_def quiet_sec pipe_reader_closed_def
      reader_closed_def pipe_space_def)

lemma quiet_pass_closed:
  assumes "quiet ctx" "case find_pipe k (ws_sys st) of None \<Rightarrow> True | Some p \<Rightarrow> p_readers p = 0"
  shows "fst (write_pass ctx k data tot st) = or_partial tot E_PIPE \<and> ws_sys (snd (write_pass ctx k data tot st)) = ws_sys st"
  using assms by (auto simp: write_pass_def split_def Let_def quiet_sec pipe_reader_closed_def
      reader_closed_def split: option.splits)

lemma quiet_pass_atomic:
  assumes "quiet ctx" "pipes_ok (ws_sys st)" "fd_is_nonblocking (wc_flags ctx)" "find_pipe k (ws_sys st) = Some p"
    "p_readers p \<noteq> 0" "length data \<le> PIPE_BUF"
  shows "space p < length data \<Longrightarrow>
      fst (write_pass ctx k data tot st) = or_partial tot E_AGAIN \<and> ws_sys (snd (write_pass ctx k data tot st)) = ws_sys st"
    and "length data \<le> space p \<Longrightarrow>
      fst (write_pass ctx k data tot st) = Done (int (length data)) \<and>
      pt_pipes (ws_sys (snd (write_pass ctx k data tot st))) = pt_pipes (put_pipe (snd (ring_write data p)) (ws_sys st))"
proof -
  let ?c = "snd (sec ctx (\<lambda>s. (pipe_reader_closed k s, s)) st)"
  have c: "ws_sys ?c = ws_sys st" "\<not> fst (sec ctx (\<lambda>s. (pipe_reader_closed k s, s)) st)"
    using assms by (simp_all add: quiet_sec pipe_reader_closed_def reader_closed_def)
  define a where "a = put_sec ctx k (pipe_write_atomic k data) ?c"
  have a: "fst a = fst (pipe_write_atomic k data (ws_sys st))" "ws_sys (snd a) = snd (pipe_write_atomic k data (ws_sys st))"
    using c by (simp_all add: a_def quiet_put_sec [OF assms(1)])
  have pass: "write_pass ctx k data tot st = (case fst a of Wrote \<Rightarrow> (Done (int (length data)), wake_sec ctx k (snd a))
      | PGone \<Rightarrow> (Done E_BADF, snd a) | NoSpace \<Rightarrow> no_room ctx k (length data) tot (snd a))"
    using c(2) assms(6) by (simp add: write_pass_def a_def split_def Let_def split: atomic_write.splits)
  show "fst (write_pass ctx k data tot st) = or_partial tot E_AGAIN \<and> ws_sys (snd (write_pass ctx k data tot st)) = ws_sys st"
    if "space p < length data"
    using that pass a assms(3,4) by (simp add: pipe_write_atomic_def no_room_def)
  show "fst (write_pass ctx k data tot st) = Done (int (length data)) \<and>
      pt_pipes (ws_sys (snd (write_pass ctx k data tot st))) = pt_pipes (put_pipe (snd (ring_write data p)) (ws_sys st))"
    if "length data \<le> space p"
  proof -
    have w: "pipe_write_atomic k data (ws_sys st) = (Wrote, put_pipe (snd (ring_write data p)) (ws_sys st))"
      using that assms(4) by (simp add: pipe_write_atomic_def split_def Let_def)
    then have "pipes_ok (ws_sys (snd a))" using a(2) pipe_write_atomic_put(2) [OF assms(2) w] by simp
    then show ?thesis using w a pass quiet_wake_sec [OF assms(1)] by simp
  qed
qed

lemma quiet_pass_large:
  assumes "quiet ctx" "pipes_ok (ws_sys st)" "find_pipe k (ws_sys st) = Some p"
    "p_readers p \<noteq> 0" "\<not> length data \<le> PIPE_BUF" "0 < space p"
  shows "fst (write_pass ctx k data 0 st) =
      (if length data \<le> space p then Done (int (length data)) else Again (space p)) \<and>
    pt_pipes (ws_sys (snd (write_pass ctx k data 0 st))) = pt_pipes (put_pipe (snd (ring_write data p)) (ws_sys st))"
proof -
  define c where "c = sec ctx (\<lambda>s. (pipe_reader_closed k s, s)) st"
  define q where "q = sec ctx (\<lambda>s. (pipe_space k s, s)) (snd c)"
  have c: "ws_sys (snd c) = ws_sys st" "\<not> fst c"
    using assms by (simp_all add: c_def quiet_sec pipe_reader_closed_def reader_closed_def)
  have q: "ws_sys (snd q) = ws_sys st" "fst q = space p"
    using assms c by (simp_all add: q_def quiet_sec pipe_space_def)
  let ?w = "min (space p) (length data)"
  define a where "a = put_sec ctx k (pipe_write k (take ?w data)) (snd q)"
  have eq: "ring_write (take ?w data) p = ring_write data p"
    by (simp add: ring_write_def space_def Let_def min.commute)
  have w: "pipe_write k (take ?w data) (ws_sys st) = (Some ?w, put_pipe (snd (ring_write data p)) (ws_sys st))"
    using assms(3) unfolding pipe_write_def by (simp add: eq split_def Let_def min.commute [of "length data"])
  have a: "fst a = Some ?w" "ws_sys (snd a) = put_pipe (snd (ring_write data p)) (ws_sys st)"
    using q w by (simp_all add: a_def quiet_put_sec [OF assms(1)])
  have ok: "pipes_ok (ws_sys (snd a))" using pipe_write_put(3) [OF assms(2) w] a(2) by simp
  have pos: "0 < ?w" using assms(5,6) by (cases data) simp_all
  have "write_pass ctx k data 0 st =
      (if length data \<le> ?w then (Done (int ?w), wake_sec ctx k (snd a)) else (Again ?w, wake_sec ctx k (snd a)))"
    using c(2) q(2) assms(5) pos a(1)
    by (auto simp: write_pass_def c_def [symmetric] q_def [symmetric] a_def [symmetric] split_def Let_def)
  then show ?thesis using quiet_wake_sec [OF assms(1) ok] a(2) by (auto simp: min_def)
qed

lemma written_pipe:
  assumes "pipes_ok s" "find_pipe k s = Some p" "pt_pipes s' = pt_pipes (put_pipe (snd (ring_write data p)) s)"
  shows "find_pipe k s' = Some (snd (ring_write data p))"
    and "ring_bytes k s' = ring_bytes k s @ take (min (length data) (space p)) data"
proof -
  have ok: "pipe_ok p" "p_id p = k" using found_ok [OF assms(1,2)] by auto
  show f: "find_pipe k s' = Some (snd (ring_write data p))"
    using assms find_put_pipe [of "snd (ring_write data p)" s p k] ok by (simp add: find_pipe_def)
  show "ring_bytes k s' = ring_bytes k s @ take (min (length data) (space p)) data"
    using f assms(2) write_contents [OF ok(1), of data] by (simp add: ring_bytes_def)
qed

lemma passes_Done:
  "fst (write_pass ctx k data tot st) = Done r \<Longrightarrow>
     write_passes (Suc n) ctx k data tot st = (Some r, snd (write_pass ctx k data tot st))"
  by (cases "write_pass ctx k data tot st") simp

lemma passes_Again:
  "fst (write_pass ctx k data tot st) = Again tot' \<Longrightarrow>
     write_passes (Suc n) ctx k data tot st = write_passes n ctx k data tot' (snd (write_pass ctx k data tot st))"
  by (cases "write_pass ctx k data tot st") simp

lemma space_written: "pipe_ok p \<Longrightarrow> space (snd (ring_write d p)) = space p - min (length d) (space p)"
  by (simp add: space_def)

lemma quiet_large:
  assumes "quiet ctx" "pipes_ok (ws_sys st)" "fd_is_nonblocking (wc_flags ctx)" "find_pipe k (ws_sys st) = Some p"
    "p_readers p \<noteq> 0" "\<not> length data \<le> PIPE_BUF" "0 < space p"
  shows "fst (write_passes (Suc (Suc n)) ctx k data 0 st) = Some (int (min (space p) (length data))) \<and>
    pt_pipes (ws_sys (snd (write_passes (Suc (Suc n)) ctx k data 0 st))) = pt_pipes (put_pipe (snd (ring_write data p)) (ws_sys st))"
proof -
  let ?st = "snd (write_pass ctx k data 0 st)"
  note pass = quiet_pass_large [OF assms(1,2,4-7)]
  show ?thesis
  proof (cases "length data \<le> space p")
    case True
    then show ?thesis using pass passes_Done [of ctx k data 0 st "int (length data)" "Suc n"] by (simp add: min_def)
  next
    case False
    have "pipe_ok p" using found_ok [OF assms(2,4)] by simp
    then have "space (snd (ring_write data p)) = 0" using False by (simp add: space_written)
    then have "fst (write_pass ctx k data (space p) ?st) = Done (int (space p)) \<and>
        ws_sys (snd (write_pass ctx k data (space p) ?st)) = ws_sys ?st"
      using quiet_pass_full [OF assms(1,3) written_pipe(1) [OF assms(2,4), of "ws_sys ?st" data]] pass assms(5-7)
      by (simp add: or_partial_def)
    then show ?thesis
      using False pass passes_Again [of ctx k data 0 st "space p" "Suc n"] passes_Done [of ctx k data "space p" ?st "int (space p)" n]
      by simp
  qed
qed

lemma quiet_nonblocking:
  assumes "quiet ctx" "pipes_ok (ws_sys st)" "fd_is_nonblocking (wc_flags ctx)" "find_pipe k (ws_sys st) = Some p"
    "p_readers p \<noteq> 0" "data \<noteq> []"
  shows "if space p = 0 \<or> length data \<le> PIPE_BUF \<and> space p < length data
    then fst (write_passes (Suc (Suc n)) ctx k data 0 st) = Some E_AGAIN \<and>
      ws_sys (snd (write_passes (Suc (Suc n)) ctx k data 0 st)) = ws_sys st
    else fst (write_passes (Suc (Suc n)) ctx k data 0 st) = Some (int (min (space p) (length data))) \<and>
      pt_pipes (ws_sys (snd (write_passes (Suc (Suc n)) ctx k data 0 st))) = pt_pipes (put_pipe (snd (ring_write data p)) (ws_sys st))"
proof (cases "length data \<le> PIPE_BUF")
  case True
  note pass = quiet_pass_atomic [OF assms(1-5) True, of 0]
  show ?thesis
  proof (cases "space p < length data")
    case lt: True
    then show ?thesis
      using pass(1) True passes_Done [of ctx k data 0 st E_AGAIN "Suc n"] by (simp add: or_partial_def)
  next
    case False
    moreover have "0 < length data" using assms(6) by simp
    ultimately show ?thesis
      using pass(2) passes_Done [of ctx k data 0 st "int (length data)" "Suc n"] by (simp add: min_def)
  qed
next
  case False
  show ?thesis
  proof (cases "space p = 0")
    case True
    then show ?thesis
      using quiet_pass_full [OF assms(1,3-5) True False, of 0] passes_Done [of ctx k data 0 st E_AGAIN "Suc n"]
      by (simp add: or_partial_def)
  next
    case sp: False
    then show ?thesis using quiet_large [OF assms(1-5) False, of n] False by simp
  qed
qed

text \<open>
  A non-blocking \<open>write\<close> to a pipe that no other thread touches meanwhile returns after at most two
  passes of the loop, with the result that \<open>pipe(7)\<close> asks for: \<open>EPIPE\<close> without readers, \<open>EAGAIN\<close> when
  nothing fits (or, up to \<open>PIPE_BUF\<close> bytes, when not everything fits), and otherwise the number of
  bytes that fit; those bytes are appended to the pipe's unread bytes, and on an error the unread
  bytes are unchanged.
\<close>

theorem pipe_write_nonblocking_result:
  assumes "quiet ctx" and "pipes_ok s" and "fd_is_nonblocking (wc_flags ctx)" and "data \<noteq> []" and "2 \<le> n"
  shows "fst (pipe_write_blocking n ctx k data s) = Some (nonblocking_result (find_pipe k s) (length data)) \<and>
    ring_bytes k (ws_sys (snd (pipe_write_blocking n ctx k data s))) =
      ring_bytes k s @ take (nat (nonblocking_result (find_pipe k s) (length data))) data"
proof -
  define st where "st = \<lparr>ws_k = 0, ws_sys = s, ws_put = []\<rparr>"
  have st: "ws_sys st = s" by (simp add: st_def)
  obtain m where n: "n = Suc (Suc m)" using assms(5) by (metis Suc_le_D numeral_2_eq_2 Suc_le_mono)
  have run: "pipe_write_blocking n ctx k data s = write_passes (Suc (Suc m)) ctx k data 0 st"
    using assms(4) n by (simp add: pipe_write_blocking_def st_def)
  show ?thesis
  proof (cases "case find_pipe k s of None \<Rightarrow> True | Some p \<Rightarrow> p_readers p = 0")
    case True
    have "fst (write_pass ctx k data 0 st) = Done E_PIPE \<and> ws_sys (snd (write_pass ctx k data 0 st)) = s"
      using quiet_pass_closed [OF assms(1), of k st data 0] True st by (simp add: or_partial_def)
    moreover have "nonblocking_result (find_pipe k s) (length data) = E_PIPE"
      using True by (cases "find_pipe k s") (simp_all add: nonblocking_result_def)
    ultimately show ?thesis using passes_Done [of ctx k data 0 st E_PIPE "Suc m"] run by simp
  next
    case False
    then obtain p where p: "find_pipe k s = Some p" "p_readers p \<noteq> 0" by (auto split: option.splits)
    have R: "nonblocking_result (find_pipe k s) (length data) =
        (if space p = 0 \<or> length data \<le> PIPE_BUF \<and> space p < length data then E_AGAIN else int (min (space p) (length data)))"
      using p by (simp add: nonblocking_result_def)
    have "pipes_ok (ws_sys st)" "find_pipe k (ws_sys st) = Some p" using assms(2) p st by simp_all
    note q = quiet_nonblocking [OF assms(1) this(1) assms(3) this(2) p(2) assms(4), of m, folded run, unfolded st]
    show ?thesis
    proof (cases "space p = 0 \<or> length data \<le> PIPE_BUF \<and> space p < length data")
      case True
      then show ?thesis using q by (simp only: R if_True) simp
    next
      case False
      then show ?thesis
        using q written_pipe(2) [OF assms(2) p(1)] by (simp only: R if_False) (simp add: min.commute)
    qed
  qed
qed

lemma demo_full: "find_pipe 1 (demo_pipes 65530) = Some p \<Longrightarrow> space p = 6 \<and> p_readers p = 1"
  by (auto simp: demo_pipes_find pipe_new_def space_def)

theorem pipe_write_nonblocking_result_witness:
  "quiet demo_ctx \<and> pipes_ok (demo_pipes 65530) \<and> fd_is_nonblocking (wc_flags demo_ctx) \<and>
   fst (pipe_write_blocking 2 demo_ctx 1 [7, 8, 9] (demo_pipes 65530)) = Some 3 \<and>
   fst (pipe_write_blocking 2 demo_ctx 1 (replicate 7 0) (demo_pipes 65530)) = Some E_AGAIN"
proof -
  have c: "quiet demo_ctx" "fd_is_nonblocking (wc_flags demo_ctx)"
    by (simp_all add: quiet_def demo_ctx_def fd_is_nonblocking_def)
  have ok: "pipes_ok (demo_pipes 65530)" by (rule demo_pipes_ok) simp
  obtain p where p: "find_pipe 1 (demo_pipes 65530) = Some p" using demo_pipes_find by blast
  note r = pipe_write_nonblocking_result [OF c(1) ok c(2) _ order_refl, of _ 1]
  show ?thesis
    using c ok r [of "[7, 8, 9]"] r [of "replicate 7 0"] p demo_full [OF p]
    by (simp add: nonblocking_result_def)
qed

theorem pipe_write_blocking_accounts_witness:
  "polite demo_ctx \<and> pipes_ok (demo_pipes 65530) \<and>
   (\<exists>st. pipe_write_blocking 2 demo_ctx 1 [7, 8, 9] (demo_pipes 65530) = (Some 3, st) \<and> ws_put st = [7, 8, 9])"
proof -
  have c: "quiet demo_ctx" "fd_is_nonblocking (wc_flags demo_ctx)"
    by (simp_all add: quiet_def demo_ctx_def fd_is_nonblocking_def)
  have ok: "pipes_ok (demo_pipes 65530)" by (rule demo_pipes_ok) simp
  obtain p where p: "find_pipe 1 (demo_pipes 65530) = Some p" using demo_pipes_find by blast
  let ?st = "\<lparr>ws_k = 0, ws_sys = demo_pipes 65530, ws_put = []\<rparr>"
  have "fst (write_passes (Suc (Suc 0)) demo_ctx 1 [7, 8, 9] 0 ?st) = Some 3"
    using quiet_nonblocking [OF c(1), of ?st 1 p "[7, 8, 9]" 0] ok c p demo_full [OF p] by simp
  moreover have "pipe_write_blocking 2 demo_ctx 1 [7, 8, 9] (demo_pipes 65530) = write_passes (Suc (Suc 0)) demo_ctx 1 [7, 8, 9] 0 ?st"
    by (simp add: pipe_write_blocking_def numeral_2_eq_2 del: write_passes.simps)
  ultimately have st: "pipe_write_blocking 2 demo_ctx 1 [7, 8, 9] (demo_pipes 65530) =
      (Some 3, snd (pipe_write_blocking 2 demo_ctx 1 [7, 8, 9] (demo_pipes 65530)))"
    by (simp add: prod_eq_iff del: write_passes.simps)
  from pipe_write_blocking_accounts [OF quiet_polite [OF c(1)] ok st] st quiet_polite [OF c(1)] ok show ?thesis
    by (intro conjI exI [of _ "snd (pipe_write_blocking 2 demo_ctx 1 [7, 8, 9] (demo_pipes 65530))"]) simp_all
qed

end
