(* ===== verification/Eventfd.thy ===== *)
theory Eventfd
  imports Park_Protocol
begin

text \<open>
  The eventfd table of \<open>ipc/eventfd.rs\<close>: counters in a fixed table of slots, reference counts of
  open file descriptions, and the wait lists of blocked readers. The operations are split at their
  lock boundaries as in the pipe theories; the parking protocol is interpreted on them.
\<close>

section \<open>State\<close>

abbreviation MAX_EVENTFDS :: nat where "MAX_EVENTFDS \<equiv> 64"
abbreviation EFD_NONBLOCK :: u32 where "EFD_NONBLOCK \<equiv> 0x0800"
abbreviation EFD_SEMAPHORE :: u32 where "EFD_SEMAPHORE \<equiv> 0x00000001"

record efd_entry =
  e_counter :: u64
  e_flags :: u32
  e_in_use :: bool
  e_refs :: u32
  e_rise_seq :: u64

definition efd_empty :: efd_entry where
  "efd_empty = \<lparr>e_counter = 0, e_flags = 0, e_in_use = False, e_refs = 0, e_rise_seq = 0\<rparr>"

record efd_sys =
  ef_table :: "efd_entry list"
  ef_waiters :: "(u64, wait_list) btree"
  ef_env :: wait_env

datatype efd_error = EFD_EBADF | EFD_EAGAIN | EFD_EFBIG

datatype efd_outcome = EReady | EEnqueued | EGone

text \<open>\<open>table.get(id as usize)\<close>, for a slot in use.\<close>

definition efd_slot :: "u64 \<Rightarrow> efd_sys \<Rightarrow> efd_entry option" where
  "efd_slot i s =
     (if unat i < length (ef_table s) \<and> e_in_use (ef_table s ! unat i) then Some (ef_table s ! unat i) else None)"

definition efd_set :: "u64 \<Rightarrow> efd_entry \<Rightarrow> efd_sys \<Rightarrow> efd_sys" where
  "efd_set i e s = s\<lparr>ef_table := (ef_table s)[unat i := e]\<rparr>"

section \<open>Operations\<close>

definition efd_create :: "u64 \<Rightarrow> u32 \<Rightarrow> efd_sys \<Rightarrow> u64 \<times> efd_sys" where
  "efd_create initval fl s =
     (case position (\<lambda>e. \<not> e_in_use e) (ef_table s) of
        Some i \<Rightarrow>
          (of_nat i, s\<lparr>ef_table := (ef_table s)
             [i := (ef_table s ! i)\<lparr>e_in_use := True, e_counter := initval, e_flags := fl, e_refs := 1\<rparr>]\<rparr>)
      | None \<Rightarrow> (- 1, s))"

definition inc_ref :: "u64 \<Rightarrow> efd_sys \<Rightarrow> efd_sys" where
  "inc_ref i s =
     (case efd_slot i s of
        Some e \<Rightarrow> efd_set i (e\<lparr>e_refs := saturating_add (e_refs e) 1\<rparr>) s
      | None \<Rightarrow> s)"

definition try_read :: "u64 \<Rightarrow> efd_sys \<Rightarrow> (efd_error + u64) \<times> efd_sys" where
  "try_read i s =
     (case efd_slot i s of
        None \<Rightarrow> (Inl EFD_EBADF, s)
      | Some e \<Rightarrow>
          if e_counter e = 0 then (Inl EFD_EAGAIN, s)
          else if e_flags e AND EFD_SEMAPHORE \<noteq> 0
          then (Inr (e_counter e), efd_set i (e\<lparr>e_counter := e_counter e - 1\<rparr>) s)
          else (Inr (e_counter e), efd_set i (e\<lparr>e_counter := 0\<rparr>) s))"

definition peek_counter :: "u64 \<Rightarrow> efd_sys \<Rightarrow> u64 option" where
  "peek_counter i s = map_option e_counter (efd_slot i s)"

definition rise_seq :: "u64 \<Rightarrow> efd_sys \<Rightarrow> u64 option" where
  "rise_seq i s = map_option e_rise_seq (efd_slot i s)"

definition is_efd_nonblock :: "u64 \<Rightarrow> efd_sys \<Rightarrow> bool" where
  "is_efd_nonblock i s = (case efd_slot i s of Some e \<Rightarrow> e_flags e AND EFD_NONBLOCK \<noteq> 0 | None \<Rightarrow> False)"

definition efd_write :: "u64 \<Rightarrow> u64 \<Rightarrow> efd_sys \<Rightarrow> (efd_error + unit) \<times> efd_sys" where
  "efd_write i val s =
     (case efd_slot i s of
        None \<Rightarrow> (Inl EFD_EBADF, s)
      | Some e \<Rightarrow>
          if - 1 - 1 - e_counter e < val then (Inl EFD_EFBIG, s)
          else
            (let was_zero = (e_counter e = 0);
                 e1 = e\<lparr>e_counter := e_counter e + val\<rparr>;
                 e2 = (if was_zero \<and> 0 < val then e1\<lparr>e_rise_seq := e_rise_seq e1 + 1\<rparr> else e1)
             in (Inr (), efd_set i e2 s)))"

definition is_readable :: "u64 \<Rightarrow> efd_sys \<Rightarrow> bool" where
  "is_readable i s = (case efd_slot i s of Some e \<Rightarrow> 0 < e_counter e | None \<Rightarrow> False)"

definition close_slot :: "u64 \<Rightarrow> efd_sys \<Rightarrow> bool \<times> efd_sys" where
  "close_slot i s =
     (case efd_slot i s of
        Some e \<Rightarrow>
          if 1 < e_refs e then (False, efd_set i (e\<lparr>e_refs := e_refs e - 1\<rparr>) s)
          else (True, efd_set i efd_empty s)
      | None \<Rightarrow> (False, s))"

definition efd_drain :: "u64 \<Rightarrow> efd_sys \<Rightarrow> u64 list \<times> efd_sys" where
  "efd_drain i s = (let (v, m) = drain_waiters i (ef_waiters s) in (v, s\<lparr>ef_waiters := m\<rparr>))"

definition efd_wake :: "u64 \<Rightarrow> u64 list \<Rightarrow> efd_sys \<Rightarrow> efd_sys" where
  "efd_wake cur tids s = s\<lparr>ef_env := wake_env cur tids (ef_env s)\<rparr>"

definition efd_ring :: "u64 \<Rightarrow> efd_sys \<Rightarrow> efd_sys" where
  "efd_ring cur s = s\<lparr>ef_env := ring_poll_bell_for SrcEventfd cur (ef_env s)\<rparr>"

definition efd_wake_readers_all :: "u64 \<Rightarrow> u64 \<Rightarrow> efd_sys \<Rightarrow> efd_sys" where
  "efd_wake_readers_all cur i s = (let (v, s') = efd_drain i s in efd_ring cur (efd_wake cur v s'))"

definition efd_close :: "u64 \<Rightarrow> u64 \<Rightarrow> efd_sys \<Rightarrow> efd_sys" where
  "efd_close cur i s =
     (let (freed, s') = close_slot i s in if freed then efd_wake_readers_all cur i s' else s')"

definition efd_wait_readable :: "u64 \<Rightarrow> u64 \<Rightarrow> u64 \<Rightarrow> efd_sys \<Rightarrow> efd_outcome \<times> efd_sys" where
  "efd_wait_readable tid i wake_tick s =
     (case efd_slot i s of
        None \<Rightarrow> (EGone, s)
      | Some e \<Rightarrow>
          if 0 < e_counter e then (EReady, s)
          else
            (let (l, ths) = enqueue_self_blocked tid wake_tick (waiters (ef_waiters s) i) (we_threads (ef_env s))
             in (EEnqueued, s\<lparr>ef_waiters := bt_insert i l (ef_waiters s), ef_env := (ef_env s)\<lparr>we_threads := ths\<rparr>\<rparr>)))"

definition efd_waiter_cleanup :: "u64 \<Rightarrow> u64 \<Rightarrow> efd_sys \<Rightarrow> efd_sys" where
  "efd_waiter_cleanup i tid s = s\<lparr>ef_waiters := cleanup_waiters i tid (ef_waiters s)\<rparr>"

section \<open>Sequences of operations on one eventfd\<close>

datatype efd_op = EWrite u64 | ERead

text \<open>The values accepted by the writes and the values returned by the reads.\<close>

fun efd_run :: "u64 \<Rightarrow> efd_op list \<Rightarrow> efd_sys \<Rightarrow> u64 list \<times> u64 list \<times> efd_sys" where
  "efd_run i [] s = ([], [], s)"
| "efd_run i (EWrite v # ops) s =
     (case efd_write i v s of
        (Inr _, s') \<Rightarrow> (case efd_run i ops s' of (ws, rs, t) \<Rightarrow> (v # ws, rs, t))
      | (Inl _, s') \<Rightarrow> efd_run i ops s')"
| "efd_run i (ERead # ops) s =
     (case try_read i s of
        (Inr v, s') \<Rightarrow> (case efd_run i ops s' of (ws, rs, t) \<Rightarrow> (ws, v # rs, t))
      | (Inl _, s') \<Rightarrow> efd_run i ops s')"

text \<open>The value taken out of the counter by the reads.\<close>

definition taken :: "u32 \<Rightarrow> u64 list \<Rightarrow> nat" where
  "taken fl rs = (if fl AND EFD_SEMAPHORE \<noteq> 0 then length rs else sum_list (map unat rs))"

definition efd_ok :: "efd_sys \<Rightarrow> bool" where
  "efd_ok s \<longleftrightarrow> length (ef_table s) = MAX_EVENTFDS \<and> tids_ok (we_threads (ef_env s))"

definition efd_ready :: "u64 \<Rightarrow> efd_sys \<Rightarrow> bool" where
  "efd_ready i s = (case efd_slot i s of None \<Rightarrow> True | Some e \<Rightarrow> 0 < e_counter e)"

definition efd_blocked :: "efd_sys \<Rightarrow> u64 set" where
  "efd_blocked s = blocked_tids (we_threads (ef_env s))"

definition efd_queue :: "u64 \<Rightarrow> efd_sys \<Rightarrow> u64 set" where
  "efd_queue i s = set (waiters (ef_waiters s) i)"

text \<open>
  The other critical sections, as the readers of eventfd \<open>i\<close> see them; the flag tells whether the
  caller goes on to \<open>wake_readers_all\<close> for \<open>i\<close>, as the \<open>write\<close> system call and \<open>close\<close> do.
\<close>

inductive efd_change :: "u64 \<Rightarrow> notice \<Rightarrow> efd_sys \<Rightarrow> efd_sys \<Rightarrow> bool" for i where
  "efd_create v fl s = (j, s') \<Longrightarrow> efd_change i Quiet s s'"
| "efd_change i Quiet s (inc_ref j s)"
| "try_read j s = (r, s') \<Longrightarrow> efd_change i Quiet s s'"
| "efd_write j v s = (r, s') \<Longrightarrow> efd_change i (announce (j = i \<and> r = Inr ())) s s'"
| "close_slot j s = (b, s') \<Longrightarrow> efd_change i (announce (j = i \<and> b)) s s'"
| "efd_wait_readable tid j w s = (r, s') \<Longrightarrow> j \<noteq> i \<or> r \<noteq> EEnqueued \<Longrightarrow> efd_change i Quiet s s'"
| "j \<noteq> i \<Longrightarrow> efd_drain j s = (v, s') \<Longrightarrow> efd_change i Quiet s s'"
| "j \<noteq> i \<Longrightarrow> efd_change i Quiet s (efd_waiter_cleanup j tid s)"
| "efd_change i Quiet s (efd_wake cur tids s)"
| "efd_change i Quiet s (efd_ring cur s)"

inductive efd_parks :: "u64 \<Rightarrow> u64 \<Rightarrow> unit \<Rightarrow> efd_sys \<Rightarrow> efd_sys \<Rightarrow> bool" for i where
  "efd_wait_readable tid i w s = (EEnqueued, s') \<Longrightarrow> efd_parks i tid () s s'"

definition efd_drains :: "u64 \<Rightarrow> efd_sys \<Rightarrow> u64 list \<Rightarrow> efd_sys \<Rightarrow> bool" where
  "efd_drains i s tids s' \<longleftrightarrow> efd_drain i s = (tids, s')"

definition efd_wakes :: "u64 list \<Rightarrow> efd_sys \<Rightarrow> efd_sys \<Rightarrow> bool" where
  "efd_wakes tids s s' \<longleftrightarrow> (\<exists>cur. s' = efd_wake cur tids s)"

definition efd_resumes :: "u64 \<Rightarrow> u64 \<Rightarrow> efd_sys \<Rightarrow> efd_sys \<Rightarrow> bool" where
  "efd_resumes i tid s s' \<longleftrightarrow> s' = efd_waiter_cleanup i tid s"

abbreviation efd_step :: "u64 \<Rightarrow> (efd_sys, unit) park_cfg \<Rightarrow> (efd_sys, unit) park_cfg \<Rightarrow> bool" where
  "efd_step i \<equiv> park_step (efd_change i) (efd_parks i) (efd_drains i) efd_wakes (efd_resumes i) efd_blocked"

definition demo_efds :: "u64 \<Rightarrow> u32 \<Rightarrow> efd_sys" where
  "demo_efds c fl = \<lparr>ef_table = replicate 2 efd_empty @ [\<lparr>e_counter = c, e_flags = fl, e_in_use = True, e_refs = 2, e_rise_seq = 0\<rparr>]
       @ replicate 61 efd_empty, ef_waiters = [], ef_env = demo_env\<rparr>"

section \<open>Accounting\<close>

lemma efd_slot_set:
  "efd_slot i s = Some e \<Longrightarrow> efd_slot j (efd_set i e' s) = (if j = i then if e_in_use e' then Some e' else None else efd_slot j s)"
  by (auto simp: efd_slot_def efd_set_def nth_list_update word_unat_eq_iff split: if_splits)

lemma efd_slot_in_use: "efd_slot i s = Some e \<Longrightarrow> e_in_use e"
  by (auto simp: efd_slot_def split: if_splits)

lemma write_accepts:
  assumes "e_counter e < - 1" "\<not> - 1 - 1 - e_counter e < val"
  shows "unat (e_counter e + val) = unat (e_counter e) + unat val \<and> e_counter e + val < - 1"
proof -
  have c: "unat (e_counter e) < 2 ^ 64 - 1" using assms(1) by (simp add: word_less_nat_alt unat_all_ones)
  have m: "unat (- 1 - 1 :: u64) = 2 ^ 64 - 2" by simp
  have "e_counter e \<le> - 1 - 1" unfolding word_le_nat_alt m using c by linarith
  then have "unat (- 1 - 1 - e_counter e) = 2 ^ 64 - 2 - unat (e_counter e)" using m by (simp only: unat_sub_u64)
  then have v: "unat val \<le> 2 ^ 64 - 2 - unat (e_counter e)"
    using assms(2) unfolding word_less_nat_alt by linarith
  then have "unat (e_counter e) + unat val < 2 ^ 64" using c by linarith
  then have "unat (e_counter e + val) = unat (e_counter e) + unat val" by (rule unat_add_u64)
  moreover from this have "e_counter e + val < - 1" using v c by (simp add: word_less_nat_alt unat_all_ones)
  ultimately show ?thesis by simp
qed

lemma efd_write_step:
  assumes "efd_slot i s = Some e" "e_counter e < - 1" "efd_write i v s = (r, s')"
  shows "\<exists>e'. efd_slot i s' = Some e' \<and> e_counter e' < - 1 \<and> e_flags e' = e_flags e \<and>
    unat (e_counter e') = unat (e_counter e) + (case r of Inr _ \<Rightarrow> unat v | Inl _ \<Rightarrow> 0)"
proof (cases "- 1 - 1 - e_counter e < v")
  case True
  then show ?thesis using assms by (auto simp: efd_write_def)
next
  case False
  have e: "e_in_use e" using efd_slot_in_use [OF assms(1)] .
  from False assms obtain e' where "r = Inr ()" "s' = efd_set i e' s" "e_counter e' = e_counter e + v"
    "e_flags e' = e_flags e" "e_in_use e'"
    using e by (auto simp: efd_write_def Let_def split: if_splits)
  then show ?thesis using write_accepts [OF assms(2) False] efd_slot_set [OF assms(1), of i e'] by simp
qed

lemma try_read_step:
  assumes "efd_slot i s = Some e" "e_counter e < - 1" "try_read i s = (r, s')"
  shows "\<exists>e'. efd_slot i s' = Some e' \<and> e_counter e' < - 1 \<and> e_flags e' = e_flags e \<and>
    (case r of Inl _ \<Rightarrow> e_counter e' = e_counter e
     | Inr v \<Rightarrow> v = e_counter e \<and> 0 < unat v \<and>
         unat (e_counter e') = (if e_flags e AND EFD_SEMAPHORE \<noteq> 0 then unat v - 1 else 0))"
proof (cases "e_counter e = 0")
  case True
  then show ?thesis using assms by (auto simp: try_read_def)
next
  case False
  then have pos: "0 < unat (e_counter e)" "unat (e_counter e - 1) = unat (e_counter e) - 1"
    by (simp_all add: unat_gt_0 unat_minus_one)
  then have lt: "e_counter e - 1 < - 1" using assms(2) unfolding word_less_nat_alt by linarith
  have "e_in_use e" using efd_slot_in_use [OF assms(1)] .
  then show ?thesis
    using assms False pos lt efd_slot_set [OF assms(1), of i "e\<lparr>e_counter := e_counter e - 1\<rparr>"]
      efd_slot_set [OF assms(1), of i "e\<lparr>e_counter := 0\<rparr>"]
    by (auto simp: try_read_def word_less_nat_alt unat_all_ones split: if_splits)
qed

lemma taken_Cons: "taken fl (v # rs) = (if fl AND EFD_SEMAPHORE \<noteq> 0 then 1 else unat v) + taken fl rs"
  by (simp add: taken_def)

text \<open>
  C23: An eventfd loses no post. For every sequence of writes and reads on an eventfd whose counter
  started below \<open>u64::MAX\<close>, the counter never reaches \<open>u64::MAX\<close>, and the initial count plus the
  sum of the accepted writes equals the final count plus what the reads took out: the sum of the
  values read, or one per read in semaphore mode.
\<close>

theorem eventfd_conserves:
  assumes "efd_slot i s = Some e" and "e_counter e < - 1" and "efd_run i ops s = (ws, rs, s')"
  shows "\<exists>e'. efd_slot i s' = Some e' \<and> e_counter e' < - 1 \<and>
    unat (e_counter e) + sum_list (map unat ws) = unat (e_counter e') + taken (e_flags e) rs"
  using assms
proof (induction ops arbitrary: s e ws rs)
  case Nil
  then show ?case by (auto simp: taken_def)
next
  case (Cons op ops)
  show ?case
  proof (cases op)
    case (EWrite v)
    obtain r s1 where w: "efd_write i v s = (r, s1)" by fastforce
    obtain ws1 rs1 where run: "efd_run i ops s1 = (ws1, rs1, s')" "rs = rs1"
        "sum_list (map unat ws) = (case r of Inr _ \<Rightarrow> unat v | Inl _ \<Rightarrow> 0) + sum_list (map unat ws1)"
      using Cons.prems(3) EWrite w by (auto split: sum.splits prod.splits)
    obtain e1 where "efd_slot i s1 = Some e1" "e_counter e1 < - 1" "e_flags e1 = e_flags e"
        "unat (e_counter e1) = unat (e_counter e) + (case r of Inr _ \<Rightarrow> unat v | Inl _ \<Rightarrow> 0)"
      using efd_write_step [OF Cons.prems(1,2) w] by blast
    with Cons.IH [OF this(1,2) run(1)] run(2,3) show ?thesis by (simp add: add.assoc)
  next
    case ERead
    obtain r s1 where rd: "try_read i s = (r, s1)" by fastforce
    obtain e1 where e1: "efd_slot i s1 = Some e1" "e_counter e1 < - 1" "e_flags e1 = e_flags e"
      and res: "case r of Inl _ \<Rightarrow> e_counter e1 = e_counter e
     | Inr v \<Rightarrow> v = e_counter e \<and> 0 < unat v \<and>
         unat (e_counter e1) = (if e_flags e AND EFD_SEMAPHORE \<noteq> 0 then unat v - 1 else 0)"
      using try_read_step [OF Cons.prems(1,2) rd] by blast
    show ?thesis
    proof (cases r)
      case (Inl err)
      then have "efd_run i ops s1 = (ws, rs, s')" using Cons.prems(3) ERead rd by simp
      from Cons.IH [OF e1(1,2) this] show ?thesis using res Inl e1(3) by simp
    next
      case (Inr v)
      then obtain rs1 where run: "efd_run i ops s1 = (ws, rs1, s')" "rs = v # rs1"
        using Cons.prems(3) ERead rd by (auto split: prod.splits)
      from Cons.IH [OF e1(1,2) run(1)] show ?thesis using res Inr e1(3) run(2) by (auto simp: taken_Cons)
    qed
  qed
qed

text \<open>
  The overflow guard of \<open>write\<close> itself overflows when the counter is \<open>u64::MAX\<close>, a value the
  \<open>eventfd2\<close> system call accepts as initial count: every write then succeeds and wraps the counter, so
  that a post of one leaves the eventfd not readable.
\<close>

theorem eventfd_guard_wraps:
  assumes "efd_slot i s = Some e" and "e_counter e = - 1"
  shows "fst (efd_write i v s) = Inr () \<and> peek_counter i (snd (efd_write i v s)) = Some (v - 1) \<and>
    \<not> is_readable i (snd (efd_write i 1 s))"
proof -
  have e: "e_in_use e" using efd_slot_in_use [OF assms(1)] .
  have "- 1 - 1 - e_counter e = - 1" using assms(2) by simp
  then have guard: "\<not> - 1 - 1 - e_counter e < v" for v by (simp only: not_less word_n1_ge)
  show ?thesis
    using assms guard e efd_slot_set [OF assms(1)]
    by (simp add: efd_write_def peek_counter_def is_readable_def Let_def)
qed

text \<open>
  In semaphore mode a successful read takes one from the counter but returns the whole count, where
  \<open>eventfd(2)\<close> specifies the value one.
\<close>

theorem eventfd_semaphore_returns_count:
  assumes "efd_slot i s = Some e" and "e_flags e AND EFD_SEMAPHORE \<noteq> 0" and "e_counter e \<noteq> 0"
  shows "fst (try_read i s) = Inr (e_counter e) \<and> peek_counter i (snd (try_read i s)) = Some (e_counter e - 1)"
proof -
  have "e_in_use e" using efd_slot_in_use [OF assms(1)] .
  then show ?thesis using assms efd_slot_set [OF assms(1)] by (simp add: try_read_def peek_counter_def)
qed

lemma demo_slot2: "efd_slot 2 (demo_efds c fl) = Some \<lparr>e_counter = c, e_flags = fl, e_in_use = True, e_refs = 2, e_rise_seq = 0\<rparr>"
  by (simp add: efd_slot_def demo_efds_def nth_append)

theorem eventfd_conserves_witness:
  "\<exists>e' s'. efd_run 2 [EWrite 5, ERead, EWrite 3, EWrite 4] (demo_efds 1 0) = ([5, 3, 4], [6], s') \<and>
     efd_slot 2 s' = Some e' \<and> unat (e_counter e') = 7"
proof -
  have lt: "(1::u64) < - 1" by (simp add: word_less_nat_alt unat_all_ones)
  obtain s' where run: "efd_run 2 [EWrite 5, ERead, EWrite 3, EWrite 4] (demo_efds 1 0) = ([5, 3, 4], [6], s')"
    by (simp add: efd_write_def try_read_def efd_slot_def efd_set_def demo_efds_def nth_append Let_def word_less_nat_alt unat_all_ones)
  from eventfd_conserves [OF demo_slot2 _ this] lt show ?thesis using run by (auto simp: taken_def)
qed

theorem eventfd_guard_wraps_witness:
  "fst (efd_write 2 7 (demo_efds (- 1) 0)) = Inr () \<and> peek_counter 2 (snd (efd_write 2 7 (demo_efds (- 1) 0))) = Some 6"
  using eventfd_guard_wraps [OF demo_slot2 [of "- 1" 0], of 7] by simp

theorem eventfd_semaphore_returns_count_witness:
  "fst (try_read 2 (demo_efds 9 1)) = Inr 9 \<and> peek_counter 2 (snd (try_read 2 (demo_efds 9 1))) = Some 8"
  using eventfd_semaphore_returns_count [OF demo_slot2 [of 9 1]] by simp

section \<open>The parking protocol for eventfds\<close>

lemma efd_set_fields [simp]:
  "ef_waiters (efd_set i e s) = ef_waiters s" "ef_env (efd_set i e s) = ef_env s"
  "length (ef_table (efd_set i e s)) = length (ef_table s)"
  by (simp_all add: efd_set_def)

lemma efd_ready_set:
  assumes "efd_slot j s = Some e" "efd_ready i (efd_set j e' s)" "j = i \<Longrightarrow> \<not> e_in_use e' \<or> 0 < e_counter e' \<Longrightarrow> a \<or> 0 < e_counter e"
  shows "j = i \<and> a \<or> efd_ready i s"
  using assms efd_slot_set [OF assms(1), of i e'] by (cases "i = j") (auto simp: efd_ready_def split: if_splits)

lemma efd_ready_lower:
  "efd_slot j s = Some e \<Longrightarrow> efd_ready i (efd_set j e' s) \<Longrightarrow> e_in_use e' = e_in_use e \<Longrightarrow> (0 < e_counter e' \<Longrightarrow> 0 < e_counter e) \<Longrightarrow> efd_ready i s"
  using efd_slot_set [of j s e i e'] efd_slot_in_use [of j s e] by (cases "i = j") (auto simp: efd_ready_def)

lemma efd_create_ready:
  assumes "efd_create v fl s = (j, s')" "efd_ready i s'"
  shows "efd_ready i s"
proof (cases "position (\<lambda>e. \<not> e_in_use e) (ef_table s)")
  case None
  then show ?thesis using assms by (simp add: efd_create_def)
next
  case (Some k)
  let ?e = "(ef_table s ! k)\<lparr>e_in_use := True, e_counter := v, e_flags := fl, e_refs := 1\<rparr>"
  have k: "k < length (ef_table s)" "\<not> e_in_use (ef_table s ! k)" using position_Some [OF Some] by auto
  have s': "s' = s\<lparr>ef_table := (ef_table s)[k := ?e]\<rparr>" using assms(1) Some by (simp add: efd_create_def)
  show ?thesis
  proof (cases "unat i = k")
    case True
    then show ?thesis using k by (simp add: efd_ready_def efd_slot_def)
  next
    case False
    then have "efd_slot i s' = efd_slot i s" using k s' by (simp add: efd_slot_def)
    then show ?thesis using assms(2) by (simp add: efd_ready_def)
  qed
qed

lemma efd_sections_same:
  "efd_create v fl s = (j, s') \<Longrightarrow> ef_waiters s' = ef_waiters s \<and> ef_env s' = ef_env s \<and> length (ef_table s') = length (ef_table s)"
  "try_read j s = (r, s') \<Longrightarrow> ef_waiters s' = ef_waiters s \<and> ef_env s' = ef_env s \<and> length (ef_table s') = length (ef_table s)"
  "efd_write j v s = (r', s') \<Longrightarrow> ef_waiters s' = ef_waiters s \<and> ef_env s' = ef_env s \<and> length (ef_table s') = length (ef_table s)"
  "close_slot j s = (b, s') \<Longrightarrow> ef_waiters s' = ef_waiters s \<and> ef_env s' = ef_env s \<and> length (ef_table s') = length (ef_table s)"
  by (auto simp: efd_create_def try_read_def efd_write_def close_slot_def Let_def split: option.splits if_splits)

lemma efd_ready_read: "try_read j s = (r, s') \<Longrightarrow> efd_ready i s' \<Longrightarrow> efd_ready i s"
  by (auto simp: try_read_def word_gt_0 elim!: efd_ready_lower dest: efd_slot_in_use split: option.splits if_splits)

lemma efd_ready_write:
  assumes "efd_write j v s = (r, s')" "efd_ready i s'"
  shows "j = i \<and> r = Inr () \<or> efd_ready i s"
proof (cases "efd_slot j s")
  case (Some e)
  show ?thesis
  proof (cases "- 1 - 1 - e_counter e < v")
    case True
    then show ?thesis using assms Some by (simp add: efd_write_def)
  next
    case False
    then obtain e' where "r = Inr ()" "s' = efd_set j e' s" using assms(1) Some by (auto simp: efd_write_def Let_def)
    then show ?thesis using efd_ready_set [OF Some, of i e' True] assms(2) by auto
  qed
qed (use assms in \<open>simp add: efd_write_def\<close>)

lemma efd_ready_close: "close_slot j s = (b, s') \<Longrightarrow> efd_ready i s' \<Longrightarrow> j = i \<and> b \<or> efd_ready i s"
  using efd_ready_set [of j s _ i efd_empty True]
  by (auto simp: close_slot_def elim!: efd_ready_lower dest: efd_slot_in_use split: option.splits if_splits)

lemma efd_wait_cases:
  assumes "efd_wait_readable tid i w s = (r, s')"
  shows "r \<noteq> EEnqueued \<and> s' = s \<or>
    r = EEnqueued \<and> \<not> efd_ready i s \<and> s' = s\<lparr>ef_waiters := bt_insert i (waiters (ef_waiters s) i @ [tid]) (ef_waiters s),
      ef_env := (ef_env s)\<lparr>we_threads := snd (enqueue_self_blocked tid w (waiters (ef_waiters s) i) (we_threads (ef_env s)))\<rparr>\<rparr>"
  using assms by (auto simp: efd_wait_readable_def efd_ready_def enqueue_self_blocked_def split: option.splits if_splits)

lemma efd_same_table: "ef_table s' = ef_table s \<Longrightarrow> efd_ready i s' = efd_ready i s"
  by (simp add: efd_ready_def efd_slot_def)

lemma efd_wake_law:
  "efd_ok s \<Longrightarrow> efd_ok (efd_wake cur tids s)" "ef_table (efd_wake cur tids s) = ef_table s"
  "efd_queue i (efd_wake cur tids s) = efd_queue i s"
  "efd_ok s \<Longrightarrow> efd_blocked (efd_wake cur tids s) = efd_blocked s - set tids"
  by (simp_all add: efd_wake_def efd_ok_def efd_queue_def efd_blocked_def tids_ok_wake_env blocked_wake_env)

lemma tids_ok_ring: "tids_ok (we_threads e) \<Longrightarrow> tids_ok (we_threads (ring_poll_bell_for src cur e))"
  using ring_drain_simps(3) [OF prod.collapse [of "ring_drain src e", symmetric]]
  by (simp add: ring_poll_bell_for_def split_def Let_def tids_ok_wake_env)

lemma efd_change_law:
  assumes "efd_ok s" "efd_change i a s s'"
  shows "efd_ok s' \<and> (efd_ready i s' \<longrightarrow> a \<noteq> Quiet \<or> efd_ready i s) \<and> efd_queue i s' = efd_queue i s"
  using assms(2)
proof cases
  case (1 v fl j)
  then show ?thesis using efd_sections_same(1) [OF 1(2)] efd_create_ready [OF 1(2), of i] assms(1) by (simp add: efd_ok_def efd_queue_def)
next
  case (2 j)
  have "efd_ready i s' \<Longrightarrow> efd_ready i s"
    using 2 by (auto simp: inc_ref_def elim!: efd_ready_lower dest: efd_slot_in_use split: option.splits)
  then show ?thesis using 2 assms(1) by (auto simp: efd_ok_def efd_queue_def inc_ref_def split: option.splits)
next
  case (3 j r)
  then show ?thesis using efd_sections_same(2) [OF 3(2)] efd_ready_read [OF 3(2), of i] assms(1) by (simp add: efd_ok_def efd_queue_def)
next
  case (4 j v r)
  then show ?thesis using efd_sections_same(3) [OF 4(2)] efd_ready_write [OF 4(2), of i] assms(1) by (auto simp: efd_ok_def efd_queue_def)
next
  case (5 j b)
  then show ?thesis using efd_sections_same(4) [OF 5(2)] efd_ready_close [OF 5(2), of i] assms(1) by (auto simp: efd_ok_def efd_queue_def)
next
  case (6 tid j w r)
  then show ?thesis using efd_wait_cases [OF 6(2)] assms(1) efd_same_table [of s' s i]
    by (auto simp: efd_ok_def efd_queue_def tids_ok_enqueue)
next
  case (7 j v)
  then have "ef_table s' = ef_table s" "ef_env s' = ef_env s" "ef_waiters s' = snd (drain_waiters j (ef_waiters s))"
    by (auto simp: efd_drain_def split_def Let_def)
  then show ?thesis using 7 assms(1) efd_same_table [of s' s i] by (simp add: efd_ok_def efd_queue_def drain_waiters_simps)
next
  case (8 j tid)
  then show ?thesis using assms(1) efd_same_table [of s' s i] by (simp add: efd_ok_def efd_queue_def efd_waiter_cleanup_def cleanup_waiters_simp)
next
  case (9 cur tids)
  then show ?thesis using assms(1) efd_same_table [of s' s i] by (simp add: efd_wake_law)
next
  case (10 cur)
  then show ?thesis using assms(1) efd_same_table [of s' s i] by (simp add: efd_ring_def efd_ok_def efd_queue_def tids_ok_ring)
qed

interpretation ef: announced_parking efd_ok "\<lambda>_ :: unit. efd_ready i" "efd_queue i" efd_blocked
  "efd_change i" "efd_parks i" "efd_drains i" efd_wakes "efd_resumes i"
  for i
proof (unfold_locales, goal_cases)
  case (1 s a s' q)
  then show ?case by (rule efd_change_law)
next
  case (2 s tid q s' r)
  from 2(2) show ?case
  proof cases
    case (1 w)
    have "tids_ok (we_threads (ef_env s))" using 2(1) by (simp add: efd_ok_def)
    then show ?thesis
      using efd_wait_cases [OF 1(2)] 2(1) efd_same_table [of s' s i] blocked_enqueue
      by (auto simp: efd_ok_def efd_queue_def efd_blocked_def tids_ok_enqueue dest!: subsetD)
  qed
next
  case (3 s tids s')
  then have "ef_env s' = ef_env s" "ef_table s' = ef_table s" "ef_waiters s' = snd (drain_waiters i (ef_waiters s))"
    "tids = fst (drain_waiters i (ef_waiters s))"
    by (auto simp: efd_drains_def efd_drain_def split_def Let_def)
  then show ?case using 3(1) by (simp add: efd_ok_def efd_queue_def efd_blocked_def drain_waiters_simps)
next
  case (4 s tids s' q)
  then show ?case using efd_same_table [of s' s i] by (auto simp: efd_wakes_def efd_wake_law)
next
  case (5 s tid s' q)
  then show ?case
    using efd_same_table [of s' s i]
    by (simp add: efd_resumes_def efd_waiter_cleanup_def efd_ok_def efd_queue_def efd_blocked_def cleanup_waiters_simp)
next
  case (6 a s s')
  then show ?case by cases simp_all
qed

text \<open>
  C22: Readers of an eventfd lose no wake-up. In every interleaving of the critical sections of all
  eventfd operations, once the counter is positive or the slot is gone and every wake-up call owed to
  the readers has completed, no thread that parked in \<open>wait_readable\<close> on it is still blocked.
\<close>

theorem eventfd_no_lost_wakeup:
  assumes "(efd_step i)\<^sup>*\<^sup>* (park_init s) c" and "efd_ok s"
    and "pc_due c = 0" and "pc_pending c = []" and "efd_ready i (pc_sys c)"
    and "t \<in> set (we_threads (ef_env (pc_sys c)))" and "(th_tid t, ()) \<in> pc_parked c"
  shows "th_state t \<noteq> Blocked"
  using ef.announced_no_lost_wakeup [OF assms(1-4,7,5)] assms(6) by (auto simp: efd_blocked_def blocked_tids_def)

theorem eventfd_no_lost_wakeup_witness:
  "\<exists>c. efd_ok (demo_efds 0 0) \<and> (efd_step 2)\<^sup>*\<^sup>* (park_init (demo_efds 0 0)) c \<and> pc_parked c = {(1, ())} \<and>
     pc_due c = 0 \<and> pc_pending c = [] \<and> efd_ready 2 (pc_sys c) \<and>
     (\<forall>t \<in> set (we_threads (ef_env (pc_sys c))). th_tid t = 1 \<longrightarrow> th_state t \<noteq> Blocked)"
proof -
  let ?s0 = "demo_efds 0 0"
  let ?s1 = "snd (efd_wait_readable 1 2 (- 1) ?s0)"
  let ?s2 = "snd (efd_write 2 1 ?s1)"
  let ?s3 = "snd (efd_drain 2 ?s2)"
  let ?s4 = "efd_wake 2 [1] ?s3"
  let ?c = "\<lparr>pc_sys = ?s4, pc_due = 0, pc_pending = [], pc_parked = {(1, ())}, pc_missed = {}\<rparr>"
  have ok: "efd_ok ?s0" by (simp add: efd_ok_def demo_efds_def demo_env_def demo_thread_def tids_ok_def)
  have w: "efd_wait_readable 1 2 (- 1) ?s0 = (EEnqueued, ?s1)" and q: "waiters (ef_waiters ?s1) 2 = [1]"
    and t: "ef_table ?s1 = ef_table ?s0"
    by (simp_all add: efd_wait_readable_def demo_slot2 enqueue_self_blocked_def) (simp add: demo_efds_def waiters_def)
  have "efd_slot 2 ?s1 = efd_slot 2 ?s0" using t by (simp only: efd_slot_def)
  then have sl: "efd_slot 2 ?s1 = Some \<lparr>e_counter = 0, e_flags = 0, e_in_use = True, e_refs = 2, e_rise_seq = 0\<rparr>"
    by (simp only: demo_slot2)
  have wr: "efd_write 2 1 ?s1 = (Inr (), ?s2)" "ef_waiters ?s2 = ef_waiters ?s1" "ef_env ?s2 = ef_env ?s1" "efd_ready 2 ?s2"
    using efd_slot_set [OF sl]
    by (simp_all add: efd_write_def sl Let_def efd_ready_def)
  have "efd_parks 2 1 () ?s0 ?s1" using w by (rule efd_parks.intros)
  moreover have "efd_change 2 Announced ?s1 ?s2" using efd_change.intros(4) [OF wr(1), of 2] by simp
  moreover have "efd_blocked ?s2 \<subseteq> efd_blocked ?s1" using wr(3) by (simp add: efd_blocked_def)
  moreover have "efd_drains 2 ?s2 [1] ?s3"
    using wr(2) q drain_waiters_simps(1) [of 2 "ef_waiters ?s2"] by (simp add: efd_drains_def efd_drain_def split_def)
  moreover have "efd_wakes [1] ?s3 ?s4" by (auto simp: efd_wakes_def)
  ultimately have run: "(efd_step 2)\<^sup>*\<^sup>* (park_init ?s0) ?c" by (rule park_round)
  have "ef_table ?s4 = ef_table ?s2" by (simp add: efd_wake_law efd_drain_def split_def Let_def)
  then have rd: "efd_ready 2 ?s4" using wr(4) efd_same_table by blast
  from eventfd_no_lost_wakeup [OF run ok] rd show ?thesis
    by (intro exI [of _ ?c]) (use run ok in simp)
qed

end
