(* ===== verification/Ke_Dispatcher.thy ===== *)
theory Ke_Dispatcher
  imports Waitlist
begin

text \<open>
  The dispatcher objects of \<open>ke/dispatcher.rs\<close>, \<open>ke/event.rs\<close>, \<open>ke/mutant.rs\<close> and
  \<open>ke/semaphore.rs\<close>: headers with wait blocks, the registry of objects, and the operations that
  signal them. A signal operation runs under the registry lock and takes the lock of the thread
  table inside it, so each is one step on the registry and the thread table. \<open>i32\<close> counts are
  integers with the wrap-around of release builds.
\<close>

section \<open>Objects\<close>

datatype object_type = EventObject | MutantObject | SemaphoreObject | TimerObject

datatype wait_type = WaitAll | WaitAny

record wait_block =
  wb_thread :: u64
  wb_type :: wait_type
  wb_key :: u32
  wb_satisfied :: bool

record header =
  h_type :: object_type
  h_signal :: int
  h_waits :: "wait_block list"

definition header_new :: "object_type \<Rightarrow> int \<Rightarrow> header" where
  "header_new ty initial_signal = \<lparr>h_type = ty, h_signal = initial_signal, h_waits = []\<rparr>"

definition is_signaled :: "header \<Rightarrow> bool" where
  "is_signaled h \<longleftrightarrow> 0 < h_signal h"

datatype event_type = NotificationEvent | SynchronizationEvent

record ke_event =
  ev_header :: header
  ev_type :: event_type

definition event_new :: "event_type \<Rightarrow> ke_event" where
  "event_new ty = \<lparr>ev_header = header_new EventObject 0, ev_type = ty\<rparr>"

record ke_mutant =
  mu_header :: header
  mu_owner :: "u64 option"
  mu_recursion :: u32
  mu_abandoned :: bool

definition mutant_new :: ke_mutant where
  "mutant_new = \<lparr>mu_header = header_new MutantObject 1, mu_owner = None, mu_recursion = 0, mu_abandoned = False\<rparr>"

record ke_semaphore =
  se_header :: header
  se_limit :: int

definition semaphore_new :: "int \<Rightarrow> int \<Rightarrow> ke_semaphore" where
  "semaphore_new initial_count lim = \<lparr>se_header = header_new SemaphoreObject initial_count, se_limit = lim\<rparr>"

record ke_timer =
  ti_header :: header
  ti_id :: u64
  ti_active :: bool

definition timer_new :: ke_timer where
  "timer_new = \<lparr>ti_header = header_new TimerObject 0, ti_id = 0, ti_active = False\<rparr>"

datatype entry = Event ke_event | Mutant ke_mutant | Semaphore ke_semaphore | Timer ke_timer

fun entry_header :: "entry \<Rightarrow> header" where
  "entry_header (Event e) = ev_header e"
| "entry_header (Mutant m) = mu_header m"
| "entry_header (Semaphore s) = se_header s"
| "entry_header (Timer t) = ti_header t"

fun map_header :: "(header \<Rightarrow> header) \<Rightarrow> entry \<Rightarrow> entry" where
  "map_header f (Event e) = Event (e\<lparr>ev_header := f (ev_header e)\<rparr>)"
| "map_header f (Mutant m) = Mutant (m\<lparr>mu_header := f (mu_header m)\<rparr>)"
| "map_header f (Semaphore s) = Semaphore (s\<lparr>se_header := f (se_header s)\<rparr>)"
| "map_header f (Timer t) = Timer (t\<lparr>ti_header := f (ti_header t)\<rparr>)"

section \<open>The registry\<close>

text \<open>The registry is \<open>None\<close> until \<open>init\<close>.\<close>

record dispatcher =
  dp_next_id :: u64
  dp_registry :: "(u64, entry) btree option"
  dp_threads :: "thread list"

definition ke_init :: "dispatcher \<Rightarrow> dispatcher" where
  "ke_init d = d\<lparr>dp_registry := Some []\<rparr>"

definition register :: "entry \<Rightarrow> dispatcher \<Rightarrow> u64 \<times> dispatcher" where
  "register en d =
     (let i = dp_next_id d
      in (i, d\<lparr>dp_next_id := i + 1, dp_registry := map_option (bt_insert i en) (dp_registry d)\<rparr>))"

definition create_event :: "event_type \<Rightarrow> dispatcher \<Rightarrow> u64 \<times> dispatcher" where
  "create_event ty d = register (Event (event_new ty)) d"

definition create_mutant :: "dispatcher \<Rightarrow> u64 \<times> dispatcher" where
  "create_mutant d = register (Mutant mutant_new) d"

definition create_semaphore :: "int \<Rightarrow> int \<Rightarrow> dispatcher \<Rightarrow> u64 \<times> dispatcher" where
  "create_semaphore initial_count lim d = register (Semaphore (semaphore_new initial_count lim)) d"

definition create_timer :: "dispatcher \<Rightarrow> u64 \<times> dispatcher" where
  "create_timer d = register (Timer timer_new) d"

definition destroy_object :: "u64 \<Rightarrow> dispatcher \<Rightarrow> dispatcher" where
  "destroy_object i d = d\<lparr>dp_registry := map_option (bt_remove i) (dp_registry d)\<rparr>"

definition ke_get :: "u64 \<Rightarrow> dispatcher \<Rightarrow> entry option" where
  "ke_get i d = (case dp_registry d of Some m \<Rightarrow> bt_get m i | None \<Rightarrow> None)"

definition ke_put :: "u64 \<Rightarrow> entry \<Rightarrow> dispatcher \<Rightarrow> dispatcher" where
  "ke_put i en d = d\<lparr>dp_registry := map_option (bt_insert i en) (dp_registry d)\<rparr>"

definition read_signal_state :: "u64 \<Rightarrow> dispatcher \<Rightarrow> int option" where
  "read_signal_state i d = map_option (\<lambda>en. h_signal (entry_header en)) (ke_get i d)"

definition object_type_of :: "u64 \<Rightarrow> dispatcher \<Rightarrow> object_type option" where
  "object_type_of i d =
     map_option (\<lambda>en. case en of Event _ \<Rightarrow> EventObject | Mutant _ \<Rightarrow> MutantObject
        | Semaphore _ \<Rightarrow> SemaphoreObject | Timer _ \<Rightarrow> TimerObject) (ke_get i d)"

section \<open>Signalling\<close>

definition ready_boosted :: "thread \<Rightarrow> thread" where
  "ready_boosted t = (if th_state t = Blocked then apply_wake_boost (t\<lparr>th_state := Ready\<rparr>) else t)"

definition wake_blocked_waiters :: "header \<Rightarrow> thread list \<Rightarrow> thread list" where
  "wake_blocked_waiters h ths =
     fold (\<lambda>wb. upd_first (\<lambda>t. th_tid t = wb_thread wb) ready_boosted) (filter wb_satisfied (h_waits h)) ths"

definition satisfy :: "wait_block \<Rightarrow> wait_block" where
  "satisfy wb = wb\<lparr>wb_satisfied := True\<rparr>"

abbreviation unsatisfied :: "wait_block \<Rightarrow> bool" where
  "unsatisfied wb \<equiv> \<not> wb_satisfied wb"

definition set_event :: "ke_event \<Rightarrow> thread list \<Rightarrow> int \<times> ke_event \<times> thread list" where
  "set_event e ths =
     (let prev = h_signal (ev_header e);
          h = (ev_header e)\<lparr>h_signal := 1\<rparr>;
          h' = (case ev_type e of
                  NotificationEvent \<Rightarrow> h\<lparr>h_waits := map satisfy (h_waits h)\<rparr>
                | SynchronizationEvent \<Rightarrow>
                    (case List.find unsatisfied (h_waits h) of
                       Some _ \<Rightarrow> h\<lparr>h_waits := upd_first unsatisfied satisfy (h_waits h), h_signal := 0\<rparr>
                     | None \<Rightarrow> h))
      in (prev, e\<lparr>ev_header := h'\<rparr>, wake_blocked_waiters h' ths))"

definition reset_event :: "ke_event \<Rightarrow> int \<times> ke_event" where
  "reset_event e = (h_signal (ev_header e), e\<lparr>ev_header := (ev_header e)\<lparr>h_signal := 0\<rparr>\<rparr>)"

definition pulse_event :: "ke_event \<Rightarrow> thread list \<Rightarrow> int \<times> ke_event \<times> thread list" where
  "pulse_event e ths =
     (let h' = (ev_header e)\<lparr>h_waits := map satisfy (h_waits (ev_header e)), h_signal := 0\<rparr>
      in (h_signal (ev_header e), e\<lparr>ev_header := h'\<rparr>, wake_blocked_waiters h' ths))"

definition acquire_mutant :: "u64 \<Rightarrow> ke_mutant \<Rightarrow> bool \<times> ke_mutant" where
  "acquire_mutant tid m =
     (case mu_owner m of
        None \<Rightarrow>
          (True, m\<lparr>mu_owner := Some tid, mu_recursion := 1, mu_header := (mu_header m)\<lparr>h_signal := 0\<rparr>\<rparr>)
      | Some owner \<Rightarrow>
          if owner = tid then (True, m\<lparr>mu_recursion := mu_recursion m + 1\<rparr>) else (False, m))"

definition release_mutant :: "u64 \<Rightarrow> ke_mutant \<Rightarrow> thread list \<Rightarrow> bool \<times> ke_mutant \<times> thread list" where
  "release_mutant tid m ths =
     (if mu_owner m = Some tid then
        (let m1 = m\<lparr>mu_recursion := mu_recursion m - 1\<rparr>
         in if mu_recursion m1 = 0 then
              (let h = (mu_header m1)\<lparr>h_signal := 1\<rparr>;
                   m2 = (case List.find unsatisfied (h_waits h) of
                           Some wb \<Rightarrow>
                             m1\<lparr>mu_owner := Some (wb_thread wb), mu_recursion := 1,
                                mu_header := h\<lparr>h_waits := upd_first unsatisfied satisfy (h_waits h), h_signal := 0\<rparr>\<rparr>
                         | None \<Rightarrow> m1\<lparr>mu_owner := None, mu_header := h\<rparr>)
               in (True, m2, wake_blocked_waiters (mu_header m2) ths))
            else (True, m1, ths))
      else (False, m, ths))"

text \<open>The loop of \<open>release_semaphore\<close>: satisfies unsatisfied waiters while fewer than \<open>avail\<close> were woken.\<close>

fun wake_sem_loop :: "int \<Rightarrow> int \<Rightarrow> wait_block list \<Rightarrow> int \<times> wait_block list" where
  "wake_sem_loop avail w [] = (w, [])"
| "wake_sem_loop avail w (wb # wbs) =
     (if unsatisfied wb \<and> w < avail
      then (let (w', wbs') = wake_sem_loop avail (w + 1) wbs in (w', satisfy wb # wbs'))
      else (let (w', wbs') = wake_sem_loop avail w wbs in (w', wb # wbs')))"

definition release_semaphore :: "int \<Rightarrow> ke_semaphore \<Rightarrow> thread list \<Rightarrow> int \<times> ke_semaphore \<times> thread list" where
  "release_semaphore adjustment s ths =
     (let prev = h_signal (se_header s);
          new_count = i32_wrap (prev + adjustment)
      in if se_limit s < new_count then (- 1, s, ths)
         else
           (let h = (se_header s)\<lparr>h_signal := new_count\<rparr>;
                h' = (if 0 < new_count
                      then (let (w, wbs) = wake_sem_loop new_count 0 (h_waits h)
                            in h\<lparr>h_waits := wbs, h_signal := i32_wrap (new_count - w)\<rparr>)
                      else h)
            in (prev, s\<lparr>se_header := h'\<rparr>, wake_blocked_waiters h' ths)))"

text \<open>The first \<open>k\<close> unsatisfied waiters satisfied, and how many are waiting.\<close>

primrec satisfy_first :: "nat \<Rightarrow> wait_block list \<Rightarrow> wait_block list" where
  "satisfy_first k [] = []"
| "satisfy_first k (wb # wbs) =
     (if unsatisfied wb \<and> 0 < k then satisfy wb # satisfy_first (k - 1) wbs else wb # satisfy_first k wbs)"

definition waiting :: "wait_block list \<Rightarrow> nat" where
  "waiting wbs = length (filter unsatisfied wbs)"

section \<open>Mutual exclusion\<close>

datatype mutant_op = MAcquire u64 | MRelease u64 | MWait u64 u32

text \<open>
  A history of a mutant: threads try to acquire it, release it, or queue a wait block. Each thread's
  number of holds is counted from the results alone: a successful acquisition adds one, a successful
  release takes one, and a release that hands the mutant to a waiter gives one to that waiter.
\<close>

definition holds_after_release :: "ke_mutant \<Rightarrow> u64 \<Rightarrow> (u64 \<Rightarrow> nat) \<Rightarrow> (u64 \<Rightarrow> nat)" where
  "holds_after_release m tid held =
     (let held' = held(tid := held tid - 1)
      in if held' tid = 0
         then (case List.find unsatisfied (h_waits (mu_header m)) of
                 Some wb \<Rightarrow> held'(wb_thread wb := held' (wb_thread wb) + 1)
               | None \<Rightarrow> held')
         else held')"

fun mutant_run :: "mutant_op list \<Rightarrow> ke_mutant \<Rightarrow> (u64 \<Rightarrow> nat) \<Rightarrow> ke_mutant \<times> (u64 \<Rightarrow> nat)" where
  "mutant_run [] m held = (m, held)"
| "mutant_run (MAcquire t # ops) m held =
     (let (got, m') = acquire_mutant t m
      in mutant_run ops m' (if got then held(t := held t + 1) else held))"
| "mutant_run (MRelease t # ops) m held =
     (let (ok, m', _) = release_mutant t m []
      in mutant_run ops m' (if ok then holds_after_release m t held else held))"
| "mutant_run (MWait t key # ops) m held =
     mutant_run ops (m\<lparr>mu_header := (mu_header m)\<lparr>h_waits := h_waits (mu_header m) @
       [\<lparr>wb_thread = t, wb_type = WaitAny, wb_key = key, wb_satisfied = False\<rparr>]\<rparr>\<rparr>) held"

definition mutant_ok :: "ke_mutant \<Rightarrow> bool" where
  "mutant_ok m \<longleftrightarrow>
     (case mu_owner m of
        None \<Rightarrow> h_signal (mu_header m) = 1 \<and> mu_recursion m = 0
      | Some _ \<Rightarrow> h_signal (mu_header m) = 0 \<and> 0 < mu_recursion m)"

text \<open>The holds of every thread: the recursion count for the owner, none for the others.\<close>

definition holds :: "ke_mutant \<Rightarrow> u64 \<Rightarrow> nat" where
  "holds m t = (if mu_owner m = Some t then unat (mu_recursion m) else 0)"

lemma unat_inc_u32: "unat x + 1 < 2 ^ 32 \<Longrightarrow> unat (x + 1 :: u32) = unat x + 1"
  by (subst unat_add_lem [THEN iffD1]) simp_all

lemma acquire_step:
  assumes "mutant_ok m" "unat (mu_recursion m) + 1 < 2 ^ 32" "acquire_mutant t m = (got, m')"
  shows "mutant_ok m' \<and> unat (mu_recursion m') \<le> unat (mu_recursion m) + 1 \<and>
    holds m' = (if got then (holds m)(t := holds m t + 1) else holds m)"
proof (cases "mu_owner m")
  case None
  then have "got" "mu_owner m' = Some t" "mu_recursion m' = 1" "h_signal (mu_header m') = 0"
    using assms(3) by (auto simp: acquire_mutant_def)
  then show ?thesis using None by (auto simp: mutant_ok_def holds_def fun_eq_iff)
next
  case (Some w)
  have inc: "unat (mu_recursion m + 1) = unat (mu_recursion m) + 1" using assms(2) by (rule unat_inc_u32)
  then have "0 < mu_recursion m + 1" by (simp add: word_less_nat_alt)
  then show ?thesis
    using assms(1,3) Some inc by (auto simp: acquire_mutant_def mutant_ok_def holds_def fun_eq_iff split: if_splits)
qed

lemma release_step:
  assumes "mutant_ok m" "release_mutant t m ths = (ok, m', ths')"
  shows "mutant_ok m' \<and> unat (mu_recursion m') \<le> unat (mu_recursion m) + 1 \<and>
    holds m' = (if ok then holds_after_release m t (holds m) else holds m)"
proof (cases "mu_owner m = Some t")
  case False
  then show ?thesis using assms by (auto simp: release_mutant_def)
next
  case True
  then have rec: "0 < mu_recursion m" "h_signal (mu_header m) = 0" using assms(1) by (auto simp: mutant_ok_def)
  then have dec: "unat (mu_recursion m - 1) = unat (mu_recursion m) - 1" "0 < unat (mu_recursion m)"
    by (auto simp: unat_minus_one word_gt_0 unat_gt_0)
  have ok: "ok" using assms(2) True by (auto simp: release_mutant_def Let_def split: if_splits)
  show ?thesis
  proof (cases "mu_recursion m - 1 = 0")
    case False
    then have "0 < unat (mu_recursion m - 1)" by (simp add: unat_gt_0)
    then show ?thesis
      using assms(2) True False dec rec ok
      by (auto simp: release_mutant_def holds_after_release_def mutant_ok_def holds_def fun_eq_iff Let_def word_gt_0)
  next
    case zero: True
    then have one: "unat (mu_recursion m) = 1" using dec by (metis Suc_pred' One_nat_def unat_0)
    show ?thesis
      using assms(2) True zero one ok
      by (cases "List.find unsatisfied (h_waits (mu_header m))")
        (auto simp: release_mutant_def holds_after_release_def mutant_ok_def holds_def fun_eq_iff Let_def)
  qed
qed

lemma mutant_run_holds:
  "mutant_run ops m0 (holds m0) = (m, held) \<Longrightarrow> mutant_ok m0 \<Longrightarrow> unat (mu_recursion m0) + length ops < 2 ^ 32 \<Longrightarrow>
     mutant_ok m \<and> held = holds m"
proof (induction ops arbitrary: m0)
  case Nil
  then show ?case by auto
next
  case (Cons op ops)
  have bound: "unat (mu_recursion m0) + 1 + length ops < 2 ^ 32" using Cons.prems(3) by simp
  show ?case
  proof (cases op)
    case (MAcquire t)
    obtain got m1 where a: "acquire_mutant t m0 = (got, m1)" by fastforce
    note st = acquire_step [OF Cons.prems(2) _ a]
    have "mutant_ok m1" "holds m1 = (if got then (holds m0)(t := holds m0 t + 1) else holds m0)"
      "unat (mu_recursion m1) + length ops < 2 ^ 32" using st bound by auto
    then show ?thesis using Cons.IH [of m1] Cons.prems(1) MAcquire a by simp
  next
    case (MRelease t)
    obtain ok m1 ths where a: "release_mutant t m0 [] = (ok, m1, ths)" by (metis prod_cases3)
    note st = release_step [OF Cons.prems(2) a]
    then have "mutant_ok m1" "holds m1 = (if ok then holds_after_release m0 t (holds m0) else holds m0)"
      "unat (mu_recursion m1) + length ops < 2 ^ 32" using bound by auto
    then show ?thesis using Cons.IH [of m1] Cons.prems(1) MRelease a by simp
  next
    case (MWait t key)
    let ?m = "m0\<lparr>mu_header := (mu_header m0)\<lparr>h_waits := h_waits (mu_header m0) @
      [\<lparr>wb_thread = t, wb_type = WaitAny, wb_key = key, wb_satisfied = False\<rparr>]\<rparr>\<rparr>"
    have "mutant_ok ?m" "holds ?m = holds m0"
      using Cons.prems(2) by (simp_all add: mutant_ok_def holds_def fun_eq_iff split: option.splits)
    then show ?thesis using Cons.IH [of ?m] Cons.prems(1,3) MWait by simp
  qed
qed

text \<open>
  C36: Mutants exclude each other, recursively and with hand-over. After any history of fewer than
  \<open>2^32 - 1\<close> attempts to acquire, release and queue for a fresh mutant, at most one thread holds it: the
  owner, exactly as many times as its successful acquisitions (or the hand-over to it) exceed its
  successful releases; every other thread's acquisitions are all released, and the mutant is
  signalled exactly when nobody holds it.
\<close>

theorem mutant_exclusion:
  assumes "mutant_run ops mutant_new (\<lambda>_. 0) = (m, held)" and "length ops < 2 ^ 32 - 1"
  shows "(\<forall>t. held t = (if mu_owner m = Some t then unat (mu_recursion m) else 0)) \<and>
    h_signal (mu_header m) = (if \<forall>t. held t = 0 then 1 else 0)"
proof -
  have "holds mutant_new = (\<lambda>_. 0)" by (simp add: holds_def mutant_new_def fun_eq_iff)
  then have "mutant_ok m \<and> held = holds m"
    using mutant_run_holds [of ops mutant_new] assms by (simp add: mutant_ok_def mutant_new_def header_new_def)
  then show ?thesis
    by (auto simp: mutant_ok_def holds_def word_gt_0 unat_eq_0 split: option.splits)
qed

theorem mutant_exclusion_witness:
  "\<exists>m held. mutant_run [MAcquire 5, MAcquire 5, MWait 6 0, MRelease 5, MAcquire 6, MRelease 5] mutant_new (\<lambda>_. 0) = (m, held) \<and>
     mu_owner m = Some 6 \<and> held 6 = 1 \<and> held 5 = 0 \<and> h_signal (mu_header m) = 0"
proof -
  let ?ops = "[MAcquire 5, MAcquire 5, MWait 6 0, MRelease 5, MAcquire 6, MRelease 5]"
  obtain m held where run: "mutant_run ?ops mutant_new (\<lambda>_. 0) = (m, held)" and own: "mu_owner m = Some 6" "mu_recursion m = 1"
    by (simp add: acquire_mutant_def release_mutant_def mutant_new_def header_new_def Let_def)
  from mutant_exclusion [OF run] own have "\<forall>t. held t = (if t = 6 then 1 else 0)" "h_signal (mu_header m) = (if \<forall>t. held t = 0 then 1 else 0)"
    by auto
  then show ?thesis using run own by (intro exI [of _ m] exI [of _ held]) auto
qed

section \<open>Semaphores\<close>

lemma satisfy_first_0: "satisfy_first 0 wbs = wbs"
  by (induction wbs) simp_all

lemma wake_sem_loop_eq:
  "w \<le> avail \<Longrightarrow> wake_sem_loop avail w wbs =
     (w + int (min (nat (avail - w)) (waiting wbs)), satisfy_first (min (nat (avail - w)) (waiting wbs)) wbs)"
proof (induction wbs arbitrary: w)
  case Nil
  then show ?case by (simp add: waiting_def)
next
  case (Cons wb wbs)
  show ?case
  proof (cases "unsatisfied wb \<and> w < avail")
    case True
    have wt: "waiting (wb # wbs) = Suc (waiting wbs)" using True by (simp add: waiting_def)
    have n: "nat (avail - w) = Suc (nat (avail - (w + 1)))" using True by arith
    have "wake_sem_loop avail w (wb # wbs) =
        (w + 1 + int (min (nat (avail - (w + 1))) (waiting wbs)),
         satisfy wb # satisfy_first (min (nat (avail - (w + 1))) (waiting wbs)) wbs)"
      using Cons.IH [of "w + 1"] True by simp
    then show ?thesis using True by (simp only: wt n) simp
  next
    case False
    have "wake_sem_loop avail w (wb # wbs) =
        (w + int (min (nat (avail - w)) (waiting wbs)), wb # satisfy_first (min (nat (avail - w)) (waiting wbs)) wbs)"
      using Cons.IH [OF Cons.prems] False by auto
    then show ?thesis
    proof (cases "unsatisfied wb")
      case True
      then have "avail - w = 0" using False Cons.prems by simp
      then show ?thesis using Cons.IH [OF Cons.prems] False by (simp add: satisfy_first_0)
    qed (use Cons.IH [OF Cons.prems] in \<open>simp add: waiting_def\<close>)
  qed
qed

text \<open>
  Releasing a semaphore, without \<open>i32\<close> overflow: beyond the limit it reports failure and changes
  nothing; otherwise it returns the previous count, satisfies the oldest waiters, one per available unit,
  and keeps the remaining units, so that no unit is lost and units remain only when nobody waits.
\<close>

theorem release_semaphore_correct:
  assumes "0 \<le> h_signal (se_header s)" and "0 \<le> adj" and "h_signal (se_header s) + adj < 2 ^ 31"
  shows "let avail = h_signal (se_header s) + adj;
             k = min (nat avail) (waiting (h_waits (se_header s)));
             s' = s\<lparr>se_header := (se_header s)\<lparr>h_waits := satisfy_first k (h_waits (se_header s)), h_signal := avail - int k\<rparr>\<rparr>
    in release_semaphore adj s ths =
      (if se_limit s < avail then (- 1, s, ths)
       else (h_signal (se_header s), s', wake_blocked_waiters (se_header s') ths)) \<and>
      (0 < avail - int k \<longrightarrow> k = waiting (h_waits (se_header s)))"
proof -
  let ?c = "h_signal (se_header s)" and ?ws = "h_waits (se_header s)"
  let ?k = "min (nat (?c + adj)) (waiting ?ws)"
  have new: "i32_wrap (?c + adj) = ?c + adj" using assms by (intro i32_wrap_id) (simp add: i32_range_def)
  have left: "i32_wrap (?c + adj - int ?k) = ?c + adj - int ?k"
    using assms by (intro i32_wrap_id) (simp add: i32_range_def)
  show ?thesis
  proof (cases "0 < ?c + adj")
    case True
    then show ?thesis
      using wake_sem_loop_eq [of 0 "?c + adj" ?ws] left
      by (simp add: release_semaphore_def new Let_def)
  next
    case False
    then have "?c + adj = 0" using assms by linarith
    then show ?thesis by (simp add: release_semaphore_def i32_wrap_def Let_def satisfy_first_0)
  qed
qed

text \<open>
  The limit check of a semaphore is made on the wrapped sum: a release whose sum exceeds the largest
  \<open>i32\<close> passes the check and leaves a negative count, although it reports success.
\<close>

theorem release_semaphore_wraps:
  assumes "0 \<le> h_signal (se_header s)" and "adj < 2 ^ 31" and "h_signal (se_header s) < 2 ^ 31"
    and "2 ^ 31 \<le> h_signal (se_header s) + adj" and "0 \<le> se_limit s"
  shows "fst (release_semaphore adj s ths) = h_signal (se_header s) \<and>
    h_signal (se_header (fst (snd (release_semaphore adj s ths)))) < 0"
proof -
  have "i32_wrap (h_signal (se_header s) + adj) = h_signal (se_header s) + adj - 2 ^ 32"
  proof -
    have "(h_signal (se_header s) + adj + 2 ^ 31) mod 2 ^ 32 = h_signal (se_header s) + adj + 2 ^ 31 - 2 ^ 32"
      using assms by (subst minus_mod_self2 [symmetric]) simp
    then show ?thesis by (simp add: i32_wrap_def)
  qed
  then show ?thesis using assms by (simp add: release_semaphore_def Let_def)
qed

theorem release_semaphore_correct_witness:
  "fst (release_semaphore 2 ((semaphore_new 1 5)\<lparr>se_header := (header_new SemaphoreObject 1)\<lparr>h_waits :=
       [\<lparr>wb_thread = 4, wb_type = WaitAny, wb_key = 0, wb_satisfied = False\<rparr>]\<rparr>\<rparr>) []) = 1 \<and>
   h_signal (se_header (fst (snd (release_semaphore 2 ((semaphore_new 1 5)\<lparr>se_header := (header_new SemaphoreObject 1)\<lparr>h_waits :=
       [\<lparr>wb_thread = 4, wb_type = WaitAny, wb_key = 0, wb_satisfied = False\<rparr>]\<rparr>\<rparr>) [])))) = 2"
  using release_semaphore_correct [of "(semaphore_new 1 5)\<lparr>se_header := (header_new SemaphoreObject 1)\<lparr>h_waits :=
       [\<lparr>wb_thread = 4, wb_type = WaitAny, wb_key = 0, wb_satisfied = False\<rparr>]\<rparr>\<rparr>" 2 "[]"]
  by (simp add: semaphore_new_def header_new_def waiting_def)

theorem release_semaphore_wraps_witness:
  "fst (release_semaphore 0x7FFFFFFF (semaphore_new 1 10) []) = 1 \<and>
   h_signal (se_header (fst (snd (release_semaphore 0x7FFFFFFF (semaphore_new 1 10) [])))) < 0"
  using release_semaphore_wraps [of "semaphore_new 1 10" "0x7FFFFFFF" "[]"]
  by (simp add: semaphore_new_def header_new_def)

end
