(* ===== verification/Ke_Wait.thy ===== *)
theory Ke_Wait
  imports Ke_Dispatcher
begin

text \<open>
  Waiting for dispatcher objects (\<open>ke/wait.rs\<close>). A wait is a sequence of critical sections: try the
  objects, queue wait blocks, mark the thread blocked, give up the CPU, read the outcome. What the
  rest of the system does between them is an argument, one function per gap; a wait whose thread
  is still blocked after its last gap has not returned, which is the result \<open>None\<close>.
\<close>

section \<open>Satisfying waits\<close>

datatype wait_status = Satisfied u32 | Timeout | Abandoned | Failed

definition entry_signaled :: "entry \<Rightarrow> bool" where
  "entry_signaled en \<longleftrightarrow> 0 < h_signal (entry_header en)"

fun try_satisfy_entry :: "u64 \<Rightarrow> entry \<Rightarrow> wait_status option \<times> entry" where
  "try_satisfy_entry tid (Event e) =
     (if 0 < h_signal (ev_header e)
      then (Some (Satisfied 0),
            Event (if ev_type e = SynchronizationEvent then e\<lparr>ev_header := (ev_header e)\<lparr>h_signal := 0\<rparr>\<rparr> else e))
      else (None, Event e))"
| "try_satisfy_entry tid (Mutant m) =
     (if mu_abandoned m then (Some Abandoned, Mutant m)
      else if 0 < h_signal (mu_header m)
      then (Some (Satisfied 0),
            Mutant (m\<lparr>mu_owner := Some tid, mu_recursion := 1, mu_header := (mu_header m)\<lparr>h_signal := 0\<rparr>\<rparr>))
      else if mu_owner m = Some tid
      then (Some (Satisfied 0), Mutant (m\<lparr>mu_recursion := mu_recursion m + 1\<rparr>))
      else (None, Mutant m))"
| "try_satisfy_entry tid (Semaphore s) =
     (if 0 < h_signal (se_header s)
      then (Some (Satisfied 0), Semaphore (s\<lparr>se_header := (se_header s)\<lparr>h_signal := i32_wrap (h_signal (se_header s) - 1)\<rparr>\<rparr>))
      else (None, Semaphore s))"
| "try_satisfy_entry tid (Timer t) =
     (if 0 < h_signal (ti_header t) then (Some (Satisfied 0), Timer t) else (None, Timer t))"

definition try_satisfy_single :: "u64 \<Rightarrow> u64 \<Rightarrow> dispatcher \<Rightarrow> wait_status option \<times> dispatcher" where
  "try_satisfy_single tid i d =
     (case ke_get i d of
        None \<Rightarrow> (Some Failed, d)
      | Some en \<Rightarrow> (let (r, en') = try_satisfy_entry tid en in (r, ke_put i en' d)))"

fun consume_signal :: "u64 \<Rightarrow> entry \<Rightarrow> entry" where
  "consume_signal tid (Event e) =
     Event (if ev_type e = SynchronizationEvent then e\<lparr>ev_header := (ev_header e)\<lparr>h_signal := 0\<rparr>\<rparr> else e)"
| "consume_signal tid (Mutant m) =
     Mutant (m\<lparr>mu_owner := Some tid, mu_recursion := 1, mu_header := (mu_header m)\<lparr>h_signal := 0\<rparr>\<rparr>)"
| "consume_signal tid (Semaphore s) =
     Semaphore (s\<lparr>se_header := (se_header s)\<lparr>h_signal := i32_wrap (h_signal (se_header s) - 1)\<rparr>\<rparr>)"
| "consume_signal tid (Timer t) = Timer t"

text \<open>The first loop of \<open>WaitAll\<close>: an early return, or all objects are signaled.\<close>

fun check_all :: "u64 list \<Rightarrow> dispatcher \<Rightarrow> wait_status option + unit" where
  "check_all [] d = Inr ()"
| "check_all (i # ids) d =
     (case ke_get i d of
        None \<Rightarrow> Inl (Some Failed)
      | Some en \<Rightarrow> if entry_signaled en then check_all ids d else Inl None)"

definition consume_at :: "u64 \<Rightarrow> u64 \<Rightarrow> dispatcher \<Rightarrow> dispatcher" where
  "consume_at tid i d = (case ke_get i d of Some en \<Rightarrow> ke_put i (consume_signal tid en) d | None \<Rightarrow> d)"

fun any_loop :: "u64 \<Rightarrow> nat \<Rightarrow> u64 list \<Rightarrow> dispatcher \<Rightarrow> wait_status option \<times> dispatcher" where
  "any_loop tid idx [] d = (None, d)"
| "any_loop tid idx (i # ids) d =
     (case ke_get i d of
        None \<Rightarrow> (Some Failed, d)
      | Some en \<Rightarrow>
          if entry_signaled en then (Some (Satisfied (of_nat idx)), consume_at tid i d)
          else any_loop tid (Suc idx) ids d)"

definition try_satisfy_multiple ::
  "u64 \<Rightarrow> u64 list \<Rightarrow> wait_type \<Rightarrow> dispatcher \<Rightarrow> wait_status option \<times> dispatcher" where
  "try_satisfy_multiple tid ids wt d =
     (if dp_registry d = None then (Some Failed, d)
      else case wt of
        WaitAll \<Rightarrow>
          (case check_all ids d of
             Inl r \<Rightarrow> (r, d)
           | Inr _ \<Rightarrow> (Some (Satisfied 0), fold (consume_at tid) ids d))
      | WaitAny \<Rightarrow> any_loop tid 0 ids d)"

section \<open>Waiting\<close>

definition push_block :: "u64 \<Rightarrow> u32 \<Rightarrow> u64 \<Rightarrow> dispatcher \<Rightarrow> dispatcher option" where
  "push_block tid key i d =
     (case ke_get i d of
        None \<Rightarrow> None
      | Some en \<Rightarrow>
          Some (ke_put i (map_header (\<lambda>h. h\<lparr>h_waits := h_waits h @
            [\<lparr>wb_thread = tid, wb_type = WaitAny, wb_key = key, wb_satisfied = False\<rparr>]\<rparr>) en) d))"

definition block_thread :: "u64 \<Rightarrow> u64 \<Rightarrow> dispatcher \<Rightarrow> dispatcher" where
  "block_thread tid wake_tick d =
     d\<lparr>dp_threads := upd_first (\<lambda>t. th_tid t = tid)
         (\<lambda>t. t\<lparr>th_ctx_rsp_valid := False, th_state := Blocked, th_wake_tick := wake_tick\<rparr>) (dp_threads d)\<rparr>"

definition still_blocked :: "u64 \<Rightarrow> dispatcher \<Rightarrow> bool" where
  "still_blocked tid d =
     (case List.find (\<lambda>t. th_tid t = tid) (dp_threads d) of Some t \<Rightarrow> th_state t = Blocked | None \<Rightarrow> False)"

text \<open>Removal of the thread's first wait block of an object, with its outcome and key.\<close>

definition take_block :: "u64 \<Rightarrow> u64 \<Rightarrow> dispatcher \<Rightarrow> (bool \<times> u32) option \<times> dispatcher" where
  "take_block tid i d =
     (case ke_get i d of
        None \<Rightarrow> (None, d)
      | Some en \<Rightarrow>
          (case position (\<lambda>wb. wb_thread wb = tid) (h_waits (entry_header en)) of
             None \<Rightarrow> (None, d)
           | Some pos \<Rightarrow>
               (let wb = h_waits (entry_header en) ! pos
                in (Some (wb_satisfied wb, wb_key wb),
                    ke_put i (map_header (\<lambda>h. h\<lparr>h_waits := vec_remove pos (h_waits h)\<rparr>) en) d))))"

definition wait_for_single_object ::
  "u64 \<Rightarrow> u64 \<Rightarrow> u64 option \<Rightarrow> u64 \<Rightarrow> (dispatcher \<Rightarrow> dispatcher) \<Rightarrow> (dispatcher \<Rightarrow> dispatcher) \<Rightarrow>
     (dispatcher \<Rightarrow> dispatcher) \<Rightarrow> dispatcher \<Rightarrow> wait_status option \<times> dispatcher" where
  "wait_for_single_object tid i timeout_ticks now gap1 gap2 gap3 d =
     (case try_satisfy_single tid i d of
        (Some st, d1) \<Rightarrow> (Some st, d1)
      | (None, d1) \<Rightarrow>
          if timeout_ticks = Some 0 then (Some Timeout, d1)
          else
            (case push_block tid 0 i (gap1 d1) of
               None \<Rightarrow> (Some Failed, gap1 d1)
             | Some d2 \<Rightarrow>
                 (let wake_tick = (case timeout_ticks of Some t \<Rightarrow> now + t | None \<Rightarrow> - 1);
                      d3 = gap3 (block_thread tid wake_tick (gap2 d2))
                  in if still_blocked tid d3 then (None, d3)
                     else
                       (case take_block tid i d3 of
                          (Some (True, _), d4) \<Rightarrow> (Some (Satisfied 0), d4)
                        | (_, d4) \<Rightarrow> (Some Timeout, d4)))))"

text \<open>The wait blocks of a \<open>WaitAny\<close>; when an object is missing, the blocks queued so far are withdrawn.\<close>

fun push_blocks :: "u64 \<Rightarrow> nat \<Rightarrow> u64 list \<Rightarrow> u64 list \<Rightarrow> dispatcher \<Rightarrow> bool \<times> dispatcher" where
  "push_blocks tid idx pushed [] d = (True, d)"
| "push_blocks tid idx pushed (i # ids) d =
     (case push_block tid (of_nat idx) i d of
        Some d' \<Rightarrow> push_blocks tid (Suc idx) (pushed @ [i]) ids d'
      | None \<Rightarrow>
          (False, fold (\<lambda>j d. case ke_get j d of
             Some en \<Rightarrow> ke_put j (map_header (\<lambda>h. h\<lparr>h_waits := filter (\<lambda>wb. wb_thread wb \<noteq> tid) (h_waits h)\<rparr>) en) d
           | None \<Rightarrow> d) pushed d))"

fun take_blocks :: "u64 \<Rightarrow> wait_status \<Rightarrow> u64 list \<Rightarrow> dispatcher \<Rightarrow> wait_status \<times> dispatcher" where
  "take_blocks tid result [] d = (result, d)"
| "take_blocks tid result (i # ids) d =
     (case take_block tid i d of
        (Some (sat, key), d') \<Rightarrow>
          take_blocks tid (if sat \<and> result = Timeout then Satisfied key else result) ids d'
      | (None, d') \<Rightarrow> take_blocks tid result ids d')"

text \<open>
  The loop of \<open>WaitAll\<close>, with the number of rounds allowed; \<open>clock\<close> gives the ticks and \<open>gap\<close> what
  happens while the thread sleeps, round by round.
\<close>

fun wait_all_loop ::
  "nat \<Rightarrow> nat \<Rightarrow> u64 \<Rightarrow> u64 list \<Rightarrow> u64 option \<Rightarrow> (nat \<Rightarrow> u64) \<Rightarrow> (nat \<Rightarrow> dispatcher \<Rightarrow> dispatcher) \<Rightarrow>
     dispatcher \<Rightarrow> wait_status option \<times> dispatcher" where
  "wait_all_loop 0 k tid ids deadline clock gap d = (None, d)"
| "wait_all_loop (Suc n) k tid ids deadline clock gap d =
     (case try_satisfy_multiple tid ids WaitAll d of
        (Some st, d1) \<Rightarrow> (Some st, d1)
      | (None, d1) \<Rightarrow>
          if (case deadline of Some dl \<Rightarrow> dl \<le> clock k | None \<Rightarrow> False) then (Some Timeout, d1)
          else
            (let short = clock k + 10;
                 short_deadline = (case deadline of Some dl \<Rightarrow> if dl < short then dl else short | None \<Rightarrow> short);
                 d2 = gap k (block_thread tid short_deadline d1)
             in if still_blocked tid d2 then (None, d2)
                else wait_all_loop n (Suc k) tid ids deadline clock gap d2))"

definition wait_for_multiple_objects ::
  "nat \<Rightarrow> u64 \<Rightarrow> u64 list \<Rightarrow> wait_type \<Rightarrow> u64 option \<Rightarrow> u64 \<Rightarrow> (nat \<Rightarrow> u64) \<Rightarrow> (nat \<Rightarrow> dispatcher \<Rightarrow> dispatcher) \<Rightarrow>
     dispatcher \<Rightarrow> wait_status option \<times> dispatcher" where
  "wait_for_multiple_objects rounds tid ids wt timeout_ticks start clock gap d =
     (case try_satisfy_multiple tid ids wt d of
        (Some st, d1) \<Rightarrow> (Some st, d1)
      | (None, d1) \<Rightarrow>
          if timeout_ticks = Some 0 then (Some Timeout, d1)
          else
            (let deadline = map_option (\<lambda>t. start + t) timeout_ticks
             in case wt of
                  WaitAny \<Rightarrow>
                    (case push_blocks tid 0 [] ids (gap 0 d1) of
                       (False, d2) \<Rightarrow> (Some Failed, d2)
                     | (True, d2) \<Rightarrow>
                         (let d3 = gap 2 (block_thread tid (case deadline of Some dl \<Rightarrow> dl | None \<Rightarrow> - 1) (gap 1 d2))
                          in if still_blocked tid d3 then (None, d3)
                             else (let (r, d4) = take_blocks tid Timeout ids d3 in (Some r, d4))))
                | WaitAll \<Rightarrow> wait_all_loop rounds 0 tid ids deadline clock gap d1))"

text \<open>Another thread's \<open>set_event\<close> on a registered event.\<close>

definition set_event_at :: "u64 \<Rightarrow> dispatcher \<Rightarrow> dispatcher" where
  "set_event_at i d =
     (case ke_get i d of
        Some (Event e) \<Rightarrow> (let (_, e', ths) = set_event e (dp_threads d) in (ke_put i (Event e') d)\<lparr>dp_threads := ths\<rparr>)
      | _ \<Rightarrow> d)"

definition demo_disp :: "event_type \<Rightarrow> dispatcher" where
  "demo_disp ty = \<lparr>dp_next_id = 3, dp_registry = Some [(1, Event (event_new ty)), (2, Semaphore (semaphore_new 1 5))],
     dp_threads = [demo_thread 7, demo_thread 8]\<rparr>"

section \<open>Waiting for all objects\<close>

lemma ke_get_put: "ke_get i d = Some en \<Longrightarrow> ke_get j (ke_put i en' d) = (if j = i then Some en' else ke_get j d)"
  by (auto simp: ke_get_def ke_put_def bt.get_ins split: option.splits)

lemma check_all_Inr: "check_all ids d = Inr u \<longleftrightarrow> (\<forall>i \<in> set ids. \<exists>en. ke_get i d = Some en \<and> entry_signaled en)"
  by (induction ids) (auto split: option.splits)

lemma consume_at_get:
  "ke_get j (consume_at tid i d) = (if j = i then map_option (consume_signal tid) (ke_get i d) else ke_get j d)"
  by (cases "ke_get i d") (auto simp: consume_at_def ke_get_put)

lemma consume_fold_get:
  "distinct ids \<Longrightarrow> ke_get j (fold (consume_at tid) ids d) =
     (if j \<in> set ids then map_option (consume_signal tid) (ke_get j d) else ke_get j d)"
  by (induction ids arbitrary: d) (auto simp: consume_at_get)

text \<open>
  C37: Waiting for all of several distinct objects takes them together or not at all: the attempt succeeds
  exactly when every object exists and is signaled, and then each of them is consumed exactly once and
  no other object changes; otherwise nothing changes, and the attempt fails only if some object is missing.
\<close>

theorem wait_all_atomic:
  assumes "dp_registry d = Some m" and "distinct ids" and "try_satisfy_multiple tid ids WaitAll d = (r, d')"
  shows "if \<forall>i \<in> set ids. \<exists>en. ke_get i d = Some en \<and> entry_signaled en
    then r = Some (Satisfied 0) \<and>
      (\<forall>j. ke_get j d' = (if j \<in> set ids then map_option (consume_signal tid) (ke_get j d) else ke_get j d))
    else d' = d \<and> (r = None \<or> r = Some Failed \<and> (\<exists>i \<in> set ids. ke_get i d = None))"
proof (cases "check_all ids d")
  case (Inr u)
  then show ?thesis
    using assms check_all_Inr [of ids d u] by (auto simp: try_satisfy_multiple_def consume_fold_get)
next
  case (Inl s)
  have "s = None \<or> s = Some Failed \<and> (\<exists>i \<in> set ids. ke_get i d = None)"
    using Inl by (induction ids) (auto split: option.splits if_splits)
  moreover have "\<not> (\<forall>i \<in> set ids. \<exists>en. ke_get i d = Some en \<and> entry_signaled en)"
    using Inl check_all_Inr [of ids d "()"] by auto
  ultimately show ?thesis using assms Inl by (auto simp: try_satisfy_multiple_def)
qed

theorem wait_all_atomic_witness:
  "\<exists>d'. try_satisfy_multiple 7 [1, 2] WaitAll (set_event_at 1 (demo_disp NotificationEvent)) = (Some (Satisfied 0), d') \<and>
     read_signal_state 1 d' = Some 1 \<and> read_signal_state 2 d' = Some 0"
proof -
  let ?d = "set_event_at 1 (demo_disp NotificationEvent)"
  obtain m where m: "dp_registry ?d = Some m"
    by (simp add: set_event_at_def demo_disp_def ke_get_def ke_put_def set_event_def event_new_def Let_def)
  obtain r d' where r: "try_satisfy_multiple 7 [1, 2] WaitAll ?d = (r, d')" by fastforce
  have g: "\<exists>e. ke_get 1 ?d = Some (Event e) \<and> h_signal (ev_header e) = 1 \<and> ev_type e = NotificationEvent"
    "ke_get 2 ?d = Some (Semaphore (semaphore_new 1 5))"
    by (auto simp: set_event_at_def demo_disp_def ke_get_def ke_put_def set_event_def event_new_def header_new_def Let_def)
  then show ?thesis
    using wait_all_atomic [OF m _ r] r
    by (auto simp: entry_signaled_def read_signal_state_def semaphore_new_def header_new_def i32_wrap_def)
qed

section \<open>A signal between queuing and blocking is lost\<close>

lemma upd_first_fixed: "List.find P xs = Some x \<Longrightarrow> f x = x \<Longrightarrow> upd_first P f xs = xs"
  by (induction xs) (auto split: if_splits)

lemma find_upd_tid:
  "List.find (\<lambda>t. th_tid t = tid) ths = Some t \<Longrightarrow> th_tid (f t) = tid \<Longrightarrow>
     List.find (\<lambda>t. th_tid t = tid) (upd_first (\<lambda>t. th_tid t = tid) f ths) = Some (f t)"
  by (induction ths) (auto split: if_splits)

lemma ke_put_same: "ke_get i d = Some en \<Longrightarrow> ke_get i (ke_put i en' d) = Some en'"
  by (simp add: ke_get_put)

text \<open>
  C38: A wait for a single event can lose its wake-up. When another thread signals the event after the waiter
  queued its wait block and before it marked itself blocked (the two are separate critical sections),
  the signal finds the waiter not blocked and wakes nobody; the waiter then blocks with an infinite
  deadline although its wait block is already satisfied, and the wait does not return.
\<close>

theorem wait_single_loses_wakeup:
  assumes "ke_get i d = Some (Event e)" and "h_signal (ev_header e) = 0" and "h_waits (ev_header e) = []"
    and "List.find (\<lambda>t. th_tid t = tid) (dp_threads d) = Some t" and "th_state t \<noteq> Blocked"
    and "wait_for_single_object tid i None now id (set_event_at i) id d = (r, d')"
  shows "r = None \<and>
    (\<exists>t'. List.find (\<lambda>t. th_tid t = tid) (dp_threads d') = Some t' \<and> th_state t' = Blocked \<and> th_wake_tick t' = - 1) \<and>
    (\<exists>e'. ke_get i d' = Some (Event e') \<and>
      h_waits (ev_header e') = [\<lparr>wb_thread = tid, wb_type = WaitAny, wb_key = 0, wb_satisfied = True\<rparr>])"
proof -
  let ?wb = "\<lparr>wb_thread = tid, wb_type = WaitAny, wb_key = 0, wb_satisfied = False\<rparr>"
  let ?e1 = "e\<lparr>ev_header := (ev_header e)\<lparr>h_waits := [?wb]\<rparr>\<rparr>"
  define d1 where "d1 = ke_put i (Event e) d"
  define d2 where "d2 = ke_put i (Event ?e1) d1"
  define d3 where "d3 = set_event_at i d2"
  have try1: "try_satisfy_single tid i d = (None, d1)" using assms(1,2) by (simp add: try_satisfy_single_def d1_def)
  have g1: "ke_get i d1 = Some (Event e)" using assms(1) by (simp add: d1_def ke_put_same)
  have push: "push_block tid 0 i d1 = Some d2" using g1 assms(3) by (simp add: push_block_def d2_def)
  have g2: "ke_get i d2 = Some (Event ?e1)" using ke_put_same [OF g1] by (simp add: d2_def)
  have ths: "dp_threads d2 = dp_threads d" by (simp add: d2_def d1_def ke_put_def)
  have tid: "th_tid t = tid" using find_Some_in [OF assms(4)] by simp
  have idle: "ready_boosted t = t" using assms(5) by (simp add: ready_boosted_def)
  have same: "upd_first (\<lambda>t. th_tid t = tid) ready_boosted (dp_threads d) = dp_threads d"
    using upd_first_fixed [OF assms(4), of ready_boosted] idle by simp
  have g3: "\<exists>e'. ke_get i d3 = Some (Event e') \<and> h_waits (ev_header e') = [?wb\<lparr>wb_satisfied := True\<rparr>]"
    and ths3: "dp_threads d3 = dp_threads d"
    using g2 ths same
    by (auto simp: d3_def set_event_at_def set_event_def Let_def ke_get_def ke_put_def satisfy_def wake_blocked_waiters_def
        bt.get_ins split: event_type.splits option.splits)
  define d4 where "d4 = block_thread tid (- 1) d3"
  have blk: "List.find (\<lambda>t. th_tid t = tid) (dp_threads d4) = Some (t\<lparr>th_ctx_rsp_valid := False, th_state := Blocked, th_wake_tick := - 1\<rparr>)"
    using find_upd_tid [OF assms(4), of "\<lambda>t. t\<lparr>th_ctx_rsp_valid := False, th_state := Blocked, th_wake_tick := - 1\<rparr>"] tid ths3
    by (simp add: d4_def block_thread_def)
  then have "still_blocked tid d4" by (simp add: still_blocked_def)
  then have "r = None" "d' = d4"
    using assms(6) try1 push by (simp_all add: wait_for_single_object_def d3_def d4_def)
  moreover have "ke_get i d4 = ke_get i d3" by (simp add: d4_def block_thread_def ke_get_def)
  ultimately show ?thesis using blk g3 by auto
qed

theorem wait_single_loses_wakeup_witness:
  "\<exists>d'. wait_for_single_object 7 1 None 0 id (set_event_at 1) id (demo_disp SynchronizationEvent) = (None, d') \<and> still_blocked 7 d'"
proof -
  let ?d = "demo_disp SynchronizationEvent"
  obtain r d' where run: "wait_for_single_object 7 1 None 0 id (set_event_at 1) id ?d = (r, d')" by fastforce
  have g: "ke_get 1 ?d = Some (Event (event_new SynchronizationEvent))" "List.find (\<lambda>t. th_tid t = 7) (dp_threads ?d) = Some (demo_thread 7)"
    by (simp_all add: demo_disp_def ke_get_def demo_thread_def)
  from wait_single_loses_wakeup [OF g(1) _ _ g(2) _ run] run show ?thesis
    by (auto simp: event_new_def header_new_def demo_thread_def still_blocked_def)
qed

end
