(* ===== verification/Sec_Token.thy ===== *)
theory Sec_Token
  imports Rust_Prelude
begin

text \<open>
  Security identifiers, privileges and access tokens: \<open>security/sid.rs\<close>,
  \<open>security/privilege.rs\<close> and \<open>security/token.rs\<close>. A \<open>Sid\<close> holds its six authority bytes as
  a list; the two renderings of a \<open>Sid\<close> (\<open>to_string_repr\<close>, with the hand-written decimal
  printer \<open>push_u64\<close>, and \<open>Display\<close>, with the formatter of the standard library) are shown to
  agree and to be invertible. The token registry is a \<open>BTreeMap\<close> that is created on first use.
\<close>

section \<open>Security identifiers\<close>

record sid =
  sid_revision :: u8
  sid_authority :: "u8 list"
  sid_subs :: "u32 list"

definition from_components :: "u8 list \<Rightarrow> u32 list \<Rightarrow> sid" where
  "from_components auth subs = \<lparr>sid_revision = 1, sid_authority = auth, sid_subs = subs\<rparr>"

definition authority_value :: "sid \<Rightarrow> u64" where
  "authority_value s =
     push_bit 40 (ucast (sid_authority s ! 0)) OR push_bit 32 (ucast (sid_authority s ! 1)) OR
     push_bit 24 (ucast (sid_authority s ! 2)) OR push_bit 16 (ucast (sid_authority s ! 3)) OR
     push_bit 8 (ucast (sid_authority s ! 4)) OR ucast (sid_authority s ! 5)"

text \<open>The loop of \<open>push_u64\<close>: the decimal digits, least significant first.\<close>

function digits_loop :: "u64 \<Rightarrow> string" where
  "digits_loop v = (if 0 < v then char_of (unat (v mod 10) + 48) # digits_loop (v div 10) else [])"
  by pat_completeness auto

termination
  by (relation "measure unat") (auto simp: unat_div word_less_nat_alt)

declare digits_loop.simps [simp del]

definition push_u64 :: "string \<Rightarrow> u64 \<Rightarrow> string" where
  "push_u64 s v = (if v = 0 then s @ ''0'' else s @ rev (digits_loop v))"

definition to_string_repr :: "sid \<Rightarrow> string" where
  "to_string_repr s =
     fold (\<lambda>sa acc. push_u64 (acc @ ''-'') (ucast sa)) (sid_subs s)
       (push_u64 (push_u64 ''S-'' (ucast (sid_revision s)) @ ''-'') (authority_value s))"

text \<open>The decimal rendering of an unsigned integer by the formatter of the standard library.\<close>

fun show_nat :: "nat \<Rightarrow> string" where
  "show_nat n = (if n < 10 then [char_of (n + 48)] else show_nat (n div 10) @ [char_of (n mod 10 + 48)])"

declare show_nat.simps [simp del]

definition sid_fmt :: "sid \<Rightarrow> string" where
  "sid_fmt s =
     ''S-'' @ show_nat (unat (sid_revision s)) @ ''-'' @ show_nat (unat (authority_value s)) @
     concat (map (\<lambda>sa. ''-'' @ show_nat (unat sa)) (sid_subs s))"

definition authority :: "u8 \<Rightarrow> u8 list" where
  "authority v = [0, 0, 0, 0, 0, v]"

definition sid_null :: sid where "sid_null = from_components (authority 0) [0]"

definition sid_world :: sid where "sid_world = from_components (authority 1) [0]"

definition sid_local :: sid where "sid_local = from_components (authority 2) [0]"

definition sid_creator_owner :: sid where "sid_creator_owner = from_components (authority 3) [0]"

definition sid_nt_authority :: sid where
  "sid_nt_authority = \<lparr>sid_revision = 1, sid_authority = authority 5, sid_subs = []\<rparr>"

definition sid_local_system :: sid where "sid_local_system = from_components (authority 5) [18]"

definition sid_local_service :: sid where "sid_local_service = from_components (authority 5) [19]"

definition sid_network_service :: sid where "sid_network_service = from_components (authority 5) [20]"

definition sid_builtin_admins :: sid where "sid_builtin_admins = from_components (authority 5) [32, 544]"

definition sid_builtin_users :: sid where "sid_builtin_users = from_components (authority 5) [32, 545]"

definition sid_user :: "u32 \<Rightarrow> sid" where "sid_user rid = from_components (authority 5) [21, rid]"

definition is_well_known :: "sid \<Rightarrow> bool" where
  "is_well_known s \<longleftrightarrow>
     s = sid_null \<or> s = sid_world \<or> s = sid_local \<or> s = sid_creator_owner \<or> s = sid_local_system \<or>
     s = sid_local_service \<or> s = sid_network_service \<or> s = sid_builtin_admins \<or> s = sid_builtin_users"

section \<open>Privileges\<close>

datatype privilege =
    SeAssignPrimaryTokenPrivilege | SeIncreaseQuotaPrivilege | SeTcbPrivilege | SeSecurityPrivilege
  | SeTakeOwnershipPrivilege | SeLoadDriverPrivilege | SeSystemProfilePrivilege | SeSystemtimePrivilege
  | SeProfileSingleProcessPrivilege | SeIncreaseBasePriorityPrivilege | SeCreatePagefilePrivilege
  | SeCreatePermanentPrivilege | SeBackupPrivilege | SeRestorePrivilege | SeShutdownPrivilege
  | SeDebugPrivilege | SeAuditPrivilege | SeSystemEnvironmentPrivilege | SeChangeNotifyPrivilege
  | SeUndockPrivilege | SeManageVolumePrivilege | SeImpersonatePrivilege | SeCreateGlobalPrivilege

record token_privilege =
  tp_privilege :: privilege
  tp_enabled :: bool
  tp_enabled_by_default :: bool

fun privilege_name :: "privilege \<Rightarrow> string" where
  "privilege_name SeAssignPrimaryTokenPrivilege = ''SeAssignPrimaryTokenPrivilege''"
| "privilege_name SeIncreaseQuotaPrivilege = ''SeIncreaseQuotaPrivilege''"
| "privilege_name SeTcbPrivilege = ''SeTcbPrivilege''"
| "privilege_name SeSecurityPrivilege = ''SeSecurityPrivilege''"
| "privilege_name SeTakeOwnershipPrivilege = ''SeTakeOwnershipPrivilege''"
| "privilege_name SeLoadDriverPrivilege = ''SeLoadDriverPrivilege''"
| "privilege_name SeSystemProfilePrivilege = ''SeSystemProfilePrivilege''"
| "privilege_name SeSystemtimePrivilege = ''SeSystemtimePrivilege''"
| "privilege_name SeProfileSingleProcessPrivilege = ''SeProfileSingleProcessPrivilege''"
| "privilege_name SeIncreaseBasePriorityPrivilege = ''SeIncreaseBasePriorityPrivilege''"
| "privilege_name SeCreatePagefilePrivilege = ''SeCreatePagefilePrivilege''"
| "privilege_name SeCreatePermanentPrivilege = ''SeCreatePermanentPrivilege''"
| "privilege_name SeBackupPrivilege = ''SeBackupPrivilege''"
| "privilege_name SeRestorePrivilege = ''SeRestorePrivilege''"
| "privilege_name SeShutdownPrivilege = ''SeShutdownPrivilege''"
| "privilege_name SeDebugPrivilege = ''SeDebugPrivilege''"
| "privilege_name SeAuditPrivilege = ''SeAuditPrivilege''"
| "privilege_name SeSystemEnvironmentPrivilege = ''SeSystemEnvironmentPrivilege''"
| "privilege_name SeChangeNotifyPrivilege = ''SeChangeNotifyPrivilege''"
| "privilege_name SeUndockPrivilege = ''SeUndockPrivilege''"
| "privilege_name SeManageVolumePrivilege = ''SeManageVolumePrivilege''"
| "privilege_name SeImpersonatePrivilege = ''SeImpersonatePrivilege''"
| "privilege_name SeCreateGlobalPrivilege = ''SeCreateGlobalPrivilege''"

definition ALL_PRIVILEGES :: "privilege list" where
  "ALL_PRIVILEGES =
     [SeAssignPrimaryTokenPrivilege, SeIncreaseQuotaPrivilege, SeTcbPrivilege, SeSecurityPrivilege,
      SeTakeOwnershipPrivilege, SeLoadDriverPrivilege, SeSystemProfilePrivilege, SeSystemtimePrivilege,
      SeProfileSingleProcessPrivilege, SeIncreaseBasePriorityPrivilege, SeCreatePagefilePrivilege,
      SeCreatePermanentPrivilege, SeBackupPrivilege, SeRestorePrivilege, SeShutdownPrivilege,
      SeDebugPrivilege, SeAuditPrivilege, SeSystemEnvironmentPrivilege, SeChangeNotifyPrivilege,
      SeUndockPrivilege, SeManageVolumePrivilege, SeImpersonatePrivilege, SeCreateGlobalPrivilege]"

definition all_admin_privileges :: "token_privilege list" where
  "all_admin_privileges =
     map (\<lambda>p. \<lparr>tp_privilege = p, tp_enabled = True, tp_enabled_by_default = True\<rparr>) ALL_PRIVILEGES"

definition default_user_privileges :: "token_privilege list" where
  "default_user_privileges =
     map (\<lambda>p. \<lparr>tp_privilege = p, tp_enabled = (p = SeChangeNotifyPrivilege),
               tp_enabled_by_default = (p = SeChangeNotifyPrivilege)\<rparr>) ALL_PRIVILEGES"

section \<open>Access control entries\<close>

text \<open>The types of \<open>security/mod.rs\<close> a token refers to.\<close>

datatype security_id = SecurityId u32

datatype ace_type = Allow | Deny | Audit

record ace =
  ace_kind :: ace_type
  ace_sid :: security_id
  ace_mask :: u32
  ace_flags :: u8

section \<open>Tokens\<close>

datatype token_type = Primary | Impersonation

datatype impersonation_level =
  SecurityAnonymous | SecurityIdentification | SecurityImpersonation | SecurityDelegation

record token_group =
  tg_sid :: sid
  tg_enabled :: bool
  tg_mandatory :: bool
  tg_owner :: bool
  tg_deny_only :: bool

record token_source =
  ts_name :: "u8 list"
  ts_id :: u64

record access_token =
  tok_id :: u64
  tok_type :: token_type
  tok_level :: "impersonation_level option"
  tok_user :: sid
  tok_groups :: "token_group list"
  tok_privileges :: "token_privilege list"
  tok_primary_group :: sid
  tok_default_dacl :: "ace list option"
  tok_source :: token_source
  tok_session_id :: u32

record tokens =
  tk_next_id :: u64
  tk_registry :: "(u64, access_token) btree option"

definition alloc_token_id :: "tokens \<Rightarrow> u64 \<times> tokens" where
  "alloc_token_id s = (tk_next_id s, s\<lparr>tk_next_id := tk_next_id s + 1\<rparr>)"

definition ascii :: "string \<Rightarrow> u8 list" where
  "ascii s = map (\<lambda>c. of_nat (of_char c)) s"

definition new_system_token :: "tokens \<Rightarrow> access_token \<times> tokens" where
  "new_system_token s =
     (let (i, s') = alloc_token_id s
      in (\<lparr>tok_id = i, tok_type = Primary, tok_level = None, tok_user = sid_local_system,
           tok_groups =
             [\<lparr>tg_sid = sid_builtin_admins, tg_enabled = True, tg_mandatory = True, tg_owner = True, tg_deny_only = False\<rparr>,
              \<lparr>tg_sid = sid_world, tg_enabled = True, tg_mandatory = True, tg_owner = False, tg_deny_only = False\<rparr>],
           tok_privileges = all_admin_privileges, tok_primary_group = sid_local_system, tok_default_dacl = None,
           tok_source = \<lparr>ts_name = ascii ''*SYSTEM*'', ts_id = 0\<rparr>, tok_session_id = 0\<rparr>, s'))"

definition new_user_token :: "sid \<Rightarrow> token_group list \<Rightarrow> tokens \<Rightarrow> access_token \<times> tokens" where
  "new_user_token user groups s =
     (let (i, s') = alloc_token_id s
      in (\<lparr>tok_id = i, tok_type = Primary, tok_level = None, tok_user = user, tok_groups = groups,
           tok_privileges = default_user_privileges,
           tok_primary_group = (case groups of g # _ \<Rightarrow> tg_sid g | [] \<Rightarrow> sid_builtin_users),
           tok_default_dacl = None, tok_source = \<lparr>ts_name = ascii ''User32'' @ [0, 0], ts_id = 0\<rparr>,
           tok_session_id = 1\<rparr>, s'))"

definition token_has_privilege :: "access_token \<Rightarrow> privilege \<Rightarrow> bool" where
  "token_has_privilege tok p \<longleftrightarrow> list_ex (\<lambda>tp. tp_privilege tp = p \<and> tp_enabled tp) (tok_privileges tok)"

definition set_privilege :: "bool \<Rightarrow> access_token \<Rightarrow> privilege \<Rightarrow> bool \<times> access_token" where
  "set_privilege on tok p =
     (case List.find (\<lambda>tp. tp_privilege tp = p) (tok_privileges tok) of
        Some _ \<Rightarrow>
          (True, tok\<lparr>tok_privileges :=
             upd_first (\<lambda>tp. tp_privilege tp = p) (\<lambda>tp. tp\<lparr>tp_enabled := on\<rparr>) (tok_privileges tok)\<rparr>)
      | None \<Rightarrow> (False, tok))"

definition token_enable_privilege :: "access_token \<Rightarrow> privilege \<Rightarrow> bool \<times> access_token" where
  "token_enable_privilege = set_privilege True"

definition token_disable_privilege :: "access_token \<Rightarrow> privilege \<Rightarrow> bool \<times> access_token" where
  "token_disable_privilege = set_privilege False"

definition token_check_membership :: "access_token \<Rightarrow> sid \<Rightarrow> bool" where
  "token_check_membership tok s \<longleftrightarrow>
     tok_user tok = s \<or> list_ex (\<lambda>g. tg_enabled g \<and> \<not> tg_deny_only g \<and> tg_sid g = s) (tok_groups tok)"

definition duplicate_token ::
  "access_token \<Rightarrow> token_type \<Rightarrow> impersonation_level option \<Rightarrow> tokens \<Rightarrow> access_token \<times> tokens" where
  "duplicate_token tok ty level s =
     (let (i, s') = alloc_token_id s in (tok\<lparr>tok_id := i, tok_type := ty, tok_level := level\<rparr>, s'))"

section \<open>The token registry\<close>

definition ensure_registry :: "tokens \<Rightarrow> (u64, access_token) btree" where
  "ensure_registry s = (case tk_registry s of None \<Rightarrow> [] | Some m \<Rightarrow> m)"

definition register_token :: "access_token \<Rightarrow> tokens \<Rightarrow> u64 \<times> tokens" where
  "register_token tok s =
     (tok_id tok, s\<lparr>tk_registry := Some (bt_insert (tok_id tok) tok (ensure_registry s))\<rparr>)"

definition create_system_token :: "tokens \<Rightarrow> u64 \<times> tokens" where
  "create_system_token s = (let (tok, s') = new_system_token s in register_token tok s')"

definition create_user_token :: "sid \<Rightarrow> token_group list \<Rightarrow> tokens \<Rightarrow> u64 \<times> tokens" where
  "create_user_token user groups s = (let (tok, s') = new_user_token user groups s in register_token tok s')"

definition with_token :: "u64 \<Rightarrow> (access_token \<Rightarrow> 'r) \<Rightarrow> tokens \<Rightarrow> 'r option" where
  "with_token i f s = (case tk_registry s of None \<Rightarrow> None | Some m \<Rightarrow> map_option f (bt_get m i))"

definition with_token_mut :: "u64 \<Rightarrow> (access_token \<Rightarrow> 'r \<times> access_token) \<Rightarrow> tokens \<Rightarrow> 'r option \<times> tokens" where
  "with_token_mut i f s =
     (let m = ensure_registry s; s' = s\<lparr>tk_registry := Some m\<rparr>
      in case bt_get m i of
           None \<Rightarrow> (None, s')
         | Some tok \<Rightarrow> (let (r, tok') = f tok in (Some r, s'\<lparr>tk_registry := Some (bt_insert i tok' m)\<rparr>)))"

definition destroy_token :: "u64 \<Rightarrow> tokens \<Rightarrow> tokens" where
  "destroy_token i s = s\<lparr>tk_registry := map_option (bt_remove i) (tk_registry s)\<rparr>"

section \<open>Reading a rendered identifier back\<close>

text \<open>The inverse of the two renderings: the fields between the dashes, in decimal.\<close>

fun split_dash :: "string \<Rightarrow> string list" where
  "split_dash [] = [[]]"
| "split_dash (c # cs) =
     (if c = CHR ''-'' then [] # split_dash cs
      else (case split_dash cs of w # ws \<Rightarrow> (c # w) # ws | [] \<Rightarrow> [[c]]))"

definition digits_value :: "string \<Rightarrow> nat" where
  "digits_value s = foldl (\<lambda>n c. 10 * n + (of_char c - 48)) 0 s"

definition authority_bytes :: "u64 \<Rightarrow> u8 list" where
  "authority_bytes v =
     [ucast (drop_bit 40 v), ucast (drop_bit 32 v), ucast (drop_bit 24 v),
      ucast (drop_bit 16 v), ucast (drop_bit 8 v), ucast v]"

definition parse_sid :: "string \<Rightarrow> sid option" where
  "parse_sid s =
     (case split_dash s of
        _ # r # a # subs \<Rightarrow>
          Some \<lparr>sid_revision = of_nat (digits_value r), sid_authority = authority_bytes (of_nat (digits_value a)),
                sid_subs = map (\<lambda>w. of_nat (digits_value w)) subs\<rparr>
      | _ \<Rightarrow> None)"

lemma of_char_digit: "n < 10 \<Longrightarrow> of_char (char_of (n + 48)) = n + (48::nat)"
  by (simp add: of_char_of)

lemma char_digit_not_dash: "(n :: nat) < 10 \<Longrightarrow> char_of (n + 48) \<noteq> CHR ''-''"
proof
  assume n: "n < 10" and "char_of (n + 48) = CHR ''-''"
  then have "(of_char (char_of (n + 48)) :: nat) = of_char (CHR ''-'')" by simp
  with of_char_digit [OF n] show False by simp
qed

lemma show_nat_digits: "CHR ''-'' \<notin> set (show_nat n)"
proof (induction n rule: show_nat.induct)
  case (1 n)
  show ?case
  proof (cases "n < 10")
    case True
    with char_digit_not_dash [of n] show ?thesis by (simp add: show_nat.simps [of n])
  next
    case False
    with 1 char_digit_not_dash [of "n mod 10"] show ?thesis by (simp add: show_nat.simps [of n])
  qed
qed

lemma digits_value_show: "digits_value (show_nat n) = n"
proof (induction n rule: show_nat.induct)
  case (1 n)
  show ?case
  proof (cases "n < 10")
    case True
    then show ?thesis by (simp add: show_nat.simps [of n] digits_value_def of_char_digit)
  next
    case False
    with 1 have "digits_value (show_nat (n div 10)) = n div 10" by simp
    with False show ?thesis
      using of_char_digit [of "n mod 10"] by (simp add: show_nat.simps [of n] digits_value_def)
  qed
qed

lemma rev_digits_loop: "v \<noteq> 0 \<Longrightarrow> rev (digits_loop v) = show_nat (unat v)"
proof (induction v rule: digits_loop.induct)
  case (1 v)
  then have pos: "0 < v" by (simp add: word_gt_0)
  have d: "unat (v div 10) = unat v div 10" "unat (v mod 10) = unat v mod 10"
    by (simp_all add: unat_div unat_mod)
  show ?case
  proof (cases "v div 10 = 0")
    case True
    then have "unat v div 10 = 0" using d by simp
    then have "unat v < 10" by simp
    with True pos d show ?thesis
      by (simp add: digits_loop.simps [of v] digits_loop.simps [of 0] show_nat.simps [of "unat v"])
  next
    case False
    then have "unat (v div 10) \<noteq> 0" by (simp add: unat_eq_0)
    then have "\<not> unat v < 10" using d by simp
    with False pos d 1 show ?thesis
      by (simp add: digits_loop.simps [of v] show_nat.simps [of "unat v"])
  qed
qed

lemma push_u64_show: "push_u64 s v = s @ show_nat (unat v)"
proof -
  have "CHR ''0'' = char_of (48 :: nat)" by code_simp
  then show ?thesis by (simp add: push_u64_def rev_digits_loop show_nat.simps [of 0])
qed

lemma unat_ucast_up: "unat (ucast (w :: u32) :: u64) = unat w" "unat (ucast (b :: u8) :: u64) = unat b"
proof -
  have "unat w < 2 ^ 32" "unat b < 2 ^ 8" using unsigned_less [of w] unsigned_less [of b] by simp_all
  then have "unat w < 2 ^ 64" "unat b < 2 ^ 64" by simp_all
  then show "unat (ucast w :: u64) = unat w" "unat (ucast b :: u64) = unat b"
    by (simp_all add: unsigned_ucast_eq take_bit_nat_eq_self)
qed

lemma fmt_eq_to_string: "sid_fmt s = to_string_repr s"
proof -
  have "fold (\<lambda>sa acc. push_u64 (acc @ ''-'') (ucast sa)) subs acc =
      acc @ concat (map (\<lambda>sa. ''-'' @ show_nat (unat sa)) subs)" for subs :: "u32 list" and acc
    by (induction subs arbitrary: acc) (simp_all add: push_u64_show unat_ucast_up)
  then show ?thesis by (simp add: sid_fmt_def to_string_repr_def push_u64_show unat_ucast_up)
qed

lemma split_dash_word: "CHR ''-'' \<notin> set w \<Longrightarrow> split_dash w = [w]"
  by (induction w) auto

lemma split_dash_append: "CHR ''-'' \<notin> set w \<Longrightarrow> split_dash (w @ CHR ''-'' # r) = w # split_dash r"
  by (induction w) auto

lemma split_dash_fields:
  "CHR ''-'' \<notin> set w \<Longrightarrow>
     split_dash (w @ concat (map (\<lambda>n. CHR ''-'' # show_nat (f n)) ns)) = w # map (\<lambda>n. show_nat (f n)) ns"
  by (induction ns arbitrary: w) (simp_all add: split_dash_word split_dash_append show_nat_digits)

lemma authority_bytes_value: "length (sid_authority s) = 6 \<Longrightarrow> authority_bytes (authority_value s) = sid_authority s"
proof -
  assume "length (sid_authority s) = 6"
  then obtain a b c d e f where s: "sid_authority s = [a, b, c, d, e, f]"
    by (auto simp: numeral_eq_Suc length_Suc_conv)
  have "ucast (drop_bit 40 (authority_value s)) = a" "ucast (drop_bit 32 (authority_value s)) = b"
    "ucast (drop_bit 24 (authority_value s)) = c" "ucast (drop_bit 16 (authority_value s)) = d"
    "ucast (drop_bit 8 (authority_value s)) = e" "ucast (authority_value s) = f"
    by (rule bit_word_eqI; auto simp: authority_value_def s bit_simps dest: bit_imp_le_length)+
  with s show ?thesis by (simp add: authority_bytes_def)
qed

text \<open>
  C33: The textual form of a security identifier determines it. The hand-written decimal printer of
  \<open>to_string_repr\<close> and the standard formatter used by \<open>Display\<close> give the same text for every
  identifier, and reading the decimal fields between the dashes back gives the identifier itself:
  no two identifiers, of any number of sub-authorities and any 48-bit authority, print alike.\<close>

theorem sid_text_roundtrip:
  "length (sid_authority s) = 6 \<Longrightarrow>
     sid_fmt s = to_string_repr s \<and> parse_sid (to_string_repr s) = Some s"
proof -
  assume len: "length (sid_authority s) = 6"
  have *: "sid_fmt s =
      ''S'' @ CHR ''-'' # show_nat (unat (sid_revision s)) @ CHR ''-'' # show_nat (unat (authority_value s)) @
      concat (map (\<lambda>sa. ''-'' @ show_nat (unat sa)) (sid_subs s))"
    by (simp add: sid_fmt_def)
  have "split_dash (sid_fmt s) =
      ''S'' # show_nat (unat (sid_revision s)) # show_nat (unat (authority_value s)) #
      map (\<lambda>sa. show_nat (unat sa)) (sid_subs s)"
    unfolding * by (simp add: split_dash_append split_dash_fields show_nat_digits)
  then show ?thesis
    using authority_bytes_value [OF len]
    by (simp add: fmt_eq_to_string [symmetric] parse_sid_def digits_value_show o_def)
qed

theorem sid_text_roundtrip_witness:
  "length (sid_authority (sid_user 1000)) = 6 \<and> parse_sid (to_string_repr (sid_user 1000)) = Some (sid_user 1000)"
  using sid_text_roundtrip [of "sid_user 1000"] by (simp add: sid_user_def from_components_def authority_def)

end
