(* ===== verification/Sec_Access.thy ===== *)
theory Sec_Access
  imports Sec_Token
begin

text \<open>
  Access checks, \<open>security/mod.rs\<close>: access masks, access control lists, security descriptors,
  subjects, and the evaluation of a request against a descriptor, for a subject made of POSIX
  credentials (\<open>check_access\<close>) and for an access token (\<open>check_token_access\<close>). The process table is
  an argument of \<open>from_current_process\<close>. The list evaluation of the source is compared with a
  reading bit by bit that does not mention the order of the entries.
\<close>

section \<open>Access masks\<close>

type_synonym access_mask = u32

abbreviation GENERIC_READ :: access_mask where "GENERIC_READ \<equiv> push_bit 31 1"
abbreviation GENERIC_WRITE :: access_mask where "GENERIC_WRITE \<equiv> push_bit 30 1"
abbreviation GENERIC_EXECUTE :: access_mask where "GENERIC_EXECUTE \<equiv> push_bit 29 1"
abbreviation GENERIC_ALL :: access_mask where "GENERIC_ALL \<equiv> push_bit 28 1"
abbreviation ACCESS_DELETE :: access_mask where "ACCESS_DELETE \<equiv> 0x10000"
abbreviation READ_CONTROL :: access_mask where "READ_CONTROL \<equiv> 0x20000"
abbreviation FILE_READ_DATA :: access_mask where "FILE_READ_DATA \<equiv> 0x01"
abbreviation FILE_WRITE_DATA :: access_mask where "FILE_WRITE_DATA \<equiv> 0x02"
abbreviation FILE_APPEND_DATA :: access_mask where "FILE_APPEND_DATA \<equiv> 0x04"
abbreviation FILE_EXECUTE :: access_mask where "FILE_EXECUTE \<equiv> 0x08"
abbreviation FILE_READ_ATTRIBUTES :: access_mask where "FILE_READ_ATTRIBUTES \<equiv> 0x10"
abbreviation FILE_WRITE_ATTRIBUTES :: access_mask where "FILE_WRITE_ATTRIBUTES \<equiv> 0x20"
abbreviation FILE_READ_EA :: access_mask where "FILE_READ_EA \<equiv> 0x40"
abbreviation FILE_WRITE_EA :: access_mask where "FILE_WRITE_EA \<equiv> 0x80"

abbreviation ACE_INHERIT_ONLY :: u8 where "ACE_INHERIT_ONLY \<equiv> 0x04"

abbreviation SYSTEM :: security_id where "SYSTEM \<equiv> SecurityId 0"
abbreviation WHEEL :: security_id where "WHEEL \<equiv> SecurityId 0"
abbreviation SID_EVERYONE :: security_id where "SID_EVERYONE \<equiv> SecurityId 0xFFFFFFFF"

definition from_id :: "u32 \<Rightarrow> security_id" where
  "from_id i = SecurityId i"

fun is_root :: "security_id \<Rightarrow> bool" where
  "is_root (SecurityId i) \<longleftrightarrow> i = 0"

definition mode_to_mask :: "u32 \<Rightarrow> access_mask" where
  "mode_to_mask rwx =
     (if rwx AND 4 \<noteq> 0 then FILE_READ_DATA OR FILE_READ_ATTRIBUTES OR FILE_READ_EA OR READ_CONTROL else 0) OR
     (if rwx AND 2 \<noteq> 0 then FILE_WRITE_DATA OR FILE_APPEND_DATA OR FILE_WRITE_ATTRIBUTES OR FILE_WRITE_EA else 0) OR
     (if rwx AND 1 \<noteq> 0 then FILE_EXECUTE else 0)"

definition mask_to_mode :: "access_mask \<Rightarrow> u32" where
  "mask_to_mode m =
     (if m AND FILE_READ_DATA \<noteq> 0 then 4 else 0) OR
     (if m AND FILE_WRITE_DATA \<noteq> 0 then 2 else 0) OR
     (if m AND FILE_EXECUTE \<noteq> 0 then 1 else 0)"

section \<open>Lists and descriptors\<close>

record acl =
  acl_entries :: "ace list"

definition acl_new :: acl where
  "acl_new = \<lparr>acl_entries = []\<rparr>"

definition allow_ace :: "security_id \<Rightarrow> access_mask \<Rightarrow> ace list" where
  "allow_ace s m =
     (if m \<noteq> 0 then [\<lparr>ace_kind = Allow, ace_sid = s, ace_mask = m, ace_flags = 0\<rparr>] else [])"

definition from_mode :: "security_id \<Rightarrow> security_id \<Rightarrow> u32 \<Rightarrow> acl" where
  "from_mode owner grp mode =
     \<lparr>acl_entries =
        allow_ace owner (mode_to_mask (drop_bit 6 mode AND 7)) @
        allow_ace grp (mode_to_mask (drop_bit 3 mode AND 7)) @
        allow_ace SID_EVERYONE (mode_to_mask (mode AND 7))\<rparr>"

definition add_ace :: "ace \<Rightarrow> acl \<Rightarrow> acl" where
  "add_ace a l = l\<lparr>acl_entries := acl_entries l @ [a]\<rparr>"

record security_descriptor =
  sd_owner :: security_id
  sd_group :: security_id
  sd_dacl :: "acl option"
  sd_sacl :: "acl option"
  sd_mode :: u32

definition sd_new :: "security_id \<Rightarrow> security_id \<Rightarrow> u32 \<Rightarrow> security_descriptor" where
  "sd_new owner grp mode =
     \<lparr>sd_owner = owner, sd_group = grp, sd_dacl = Some (from_mode owner grp mode), sd_sacl = None, sd_mode = mode\<rparr>"

definition system_default :: security_descriptor where
  "system_default = sd_new SYSTEM WHEEL 0x1ED"

definition system_readonly :: security_descriptor where
  "system_readonly = sd_new SYSTEM WHEEL 0x124"

definition user_file :: "u32 \<Rightarrow> u32 \<Rightarrow> security_descriptor" where
  "user_file uid gid = sd_new (from_id uid) (from_id gid) 0x1A4"

definition user_dir :: "u32 \<Rightarrow> u32 \<Rightarrow> security_descriptor" where
  "user_dir uid gid = sd_new (from_id uid) (from_id gid) 0x1ED"

definition user_executable :: "u32 \<Rightarrow> u32 \<Rightarrow> security_descriptor" where
  "user_executable uid gid = sd_new (from_id uid) (from_id gid) 0x1ED"

definition set_mode :: "u32 \<Rightarrow> security_descriptor \<Rightarrow> security_descriptor" where
  "set_mode mode sd = sd\<lparr>sd_mode := mode, sd_dacl := Some (from_mode (sd_owner sd) (sd_group sd) mode)\<rparr>"

definition set_owner :: "security_id \<Rightarrow> security_descriptor \<Rightarrow> security_descriptor" where
  "set_owner owner sd = sd\<lparr>sd_owner := owner, sd_dacl := Some (from_mode owner (sd_group sd) (sd_mode sd))\<rparr>"

definition set_group :: "security_id \<Rightarrow> security_descriptor \<Rightarrow> security_descriptor" where
  "set_group grp sd = sd\<lparr>sd_group := grp, sd_dacl := Some (from_mode (sd_owner sd) grp (sd_mode sd))\<rparr>"

section \<open>Subjects\<close>

record security_subject =
  su_uid :: security_id
  su_gid :: security_id
  su_groups :: "security_id list"
  su_is_privileged :: bool

definition su_system :: security_subject where
  "su_system = \<lparr>su_uid = SYSTEM, su_gid = WHEEL, su_groups = [], su_is_privileged = True\<rparr>"

definition from_credentials :: "u32 \<Rightarrow> u32 \<Rightarrow> u32 list \<Rightarrow> security_subject" where
  "from_credentials uid gid groups =
     \<lparr>su_uid = from_id uid, su_gid = from_id gid, su_groups = map from_id groups, su_is_privileged = (uid = 0)\<rparr>"

text \<open>The credentials in an entry of the process table.\<close>

record process =
  pr_pid :: u64
  pr_uid :: u32
  pr_gid :: u32
  pr_groups :: "u32 list"

definition from_current_process :: "u64 \<Rightarrow> process list \<Rightarrow> security_subject" where
  "from_current_process pid procs =
     (case List.find (\<lambda>p. pr_pid p = pid) procs of
        Some p \<Rightarrow> \<lparr>su_uid = from_id (pr_uid p), su_gid = from_id (pr_gid p),
                   su_groups = map from_id (pr_groups p), su_is_privileged = (pr_uid p = 0)\<rparr>
      | None \<Rightarrow> su_system)"

definition is_member_of :: "security_subject \<Rightarrow> security_id \<Rightarrow> bool" where
  "is_member_of su g \<longleftrightarrow> su_gid su = g \<or> g \<in> set (su_groups su)"

section \<open>Access checks\<close>

definition ace_matches_subject :: "ace \<Rightarrow> security_subject \<Rightarrow> security_descriptor \<Rightarrow> bool" where
  "ace_matches_subject a su sd \<longleftrightarrow>
     ace_sid a = sd_owner sd \<and> su_uid su = sd_owner sd \<or>
     ace_sid a = sd_group sd \<and> is_member_of su (sd_group sd) \<or>
     ace_sid a = SID_EVERYONE \<or>
     ace_sid a = su_uid su \<or>
     is_member_of su (ace_sid a)"

text \<open>The two passes of \<open>evaluate_dacl\<close>.\<close>

fun deny_loop :: "security_subject \<Rightarrow> security_descriptor \<Rightarrow> access_mask \<Rightarrow> ace list \<Rightarrow> bool" where
  "deny_loop su sd desired [] = False"
| "deny_loop su sd desired (a # as) =
     (if ace_kind a \<noteq> Deny then deny_loop su sd desired as
      else if ace_flags a AND ACE_INHERIT_ONLY \<noteq> 0 then deny_loop su sd desired as
      else if ace_matches_subject a su sd \<and> ace_mask a AND desired \<noteq> 0 then True
      else deny_loop su sd desired as)"

fun allow_loop :: "security_subject \<Rightarrow> security_descriptor \<Rightarrow> access_mask \<Rightarrow> ace list \<Rightarrow> bool" where
  "allow_loop su sd remaining [] = False"
| "allow_loop su sd remaining (a # as) =
     (if ace_kind a \<noteq> Allow then allow_loop su sd remaining as
      else if ace_flags a AND ACE_INHERIT_ONLY \<noteq> 0 then allow_loop su sd remaining as
      else if ace_matches_subject a su sd then
        (let remaining' = remaining AND NOT (ace_mask a)
         in if remaining' = 0 then True else allow_loop su sd remaining' as)
      else allow_loop su sd remaining as)"

definition evaluate_dacl :: "security_subject \<Rightarrow> acl \<Rightarrow> security_descriptor \<Rightarrow> access_mask \<Rightarrow> bool" where
  "evaluate_dacl su dacl sd desired =
     (if deny_loop su sd desired (acl_entries dacl) then False
      else allow_loop su sd desired (acl_entries dacl))"

definition check_mode_bits :: "security_subject \<Rightarrow> security_descriptor \<Rightarrow> access_mask \<Rightarrow> bool" where
  "check_mode_bits su sd desired =
     (let mode_bits =
            (if su_uid su = sd_owner sd then drop_bit 6 (sd_mode sd) AND 7
             else if is_member_of su (sd_group sd) then drop_bit 3 (sd_mode sd) AND 7
             else sd_mode sd AND 7)
      in desired AND mode_to_mask mode_bits = desired)"

definition check_access :: "security_subject \<Rightarrow> security_descriptor \<Rightarrow> access_mask \<Rightarrow> bool" where
  "check_access su sd desired =
     (if su_is_privileged su then \<not> (desired AND FILE_EXECUTE \<noteq> 0 \<and> sd_mode sd AND 0x49 = 0)
      else
        (case sd_dacl sd of
           Some dacl \<Rightarrow> evaluate_dacl su dacl sd desired
         | None \<Rightarrow> check_mode_bits su sd desired))"

definition can_read :: "u64 \<Rightarrow> process list \<Rightarrow> security_descriptor \<Rightarrow> bool" where
  "can_read pid procs sd = check_access (from_current_process pid procs) sd FILE_READ_DATA"

definition can_write :: "u64 \<Rightarrow> process list \<Rightarrow> security_descriptor \<Rightarrow> bool" where
  "can_write pid procs sd = check_access (from_current_process pid procs) sd FILE_WRITE_DATA"

definition can_execute :: "u64 \<Rightarrow> process list \<Rightarrow> security_descriptor \<Rightarrow> bool" where
  "can_execute pid procs sd = check_access (from_current_process pid procs) sd FILE_EXECUTE"

definition can_delete :: "u64 \<Rightarrow> process list \<Rightarrow> security_descriptor \<Rightarrow> bool" where
  "can_delete pid procs sd = check_access (from_current_process pid procs) sd ACCESS_DELETE"

definition last_sub :: "sid \<Rightarrow> u32" where
  "last_sub s = (if sid_subs s \<noteq> [] then last (sid_subs s) else - 1)"

definition check_token_access :: "access_token \<Rightarrow> security_descriptor \<Rightarrow> u32 \<Rightarrow> bool" where
  "check_token_access tok sd desired =
     (if tok_user tok = sid_local_system then True
      else
        (let uid_val = last_sub (tok_user tok);
             gid_val = last_sub (tok_primary_group tok);
             group_ids = map (\<lambda>g. last (sid_subs (tg_sid g)))
               (filter (\<lambda>g. sid_subs (tg_sid g) \<noteq> [])
                 (filter (\<lambda>g. tg_enabled g \<and> \<not> tg_deny_only g) (tok_groups tok)))
         in check_access
              \<lparr>su_uid = from_id uid_val, su_gid = from_id gid_val, su_groups = map from_id group_ids,
               su_is_privileged = (uid_val = 0 \<or> tok_user tok = sid_local_system)\<rparr> sd desired))"

section \<open>The evaluation, bit by bit\<close>

definition applies :: "ace_type \<Rightarrow> security_subject \<Rightarrow> security_descriptor \<Rightarrow> ace \<Rightarrow> bool" where
  "applies ty su sd a \<longleftrightarrow> ace_kind a = ty \<and> ace_flags a AND ACE_INHERIT_ONLY = 0 \<and> ace_matches_subject a su sd"

definition class_mask :: "security_subject \<Rightarrow> security_descriptor \<Rightarrow> access_mask" where
  "class_mask su sd =
     mode_to_mask (if su_uid su = sd_owner sd then drop_bit 6 (sd_mode sd)
                   else if is_member_of su (sd_group sd) then drop_bit 3 (sd_mode sd) else sd_mode sd)"

text \<open>A mode whose group has no right the owner lacks, and whose others have none the group lacks.\<close>

definition nested_mode :: "u32 \<Rightarrow> bool" where
  "nested_mode m \<longleftrightarrow>
     (\<forall>k \<in> {0, 1, 2}. (bit m k \<longrightarrow> bit m (k + 3)) \<and> (bit m (k + 3) \<longrightarrow> bit m (k + 6)))"

lemma mask_zero_iff: "(w :: u32) = 0 \<longleftrightarrow> (\<forall>n. \<not> bit w n)"
  by (auto intro: bit_eqI)

lemma deny_loop_iff:
  "deny_loop su sd desired as \<longleftrightarrow> (\<exists>a \<in> set as. applies Deny su sd a \<and> (\<exists>n. bit desired n \<and> bit (ace_mask a) n))"
  by (induction as) (auto simp: applies_def mask_zero_iff bit_simps)

lemma allow_loop_iff:
  "allow_loop su sd r as \<longleftrightarrow>
     (\<exists>a \<in> set as. applies Allow su sd a) \<and>
     (\<forall>n. bit r n \<longrightarrow> (\<exists>a \<in> set as. applies Allow su sd a \<and> bit (ace_mask a) n))"
proof (induction as arbitrary: r)
  case Nil
  then show ?case by simp
next
  case (Cons a as)
  show ?case
  proof (cases "applies Allow su sd a")
    case True
    then have step: "allow_loop su sd r (a # as) \<longleftrightarrow>
        r AND NOT (ace_mask a) = 0 \<or> allow_loop su sd (r AND NOT (ace_mask a)) as"
      by (auto simp: applies_def Let_def)
    have "bit (r AND NOT (ace_mask a)) n \<longleftrightarrow> bit r n \<and> \<not> bit (ace_mask a) n" for n
      by (auto simp: bit_simps dest: bit_imp_le_length)
    with True show ?thesis
      unfolding step Cons.IH mask_zero_iff by auto
  next
    case False
    then have "allow_loop su sd r (a # as) = allow_loop su sd r as" by (auto simp: applies_def)
    with False Cons.IH show ?thesis by auto
  qed
qed

lemma bit_mode_to_mask:
  "bit (mode_to_mask r) n \<longleftrightarrow>
     bit r 2 \<and> bit (0x20051 :: u32) n \<or> bit r 1 \<and> bit (0xA6 :: u32) n \<or> bit r 0 \<and> bit (8 :: u32) n"
  by (auto simp: mode_to_mask_def and_bit_iff bit_or_iff)

lemma mode_to_mask_and7 [simp]: "mode_to_mask (r AND 7) = mode_to_mask r"
proof -
  have "bit (mask 3 :: u32) k \<longleftrightarrow> k < 3" for k by (auto simp: bit_mask_iff)
  then have "bit (r AND 7) k \<longleftrightarrow> bit r k \<and> k < 3" for k by (simp add: mask_eq_exp_minus_1 bit_and_iff)
  then show ?thesis by (intro bit_eqI) (simp add: bit_mode_to_mask)
qed

lemma and_subset_iff: "d AND m = d \<longleftrightarrow> (\<forall>n. bit d n \<longrightarrow> bit m n)" for d m :: u32
proof
  assume "d AND m = d"
  then have "bit (d AND m) n \<longleftrightarrow> bit d n" for n by simp
  then show "\<forall>n. bit d n \<longrightarrow> bit m n" unfolding bit_and_iff by blast
next
  assume "\<forall>n. bit d n \<longrightarrow> bit m n"
  then show "d AND m = d" by (intro bit_word_eqI) (auto simp: bit_and_iff)
qed

lemma check_mode_bits_iff: "check_mode_bits su sd desired \<longleftrightarrow> (\<forall>n. bit desired n \<longrightarrow> bit (class_mask su sd) n)"
  by (simp add: check_mode_bits_def class_mask_def Let_def and_subset_iff)

text \<open>
  C32: An access check decides each requested right on its own, whatever the order of the entries. For a
  subject without privilege and a descriptor with a list, a request is granted exactly when every
  requested bit is in the mask of some applying allow entry and in the mask of no applying deny entry
  (and some allow entry applies, when nothing is requested): a deny overrides every allow, and what
  no entry mentions is denied. Without a list the bits are those of the mode class of the subject. A
  privileged subject is granted everything, except execution of an object no class may execute.\<close>

theorem check_access_bitwise:
  "check_access su sd desired \<longleftrightarrow>
     (if su_is_privileged su then bit desired 3 \<longrightarrow> sd_mode sd AND 0x49 \<noteq> 0
      else
        (case sd_dacl sd of
           None \<Rightarrow> \<forall>n. bit desired n \<longrightarrow> bit (class_mask su sd) n
         | Some dacl \<Rightarrow>
             (\<forall>n. bit desired n \<longrightarrow>
                (\<exists>a \<in> set (acl_entries dacl). applies Allow su sd a \<and> bit (ace_mask a) n) \<and>
                \<not> (\<exists>a \<in> set (acl_entries dacl). applies Deny su sd a \<and> bit (ace_mask a) n)) \<and>
             (\<exists>a \<in> set (acl_entries dacl). applies Allow su sd a)))"
  by (cases "sd_dacl sd")
    (auto simp: check_access_def evaluate_dacl_def deny_loop_iff allow_loop_iff check_mode_bits_iff and_bit_iff)

text \<open>The three entries of a list made from mode bits.\<close>

definition class_applies :: "security_subject \<Rightarrow> security_id \<Rightarrow> bool" where
  "class_applies su i \<longleftrightarrow> su_uid su = i \<or> is_member_of su i \<or> i = SID_EVERYONE"

lemma applies_allow:
  "(\<exists>a \<in> set (allow_ace i m). applies Allow su sd a \<and> bit (ace_mask a) n) \<longleftrightarrow> class_applies su i \<and> bit m n"
  by (auto simp: allow_ace_def applies_def ace_matches_subject_def class_applies_def)

lemma no_deny: "\<not> (\<exists>a \<in> set (allow_ace i m). applies Deny su sd a \<and> P a)"
  by (auto simp: allow_ace_def applies_def)

lemma mode_list_access:
  assumes "\<not> su_is_privileged su" and "desired \<noteq> 0"
  shows "check_access su (sd_new ow gr m) desired \<longleftrightarrow>
     (\<forall>n. bit desired n \<longrightarrow>
        class_applies su ow \<and> bit (mode_to_mask (drop_bit 6 m)) n \<or>
        class_applies su gr \<and> bit (mode_to_mask (drop_bit 3 m)) n \<or> bit (mode_to_mask m) n)"
proof -
  define sd where "sd = sd_new ow gr m"
  define es where "es = acl_entries (from_mode ow gr m)"
  have d: "\<not> deny_loop su sd desired es"
    unfolding deny_loop_iff es_def from_mode_def using no_deny by (fastforce simp: )
  have s: "(\<exists>a \<in> set es. applies Allow su sd a \<and> bit (ace_mask a) n) \<longleftrightarrow>
      class_applies su ow \<and> bit (mode_to_mask (drop_bit 6 m)) n \<or>
      class_applies su gr \<and> bit (mode_to_mask (drop_bit 3 m)) n \<or> bit (mode_to_mask m) n" for n
    using applies_allow [of ow "mode_to_mask (drop_bit 6 m)" su sd n] applies_allow [of gr "mode_to_mask (drop_bit 3 m)" su sd n]
      applies_allow [of SID_EVERYONE "mode_to_mask m" su sd n]
    by (simp add: es_def from_mode_def bex_Un class_applies_def)
  obtain k where k: "bit desired k" using assms(2) mask_zero_iff by blast
  have "check_access su sd desired \<longleftrightarrow>
      (\<forall>n. bit desired n \<longrightarrow> (\<exists>a \<in> set es. applies Allow su sd a \<and> bit (ace_mask a) n))"
    using assms d k by (auto simp: check_access_def evaluate_dacl_def allow_loop_iff sd_def sd_new_def es_def)
  with s show ?thesis by (simp add: sd_def)
qed

lemma nested_masks:
  assumes "nested_mode m"
  shows "bit (mode_to_mask m) n \<Longrightarrow> bit (mode_to_mask (drop_bit 3 m)) n"
    and "bit (mode_to_mask (drop_bit 3 m)) n \<Longrightarrow> bit (mode_to_mask (drop_bit 6 m)) n"
  using assms by (auto simp: bit_mode_to_mask nested_mode_def bit_drop_bit_eq eval_nat_numeral)

text \<open>
  C35: The list a descriptor is created with agrees with its POSIX mode, for the usual modes: when no
  class has a right that a class above it lacks (as in 0755, 0644, 0600), the owner's identifier is
  not one of the subject's groups, the subject is not the object's group, and neither the owner nor the
  group is the identifier \<open>SID_EVERYONE\<close>, which list entries match for every subject, the list check and
  the mode check of an unprivileged subject grant the same non-empty requests.\<close>

theorem dacl_agrees_with_mode:
  assumes "\<not> su_is_privileged su" and "desired \<noteq> 0" and "nested_mode m"
    and "is_member_of su ow \<Longrightarrow> su_uid su = ow" and "su_uid su = gr \<Longrightarrow> is_member_of su gr"
    and "ow \<noteq> SID_EVERYONE" and "gr \<noteq> SID_EVERYONE"
  shows "check_access su (sd_new ow gr m) desired = check_mode_bits su (sd_new ow gr m) desired"
proof -
  have o: "class_applies su ow \<longleftrightarrow> su_uid su = ow" using assms(4,6) by (auto simp: class_applies_def)
  have g: "class_applies su gr \<longleftrightarrow> is_member_of su gr" using assms(5,7) by (auto simp: class_applies_def)
  have "(class_applies su ow \<and> bit (mode_to_mask (drop_bit 6 m)) n \<or>
        class_applies su gr \<and> bit (mode_to_mask (drop_bit 3 m)) n \<or> bit (mode_to_mask m) n) \<longleftrightarrow>
      bit (class_mask su (sd_new ow gr m)) n" for n
    unfolding o g using nested_masks [OF assms(3), of n] by (auto simp: class_mask_def sd_new_def)
  then show ?thesis
    unfolding mode_list_access [OF assms(1,2)] check_mode_bits_iff by simp
qed

text \<open>
  Owners and groups share one number space in a list made from a mode. A file that only its owner
  may read and write (mode 0600) is open to every unprivileged member of the group whose number is
  that of the owner: the list check grants the read and the write that the mode check denies.\<close>

theorem private_file_open_to_group:
  assumes "\<not> su_is_privileged su" and "is_member_of su ow" and "su_uid su \<noteq> ow"
    and "d = FILE_READ_DATA \<or> d = FILE_WRITE_DATA"
  shows "check_access su (sd_new ow gr 0x180) d \<and> \<not> check_mode_bits su (sd_new ow gr 0x180) d"
proof
  have m: "mode_to_mask 6 = 0x200F7" "mode_to_mask 0x30 = 0" "mode_to_mask 0x180 = 0"
    by (simp_all add: mode_to_mask_def)
  have "d AND 0x200F7 = d" "d \<noteq> 0" using assms(4) by auto
  then show "check_access su (sd_new ow gr 0x180) d"
    using assms(2) by (simp add: mode_list_access assms(1) m and_subset_iff class_applies_def)
  have "class_mask su (sd_new ow gr 0x180) = 0" using assms(3) m by (simp add: class_mask_def sd_new_def)
  with \<open>d \<noteq> 0\<close> show "\<not> check_mode_bits su (sd_new ow gr 0x180) d"
    by (simp add: check_mode_bits_iff mask_zero_iff [of d])
qed

text \<open>
  A token whose user is the null identifier S-1-0-0, which stands for nobody, passes as the
  superuser: its last sub-authority 0 is read as user number 0, so whatever the descriptor says, every
  request that does not ask for execution is granted.\<close>

theorem null_sid_is_superuser:
  "desired AND FILE_EXECUTE = 0 \<Longrightarrow>
     check_token_access (fst (new_user_token sid_null groups s)) sd desired"
  by (simp add: check_token_access_def new_user_token_def alloc_token_id_def last_sub_def sid_null_def
      from_components_def check_access_def Let_def)

section \<open>Witnesses\<close>

definition demo_subject :: security_subject where
  "demo_subject = from_credentials 1000 1000 [100]"

theorem check_access_bitwise_witness:
  "check_access demo_subject (sd_new (SecurityId 1000) (SecurityId 1000) 0x1A4) FILE_READ_DATA \<and>
   (\<exists>a \<in> set (acl_entries (from_mode (SecurityId 1000) (SecurityId 1000) 0x1A4)). bit (ace_mask a) 0)"
proof -
  have "check_access demo_subject (sd_new (SecurityId 1000) (SecurityId 1000) 0x1A4) FILE_READ_DATA" by code_simp
  moreover have "\<not> su_is_privileged demo_subject" by code_simp
  ultimately show ?thesis
    using check_access_bitwise [of demo_subject "sd_new (SecurityId 1000) (SecurityId 1000) 0x1A4" FILE_READ_DATA]
    by (auto simp: sd_new_def dest!: spec [where x = 0])
qed

theorem dacl_agrees_with_mode_witness:
  "nested_mode 0x1A4 \<and> \<not> su_is_privileged demo_subject \<and>
   check_access demo_subject (sd_new (SecurityId 0) (SecurityId 100) 0x1A4) FILE_READ_DATA =
   check_mode_bits demo_subject (sd_new (SecurityId 0) (SecurityId 100) 0x1A4) FILE_READ_DATA"
proof -
  have h: "nested_mode 0x1A4" "\<not> su_is_privileged demo_subject" "\<not> is_member_of demo_subject (SecurityId 0)"
    "su_uid demo_subject \<noteq> SecurityId 100" by code_simp+
  then show ?thesis
    using dacl_agrees_with_mode [of demo_subject FILE_READ_DATA "0x1A4" "SecurityId 0" "SecurityId 100"] by simp
qed

theorem private_file_open_to_group_witness:
  "is_member_of demo_subject (SecurityId 100) \<and> su_uid demo_subject \<noteq> SecurityId 100 \<and>
   check_access demo_subject (sd_new (SecurityId 100) (SecurityId 7) 0x180) FILE_WRITE_DATA \<and>
   \<not> check_mode_bits demo_subject (sd_new (SecurityId 100) (SecurityId 7) 0x180) FILE_WRITE_DATA"
proof -
  have h: "is_member_of demo_subject (SecurityId 100)" "su_uid demo_subject \<noteq> SecurityId 100"
    "\<not> su_is_privileged demo_subject" by code_simp+
  then show ?thesis
    using private_file_open_to_group [of demo_subject "SecurityId 100" FILE_WRITE_DATA "SecurityId 7"] by simp
qed

theorem null_sid_is_superuser_witness:
  "(FILE_WRITE_DATA :: u32) AND FILE_EXECUTE = 0 \<and>
   check_token_access (fst (new_user_token sid_null [] \<lparr>tk_next_id = 1, tk_registry = None\<rparr>)) (sd_new SYSTEM WHEEL 0) FILE_WRITE_DATA"
  using null_sid_is_superuser [of FILE_WRITE_DATA "[]" "\<lparr>tk_next_id = 1, tk_registry = None\<rparr>" "sd_new SYSTEM WHEEL 0"] by simp

end
