(* ===== verification/Ob_Namespace.thy ===== *)
theory Ob_Namespace
  imports Sec_Access
begin

text \<open>
  The object manager's name space, \<open>ob/mod.rs\<close>: a tree of ordered maps from names to directories
  and objects, addressed by paths whose parts are separated by backslashes or slashes. The walks of
  the source, loops that move a reference down the tree, are recursions over the parts of the path;
  the atomic reference count of an object is read and written under the name space lock only, so each
  operation is one step. The name space as a client sees it is the flat map \<open>object_at\<close> from paths to
  object headers; the last section relates every operation to an update of that map. The access check
  of \<open>security/mod.rs\<close> on a named object is here, since it reads the name space.
\<close>

section \<open>Objects\<close>

datatype ob_type =
    TDirectory | TDevice | TDriver | TSymbolicLink | TEvent | TMutex | TSemaphore | TSection | TPort
  | TProcess | TThread | TFile | TKey | TType

fun type_name :: "ob_type \<Rightarrow> string" where
  "type_name TDirectory = ''Directory''"
| "type_name TDevice = ''Device''"
| "type_name TDriver = ''Driver''"
| "type_name TSymbolicLink = ''SymbolicLink''"
| "type_name TEvent = ''Event''"
| "type_name TMutex = ''Mutant''"
| "type_name TSemaphore = ''Semaphore''"
| "type_name TSection = ''Section''"
| "type_name TPort = ''Port''"
| "type_name TProcess = ''Process''"
| "type_name TThread = ''Thread''"
| "type_name TFile = ''File''"
| "type_name TKey = ''Key''"
| "type_name TType = ''Type''"

text \<open>The body of an object is known by its type and its name, the two methods of \<open>KernelObject\<close>.\<close>

record object_header =
  oh_name :: string
  oh_type :: ob_type
  oh_ref_count :: usize
  oh_sd :: "security_descriptor option"
  oh_link_target :: "string option"
  oh_body :: "(ob_type \<times> string) option"

datatype ns_entry = Directory "(string \<times> ns_entry) list" | Object object_header

type_synonym directory = "(string, ns_entry) btree"

text \<open>\<open>NAMESPACE\<close>: absent until \<open>init\<close> has run.\<close>

type_synonym namespace = "directory option"

abbreviation backslash :: char where "backslash \<equiv> CHR 0x5C"

abbreviation separator :: "char \<Rightarrow> bool" where "separator c \<equiv> c = backslash \<or> c = CHR ''/''"

fun split_at :: "(char \<Rightarrow> bool) \<Rightarrow> string \<Rightarrow> string list" where
  "split_at P [] = [[]]"
| "split_at P (c # cs) =
     (if P c then [] # split_at P cs
      else (case split_at P cs of w # ws \<Rightarrow> (c # w) # ws | [] \<Rightarrow> [[c]]))"

definition parse_path :: "string \<Rightarrow> string list" where
  "parse_path path =
     (let clean = dropWhile (\<lambda>c. c = CHR ''/'') (dropWhile (\<lambda>c. c = backslash) path)
      in filter (\<lambda>s. s \<noteq> []) (split_at separator clean))"

section \<open>Operations under the lock\<close>

definition new_header :: "string \<Rightarrow> ob_type \<Rightarrow> security_descriptor option \<Rightarrow> string option \<Rightarrow> object_header" where
  "new_header name ty sd target =
     \<lparr>oh_name = name, oh_type = ty, oh_ref_count = 1, oh_sd = sd, oh_link_target = target, oh_body = None\<rparr>"

fun insert_parts :: "string list \<Rightarrow> (string \<Rightarrow> object_header) \<Rightarrow> directory \<Rightarrow> bool \<times> directory" where
  "insert_parts [] h cur = (False, cur)"
| "insert_parts [name] h cur = (True, bt_insert name (Object (h name)) cur)"
| "insert_parts (part # p # ps) h cur =
     (let cur' = (if bt_contains cur part then cur else bt_insert part (Directory []) cur)
      in case bt_get cur' part of
           Some (Directory sub) \<Rightarrow>
             (let (r, sub') = insert_parts (p # ps) h sub in (r, bt_insert part (Directory sub') cur'))
         | _ \<Rightarrow> (False, cur'))"

definition insert_inner ::
  "string \<Rightarrow> ob_type \<Rightarrow> security_descriptor option \<Rightarrow> string option \<Rightarrow> directory \<Rightarrow> bool \<times> directory" where
  "insert_inner path ty sd target root =
     insert_parts (parse_path path) (\<lambda>name. new_header name ty sd target) root"

fun walk_parts :: "string list \<Rightarrow> directory \<Rightarrow> ns_entry option" where
  "walk_parts [] cur = None"
| "walk_parts [name] cur = bt_get cur name"
| "walk_parts (part # p # ps) cur =
     (case bt_get cur part of Some (Directory sub) \<Rightarrow> walk_parts (p # ps) sub | _ \<Rightarrow> None)"

definition walk_namespace :: "string \<Rightarrow> directory \<Rightarrow> ns_entry option" where
  "walk_namespace path root = walk_parts (parse_path path) root"

text \<open>A store to the header found by a walk.\<close>

fun update_parts :: "string list \<Rightarrow> (object_header \<Rightarrow> object_header) \<Rightarrow> directory \<Rightarrow> directory" where
  "update_parts [] f cur = cur"
| "update_parts [name] f cur =
     (case bt_get cur name of Some (Object h) \<Rightarrow> bt_insert name (Object (f h)) cur | _ \<Rightarrow> cur)"
| "update_parts (part # p # ps) f cur =
     (case bt_get cur part of
        Some (Directory sub) \<Rightarrow> bt_insert part (Directory (update_parts (p # ps) f sub)) cur
      | _ \<Rightarrow> cur)"

section \<open>Initialisation\<close>

definition insert_headers :: "(string \<Rightarrow> object_header) \<Rightarrow> string list \<Rightarrow> directory \<Rightarrow> directory" where
  "insert_headers h names d = fold (\<lambda>n. bt_insert n (Object (h n))) names d"

definition init_in :: "string \<Rightarrow> (directory \<Rightarrow> directory) \<Rightarrow> directory \<Rightarrow> directory" where
  "init_in name f root =
     (case bt_get root name of Some (Directory sub) \<Rightarrow> bt_insert name (Directory (f sub)) root | _ \<Rightarrow> root)"

definition ob_init :: namespace where
  "ob_init =
     (let root = fold (\<lambda>n. bt_insert n (Directory []))
            [''Device'', ''Driver'', ''ObjectTypes'', ''BaseNamedObjects'', ''FileSystem'', ''Callback'',
             ''Sessions'', ''KernelObjects'', ''Security'', ''GLOBAL??''] [];
          root = init_in ''ObjectTypes'' (insert_headers (\<lambda>n. new_header n TType None None)
            [''Directory'', ''Device'', ''Driver'', ''SymbolicLink'', ''Event'', ''Mutant'', ''Semaphore'',
             ''Section'', ''Port'', ''Process'', ''Thread'', ''File'', ''Key'', ''Type'']) root;
          root = init_in ''Device'' (insert_headers (\<lambda>n. new_header n TDevice None None)
            [''Null'', ''Console'', ''Serial0'', ''Framebuffer0'', ''E1000'']) root;
          root = init_in ''GLOBAL??''
            (fold (\<lambda>(link, target). bt_insert link (Object (new_header link TSymbolicLink None (Some target))))
              [(''C:'', backslash # ''Device'' @ backslash # ''HarddiskVolume1''),
               (''NUL'', backslash # ''Device'' @ backslash # ''Null''),
               (''CON'', backslash # ''Device'' @ backslash # ''Console'')]) root
      in Some root)"

section \<open>The interface\<close>

definition insert_at :: "string \<Rightarrow> ob_type \<Rightarrow> security_descriptor option \<Rightarrow> string option \<Rightarrow> namespace \<Rightarrow> bool \<times> namespace" where
  "insert_at path ty sd target ns =
     (case ns of
        None \<Rightarrow> (False, ns)
      | Some root \<Rightarrow> (let (r, root') = insert_inner path ty sd target root in (r, Some root')))"

definition insert_object :: "string \<Rightarrow> ob_type \<Rightarrow> namespace \<Rightarrow> bool \<times> namespace" where
  "insert_object path ty ns = insert_at path ty None None ns"

definition insert_object_with_sd :: "string \<Rightarrow> ob_type \<Rightarrow> security_descriptor option \<Rightarrow> namespace \<Rightarrow> bool \<times> namespace" where
  "insert_object_with_sd path ty sd ns = insert_at path ty sd None ns"

definition insert_symlink :: "string \<Rightarrow> string \<Rightarrow> namespace \<Rightarrow> bool \<times> namespace" where
  "insert_symlink path target ns = insert_at path TSymbolicLink None (Some target) ns"

definition lookup_at :: "string \<Rightarrow> namespace \<Rightarrow> ns_entry option" where
  "lookup_at path ns = (case ns of None \<Rightarrow> None | Some root \<Rightarrow> walk_namespace path root)"

definition lookup_object_type :: "string \<Rightarrow> namespace \<Rightarrow> ob_type option" where
  "lookup_object_type path ns =
     (case lookup_at path ns of
        None \<Rightarrow> None | Some (Directory _) \<Rightarrow> Some TDirectory | Some (Object h) \<Rightarrow> Some (oh_type h))"

definition store_count :: "string \<Rightarrow> usize \<Rightarrow> namespace \<Rightarrow> namespace" where
  "store_count path c ns = map_option (update_parts (parse_path path) (\<lambda>h. h\<lparr>oh_ref_count := c\<rparr>)) ns"

definition obref_inc :: "string \<Rightarrow> namespace \<Rightarrow> usize option \<times> namespace" where
  "obref_inc path ns =
     (case lookup_at path ns of
        Some (Object h) \<Rightarrow> (Some (oh_ref_count h + 1), store_count path (oh_ref_count h + 1) ns)
      | _ \<Rightarrow> (None, ns))"

text \<open>
  The compare-and-exchange of \<open>obref_dec\<close> runs under the lock every writer of the count holds, and an
  x86 compare-and-exchange does not fail without cause, so the loop ends in its first round.
\<close>

definition obref_dec :: "string \<Rightarrow> namespace \<Rightarrow> usize option \<times> namespace" where
  "obref_dec path ns =
     (case lookup_at path ns of
        Some (Object h) \<Rightarrow>
          (if oh_ref_count h = 0 then (Some 0, ns)
           else (Some (oh_ref_count h - 1), store_count path (oh_ref_count h - 1) ns))
      | _ \<Rightarrow> (None, ns))"

definition peek_object_refcount :: "string \<Rightarrow> namespace \<Rightarrow> usize option" where
  "peek_object_refcount path ns =
     (case lookup_at path ns of Some (Object h) \<Rightarrow> Some (oh_ref_count h) | _ \<Rightarrow> None)"

definition has_object :: "string \<Rightarrow> namespace \<Rightarrow> bool" where
  "has_object path ns \<longleftrightarrow> lookup_at path ns \<noteq> None"

definition resolve_symlink :: "string \<Rightarrow> namespace \<Rightarrow> string option" where
  "resolve_symlink path ns =
     (case lookup_at path ns of
        Some (Object h) \<Rightarrow> if oh_type h = TSymbolicLink then oh_link_target h else None
      | _ \<Rightarrow> None)"

definition get_object_security_descriptor :: "string \<Rightarrow> namespace \<Rightarrow> security_descriptor option" where
  "get_object_security_descriptor path ns =
     (case lookup_at path ns of Some (Object h) \<Rightarrow> oh_sd h | _ \<Rightarrow> None)"

fun remove_parts :: "string list \<Rightarrow> directory \<Rightarrow> bool \<times> directory" where
  "remove_parts [] cur = (False, cur)"
| "remove_parts [name] cur = (bt_contains cur name, bt_remove name cur)"
| "remove_parts (part # p # ps) cur =
     (case bt_get cur part of
        Some (Directory sub) \<Rightarrow>
          (let (r, sub') = remove_parts (p # ps) sub in (r, bt_insert part (Directory sub') cur))
      | _ \<Rightarrow> (False, cur))"

definition remove_object :: "string \<Rightarrow> namespace \<Rightarrow> bool \<times> namespace" where
  "remove_object path ns =
     (case ns of
        None \<Rightarrow> (False, ns)
      | Some root \<Rightarrow> (let (r, root') = remove_parts (parse_path path) root in (r, Some root')))"

datatype remove_outcome = Removed | RefusedRefcount | NotFound

text \<open>The check of the count and the removal, in the directory that holds the name.\<close>

definition remove_checked :: "string \<Rightarrow> directory \<Rightarrow> remove_outcome \<times> directory" where
  "remove_checked name cur =
     (case bt_get cur name of
        Some (Object h) \<Rightarrow> if 1 < oh_ref_count h then (RefusedRefcount, cur) else (Removed, bt_remove name cur)
      | _ \<Rightarrow> (NotFound, cur))"

fun remove_unreferenced_parts :: "string list \<Rightarrow> directory \<Rightarrow> remove_outcome \<times> directory" where
  "remove_unreferenced_parts [] cur = (NotFound, cur)"
| "remove_unreferenced_parts [name] cur = remove_checked name cur"
| "remove_unreferenced_parts (part # p # ps) cur =
     (case bt_get cur part of
        Some (Directory sub) \<Rightarrow>
          (let (r, sub') = remove_unreferenced_parts (p # ps) sub in (r, bt_insert part (Directory sub') cur))
      | _ \<Rightarrow> (NotFound, cur))"

definition remove_object_if_unreferenced :: "string \<Rightarrow> namespace \<Rightarrow> remove_outcome \<times> namespace" where
  "remove_object_if_unreferenced path ns =
     (case ns of
        None \<Rightarrow> (NotFound, ns)
      | Some root \<Rightarrow> (let (r, root') = remove_unreferenced_parts (parse_path path) root in (r, Some root')))"

datatype nt_status = STATUS_SUCCESS | STATUS_ACCESS_DENIED | STATUS_OBJECT_NAME_NOT_FOUND

definition check_object_access :: "u64 \<Rightarrow> process list \<Rightarrow> string \<Rightarrow> u32 \<Rightarrow> namespace \<Rightarrow> nt_status" where
  "check_object_access pid procs path desired ns =
     (if \<not> has_object path ns then STATUS_OBJECT_NAME_NOT_FOUND
      else
        (case get_object_security_descriptor path ns of
           Some sd \<Rightarrow>
             if check_access (from_current_process pid procs) sd desired then STATUS_SUCCESS else STATUS_ACCESS_DENIED
         | None \<Rightarrow> STATUS_SUCCESS))"

section \<open>The name space as a flat map\<close>

fun headers :: "directory \<Rightarrow> string list \<Rightarrow> object_header option" where
  "headers cur [] = None"
| "headers cur [name] = (case bt_get cur name of Some (Object h) \<Rightarrow> Some h | _ \<Rightarrow> None)"
| "headers cur (part # p # ps) =
     (case bt_get cur part of Some (Directory sub) \<Rightarrow> headers sub (p # ps) | _ \<Rightarrow> None)"

definition object_at :: "namespace \<Rightarrow> string list \<Rightarrow> object_header option" where
  "object_at ns ps = (case ns of None \<Rightarrow> None | Some root \<Rightarrow> headers root ps)"

lemma walk_headers:
  "headers cur ps = (case walk_parts ps cur of Some (Object h) \<Rightarrow> Some h | _ \<Rightarrow> None)"
  by (induction ps cur rule: walk_parts.induct) (auto split: option.splits ns_entry.splits)

lemma headers_Cons:
  "headers cur (x # xs) =
     (case bt_get cur x of
        Some (Object h) \<Rightarrow> if xs = [] then Some h else None
      | Some (Directory sub) \<Rightarrow> headers sub xs
      | None \<Rightarrow> None)"
  by (cases xs) (auto split: option.splits ns_entry.splits)

lemma headers_insert_dir:
  "headers (bt_insert x (Directory sub) cur) qs =
     (case qs of [] \<Rightarrow> None | q # qs' \<Rightarrow> if q = x then headers sub qs' else headers cur qs)"
  by (cases qs) (auto simp: headers_Cons bt_get_insert)

lemma headers_Nil_dir [simp]: "headers [] qs = None"
  by (cases qs) (auto simp: headers_Cons)

lemma headers_update:
  "headers (update_parts ps f cur) = (headers cur)(ps := map_option f (headers cur ps))"
proof (induction ps f cur rule: update_parts.induct)
  case (1 f cur)
  then show ?case by (auto simp: fun_eq_iff)
next
  case (2 name f cur)
  show ?case
  proof
    fix qs
    show "headers (update_parts [name] f cur) qs = ((headers cur)([name] := map_option f (headers cur [name]))) qs"
      by (cases qs) (auto simp: headers_Cons bt_get_insert split: option.splits ns_entry.splits)
  qed
next
  case (3 part p ps f cur)
  show ?case
  proof (cases "\<exists>sub. bt_get cur part = Some (Directory sub)")
    case False
    then show ?thesis by (auto simp: fun_eq_iff split: option.splits ns_entry.splits)
  next
    case True
    then obtain sub where sub: "bt_get cur part = Some (Directory sub)" ..
    note IH = 3 [OF sub refl]
    have "headers (update_parts (part # p # ps) f cur) qs =
        ((headers cur)(part # p # ps := map_option f (headers cur (part # p # ps)))) qs" for qs
      using sub by (cases qs) (auto simp: headers_insert_dir IH headers_Cons [of cur])
    then show ?thesis by (auto simp: fun_eq_iff)
  qed
qed

lemma headers_insert:
  "walk_parts ps cur = None \<Longrightarrow> insert_parts ps h cur = (r, cur') \<Longrightarrow>
     headers cur' = (if r then (headers cur)(ps \<mapsto> h (last ps)) else headers cur) \<and> (r \<longrightarrow> ps \<noteq> [])"
proof (induction ps h cur arbitrary: r cur' rule: insert_parts.induct)
  case (1 h cur)
  then show ?case by simp
next
  case (2 name h cur)
  have "headers (bt_insert name (Object (h name)) cur) qs = ((headers cur)([name] \<mapsto> h name)) qs" for qs
    using 2 by (cases qs) (auto simp: headers_Cons bt_get_insert)
  with 2 show ?case by auto
next
  case (3 part p ps h cur)
  define mid where "mid = (if bt_contains cur part then cur else bt_insert part (Directory []) cur)"
  have mid: "headers mid qs = headers cur qs" for qs
    by (cases qs) (auto simp: mid_def headers_insert_dir headers_Cons [of cur] bt_contains_def)
  show ?case
  proof (cases "bt_get mid part")
    case None
    with 3(3) have "r = False" "cur' = mid" by (auto simp: mid_def [symmetric] Let_def)
    then show ?thesis by (simp add: mid fun_eq_iff)
  next
    case (Some e)
    show ?thesis
    proof (cases e)
      case (Object x)
      with Some 3(3) have "r = False" "cur' = mid" by (auto simp: mid_def [symmetric] Let_def)
      then show ?thesis by (simp add: mid fun_eq_iff)
    next
      case (Directory sub)
      obtain r' sub' where ins: "insert_parts (p # ps) h sub = (r', sub')" by fastforce
      have none: "walk_parts (p # ps) sub = None"
      proof (cases "bt_contains cur part")
        case True
        with 3(2) Some Directory show ?thesis by (simp add: mid_def)
      next
        case False
        with Some Directory have "sub = []" by (auto simp: mid_def bt_get_insert)
        then show ?thesis by (cases ps) simp_all
      qed
      have res: "r = r'" "cur' = bt_insert part (Directory sub') mid"
        using 3(3) ins Some Directory by (auto simp: mid_def [symmetric] Let_def)
      have IH: "headers sub' = (if r' then (headers sub)(p # ps \<mapsto> h (last (p # ps))) else headers sub)"
        using 3(1) [OF mid_def, of e sub] Some Directory none ins by (simp add: mid_def [symmetric])
      have "headers cur' qs = (if r then (headers cur)(part # p # ps \<mapsto> h (last (p # ps))) else headers cur) qs" for qs
        using mid [of qs] Some Directory
        by (cases qs) (auto simp: res headers_insert_dir IH headers_Cons [of mid])
      then show ?thesis by (auto simp: fun_eq_iff)
    qed
  qed
qed

lemma headers_remove_unreferenced:
  "remove_unreferenced_parts ps cur = (r, cur') \<Longrightarrow>
     r = (case headers cur ps of
            None \<Rightarrow> NotFound | Some h \<Rightarrow> if 1 < oh_ref_count h then RefusedRefcount else Removed) \<and>
     headers cur' = (if r = Removed then (headers cur)(ps := None) else headers cur)"
proof (induction ps cur arbitrary: r cur' rule: remove_unreferenced_parts.induct)
  case (1 cur)
  then show ?case by simp
next
  case (2 name cur)
  have "headers (bt_remove name cur) qs = ((headers cur)([name] := None)) qs"
    if "bt_get cur name = Some (Object h)" for h qs
    using that by (cases qs) (auto simp: headers_Cons bt_get_remove)
  with 2 show ?case
    by (auto simp: remove_checked_def fun_eq_iff split: option.splits ns_entry.splits if_splits)
next
  case (3 part p ps cur)
  show ?case
  proof (cases "\<exists>sub. bt_get cur part = Some (Directory sub)")
    case False
    with 3 show ?thesis by (auto simp: fun_eq_iff split: option.splits ns_entry.splits)
  next
    case True
    then obtain sub where sub: "bt_get cur part = Some (Directory sub)" ..
    obtain r' sub' where rem: "remove_unreferenced_parts (p # ps) sub = (r', sub')" by fastforce
    with sub 3(2) have res: "r = r'" "cur' = bt_insert part (Directory sub') cur" by auto
    from 3(1) [OF sub] sub rem
    have IH: "headers sub' = (if r' = Removed then (headers sub)(p # ps := None) else headers sub)"
      and r': "r' = (case headers sub (p # ps) of
            None \<Rightarrow> NotFound | Some h \<Rightarrow> if 1 < oh_ref_count h then RefusedRefcount else Removed)" by simp_all
    have "headers cur' qs = (if r = Removed then (headers cur)(part # p # ps := None) else headers cur) qs" for qs
      using sub by (cases qs) (auto simp: res headers_insert_dir IH headers_Cons [of cur])
    with sub r' res show ?thesis by (auto simp: fun_eq_iff)
  qed
qed

end
