(* ===== verification/Ob_Handles.thy ===== *)
theory Ob_Handles
  imports Ob_Namespace "HOL-Library.Multiset"
begin

text \<open>
  The handle tables of the processes, \<open>ob/handle.rs\<close>, and the references they hold on the objects of
  the name space. What a handle table relies on is the locale \<open>ref_store\<close>: a store of reference
  counts with an increment and a decrement. The bookkeeping argument, that the count of an object is
  one more than the number of references held on it, is made in the locale, which is interpreted on
  the name space; the last sections carry it through every history of the operations on any number of
  handle tables.
\<close>

section \<open>Handle tables\<close>

record handle_entry =
  he_path :: string
  he_type :: ob_type
  he_access :: u32
  he_inheritable :: bool

record handle_table =
  ht_entries :: "(u32, handle_entry) btree"
  ht_next :: u32

definition ht_new :: handle_table where
  "ht_new = \<lparr>ht_entries = [], ht_next = 4\<rparr>"

definition allocate :: "handle_entry \<Rightarrow> handle_table \<Rightarrow> namespace \<Rightarrow> u32 \<times> handle_table \<times> namespace" where
  "allocate e t ns =
     (let ns' = snd (obref_inc (he_path e) ns); h = ht_next t
      in (h, t\<lparr>ht_next := h + 4, ht_entries := bt_insert h e (ht_entries t)\<rparr>, ns'))"

definition ht_lookup :: "u32 \<Rightarrow> handle_table \<Rightarrow> handle_entry option" where
  "ht_lookup h t = bt_get (ht_entries t) h"

definition ht_close :: "u32 \<Rightarrow> handle_table \<Rightarrow> namespace \<Rightarrow> bool \<times> handle_table \<times> namespace" where
  "ht_close h t ns =
     (case bt_get (ht_entries t) h of
        Some e \<Rightarrow> (True, t\<lparr>ht_entries := bt_remove h (ht_entries t)\<rparr>, snd (obref_dec (he_path e) ns))
      | None \<Rightarrow> (False, t, ns))"

definition duplicate :: "u32 \<Rightarrow> u32 \<Rightarrow> handle_table \<Rightarrow> namespace \<Rightarrow> u32 option \<times> handle_table \<times> namespace" where
  "duplicate src desired t ns =
     (case bt_get (ht_entries t) src of
        None \<Rightarrow> (None, t, ns)
      | Some e \<Rightarrow>
          (let new_entry = \<lparr>he_path = he_path e, he_type = he_type e, he_access = desired, he_inheritable = he_inheritable e\<rparr>;
               ns' = snd (obref_inc (he_path new_entry) ns); h = ht_next t
           in (Some h, t\<lparr>ht_next := h + 4, ht_entries := bt_insert h new_entry (ht_entries t)\<rparr>, ns')))"

definition ht_count :: "handle_table \<Rightarrow> nat" where
  "ht_count t = length (ht_entries t)"

definition ht_drop :: "handle_table \<Rightarrow> namespace \<Rightarrow> namespace" where
  "ht_drop t ns = fold (\<lambda>(_, e) ns. snd (obref_dec (he_path e) ns)) (ht_entries t) ns"

section \<open>Counting references\<close>

text \<open>
  What a holder of references relies on: the two operations change the count of the object that is
  named, by one, and of no other; a name that stands for no object is left alone.
\<close>

locale ref_store =
  fixes refs :: "'s \<Rightarrow> 'k \<Rightarrow> usize option"
    and key :: "'p \<Rightarrow> 'k"
    and inc :: "'p \<Rightarrow> 's \<Rightarrow> 's"
    and dec :: "'p \<Rightarrow> 's \<Rightarrow> 's"
  assumes refs_inc: "refs (inc p s) k = (if k = key p then map_option (\<lambda>c. c + 1) (refs s k) else refs s k)"
    and refs_dec: "refs (dec p s) k =
      (if k = key p then map_option (\<lambda>c. if c = 0 then 0 else c - 1) (refs s k) else refs s k)"
begin

definition balanced :: "'s \<Rightarrow> 'k multiset \<Rightarrow> bool" where
  "balanced s H \<longleftrightarrow> (\<forall>k c. refs s k = Some c \<longrightarrow> unat c = Suc (count H k))"

lemma balanced_inc:
  assumes "balanced s H" and "size H + 2 < 2 ^ 64"
  shows "balanced (inc p s) (add_mset (key p) H)"
  unfolding balanced_def
proof (intro allI impI)
  fix k c
  assume c: "refs (inc p s) k = Some c"
  show "unat c = Suc (count (add_mset (key p) H) k)"
  proof (cases "k = key p")
    case True
    with c obtain d where d: "refs s k = Some d" "c = d + 1" by (auto simp: refs_inc)
    with assms(1) have n: "unat d = Suc (count H k)" by (simp add: balanced_def)
    have "count H k \<le> size H" by (rule count_le_size)
    with n assms(2) have "unat d + unat (1 :: usize) < 2 ^ 64" by simp
    then have "unat (d + 1) = unat d + 1" by (subst unat_add_lem [THEN iffD1]) simp_all
    with True n d show ?thesis by simp
  next
    case False
    with c assms(1) show ?thesis by (simp add: refs_inc balanced_def)
  qed
qed

lemma balanced_dec:
  assumes "balanced s (add_mset (key p) H)"
  shows "balanced (dec p s) H"
  unfolding balanced_def
proof (intro allI impI)
  fix k c
  assume c: "refs (dec p s) k = Some c"
  show "unat c = Suc (count H k)"
  proof (cases "k = key p")
    case True
    with c obtain d where d: "refs s k = Some d" "c = (if d = 0 then 0 else d - 1)" by (auto simp: refs_dec)
    with assms True have n: "unat d = Suc (Suc (count H k))" by (simp add: balanced_def)
    then have "d \<noteq> 0" by auto
    then have "unat (d - 1) = unat d - 1" by (simp add: unat_minus_one)
    with n d \<open>d \<noteq> 0\<close> show ?thesis by simp
  next
    case False
    with c assms show ?thesis by (simp add: refs_dec balanced_def)
  qed
qed

lemma balanced_dec_all:
  "balanced s (H + mset (map key ps)) \<Longrightarrow> balanced (fold dec ps s) H"
proof (induction ps arbitrary: s)
  case (Cons p ps)
  then have "balanced (dec p s) (H + mset (map key ps))" by (intro balanced_dec) simp
  with Cons.IH show ?case by simp
qed simp

end

definition ref_counts :: "namespace \<Rightarrow> string list \<Rightarrow> usize option" where
  "ref_counts ns ps = map_option oh_ref_count (object_at ns ps)"

lemma lookup_at_object: "lookup_at path ns = Some (Object h) \<longleftrightarrow> object_at ns (parse_path path) = Some h"
  by (auto simp: lookup_at_def object_at_def walk_namespace_def walk_headers split: option.splits ns_entry.splits)

lemma object_at_store:
  "object_at (store_count path c ns) =
     (object_at ns)(parse_path path := map_option (\<lambda>h. h\<lparr>oh_ref_count := c\<rparr>) (object_at ns (parse_path path)))"
  by (cases ns) (auto simp: store_count_def object_at_def headers_update fun_eq_iff)

lemma object_cases:
  obtains (object) h where "lookup_at path ns = Some (Object h)" and "object_at ns (parse_path path) = Some h"
  | (none) "\<nexists>h. lookup_at path ns = Some (Object h)" and "object_at ns (parse_path path) = None"
  using lookup_at_object [of path ns] by (cases "object_at ns (parse_path path)") auto

lemma ref_counts_inc:
  "ref_counts (snd (obref_inc path ns)) ps =
     (if ps = parse_path path then map_option (\<lambda>c. c + 1) (ref_counts ns ps) else ref_counts ns ps)"
  by (cases rule: object_cases [of path ns])
    (auto simp: obref_inc_def ref_counts_def object_at_store split: option.splits ns_entry.splits)

lemma ref_counts_dec:
  "ref_counts (snd (obref_dec path ns)) ps =
     (if ps = parse_path path then map_option (\<lambda>c. if c = 0 then 0 else c - 1) (ref_counts ns ps) else ref_counts ns ps)"
  by (cases rule: object_cases [of path ns])
    (auto simp: obref_dec_def ref_counts_def object_at_store split: option.splits ns_entry.splits)

interpretation ob: ref_store ref_counts parse_path "\<lambda>p ns. snd (obref_inc p ns)" "\<lambda>p ns. snd (obref_dec p ns)"
  by unfold_locales (rule ref_counts_inc ref_counts_dec)+

section \<open>Histories\<close>

text \<open>
  The handle tables of the living processes over one name space. A history is a sequence of creations
  and exits of processes, handle operations, insertions and removals. \<open>ob_run\<close> gives no result for a
  history that inserts an object under a name that is taken or that an open handle still carries.
\<close>

record ob_sys =
  os_ns :: namespace
  os_tables :: "handle_table list"

datatype ob_op =
    Spawn | Exit nat | Open nat handle_entry | Dup nat u32 u32 | Close nat u32
  | Insert string ob_type "security_descriptor option" "string option" | Remove string | Unlink string

definition table_paths :: "handle_table \<Rightarrow> string list" where
  "table_paths t = map (\<lambda>(_, e). he_path e) (ht_entries t)"

definition held :: "ob_sys \<Rightarrow> string list multiset" where
  "held s = mset (map parse_path (concat (map table_paths (os_tables s))))"

fun ob_op_ok :: "ob_op \<Rightarrow> ob_sys \<Rightarrow> bool" where
  "ob_op_ok (Insert path ty sd target) s \<longleftrightarrow> \<not> has_object path (os_ns s) \<and> parse_path path \<notin># held s"
| "ob_op_ok (Exit i) s \<longleftrightarrow> i < length (os_tables s)"
| "ob_op_ok (Open i e) s \<longleftrightarrow> i < length (os_tables s)"
| "ob_op_ok (Dup i h acc) s \<longleftrightarrow> i < length (os_tables s)"
| "ob_op_ok (Close i h) s \<longleftrightarrow> i < length (os_tables s)"
| "ob_op_ok _ s \<longleftrightarrow> True"

fun ob_step :: "ob_op \<Rightarrow> ob_sys \<Rightarrow> ob_sys" where
  "ob_step Spawn s = s\<lparr>os_tables := os_tables s @ [ht_new]\<rparr>"
| "ob_step (Exit i) s =
     \<lparr>os_ns = ht_drop (os_tables s ! i) (os_ns s), os_tables = vec_remove i (os_tables s)\<rparr>"
| "ob_step (Open i e) s =
     (let (_, t, ns) = allocate e (os_tables s ! i) (os_ns s) in \<lparr>os_ns = ns, os_tables = (os_tables s)[i := t]\<rparr>)"
| "ob_step (Dup i h acc) s =
     (let (_, t, ns) = duplicate h acc (os_tables s ! i) (os_ns s) in \<lparr>os_ns = ns, os_tables = (os_tables s)[i := t]\<rparr>)"
| "ob_step (Close i h) s =
     (let (_, t, ns) = ht_close h (os_tables s ! i) (os_ns s) in \<lparr>os_ns = ns, os_tables = (os_tables s)[i := t]\<rparr>)"
| "ob_step (Insert path ty sd target) s = s\<lparr>os_ns := snd (insert_at path ty sd target (os_ns s))\<rparr>"
| "ob_step (Remove path) s = s\<lparr>os_ns := snd (remove_object_if_unreferenced path (os_ns s))\<rparr>"
| "ob_step (Unlink path) s = s\<lparr>os_ns := snd (remove_object path (os_ns s))\<rparr>"

fun ob_run :: "ob_op list \<Rightarrow> ob_sys \<Rightarrow> ob_sys option" where
  "ob_run [] s = Some s"
| "ob_run (opn # ops) s = (if ob_op_ok opn s then ob_run ops (ob_step opn s) else None)"

definition ob_start :: ob_sys where
  "ob_start = \<lparr>os_ns = ob_init, os_tables = []\<rparr>"

text \<open>
  After \<open>n\<close> operations: the counts are balanced, and in every table the handles in use are below the
  next one, which has not wrapped.
\<close>

definition table_ok :: "nat \<Rightarrow> handle_table \<Rightarrow> bool" where
  "table_ok n t \<longleftrightarrow>
     bt_ok (ht_entries t) \<and> unat (ht_next t) \<le> 4 + 4 * n \<and> (\<forall>h \<in> fst ` set (ht_entries t). h < ht_next t)"

definition ob_ok :: "nat \<Rightarrow> ob_sys \<Rightarrow> bool" where
  "ob_ok n s \<longleftrightarrow> ob.balanced (os_ns s) (held s) \<and> size (held s) \<le> n \<and> (\<forall>t \<in> set (os_tables s). table_ok n t)"

lemma bt_insert_fresh: "k \<notin> fst ` set m \<Longrightarrow> mset (bt_insert k v m) = add_mset (k, v) (mset m)"
  by (induction m) auto

lemma bt_remove_mset: "bt_ok m \<Longrightarrow> bt_get m k = Some v \<Longrightarrow> mset m = add_mset (k, v) (mset (bt_remove k m))"
proof (induction m)
  case (Cons e m)
  show ?case
  proof (cases "fst e = k")
    case True
    with Cons.prems have "k \<notin> fst ` set m" by (auto simp: bt_ok_def)
    then have "bt_remove k m = m" by (auto simp: bt_remove_def filter_id_conv)
    with True Cons.prems show ?thesis by (cases e) (simp add: bt_remove_def)
  next
    case False
    with Cons show ?thesis by (simp add: bt_ok_def bt_remove_def)
  qed
qed simp

definition table_keys :: "handle_table \<Rightarrow> string list multiset" where
  "table_keys t = mset (map parse_path (table_paths t))"

lemma table_keys_mset: "table_keys t = image_mset (\<lambda>(_, e). parse_path (he_path e)) (mset (ht_entries t))"
  by (simp add: table_keys_def table_paths_def case_prod_unfold o_def)

lemma held_sum: "held s = sum_list (map table_keys (os_tables s))"
proof -
  have "mset (map parse_path (concat (map table_paths ts))) = sum_list (map table_keys ts)" for ts
    by (induction ts) (simp_all add: table_keys_def)
  then show ?thesis by (simp add: held_def)
qed

lemma held_update:
  assumes "i < length (os_tables s)"
  shows "held s = table_keys (os_tables s ! i) + held (s\<lparr>os_tables := vec_remove i (os_tables s)\<rparr>)"
    and "held (s\<lparr>os_tables := (os_tables s)[i := t]\<rparr>) =
      table_keys t + held (s\<lparr>os_tables := vec_remove i (os_tables s)\<rparr>)"
proof -
  have "os_tables s = take i (os_tables s) @ (os_tables s ! i) # drop (Suc i) (os_tables s)"
    using assms by (rule id_take_nth_drop)
  then have "sum_list (map table_keys (os_tables s)) =
      sum_list (map table_keys (take i (os_tables s) @ (os_tables s ! i) # drop (Suc i) (os_tables s)))" by simp
  then show "held s = table_keys (os_tables s ! i) + held (s\<lparr>os_tables := vec_remove i (os_tables s)\<rparr>)"
    by (simp add: held_sum vec_remove_def ac_simps)
  show "held (s\<lparr>os_tables := (os_tables s)[i := t]\<rparr>) =
      table_keys t + held (s\<lparr>os_tables := vec_remove i (os_tables s)\<rparr>)"
    using assms by (simp add: held_sum vec_remove_def upd_conv_take_nth_drop ac_simps)
qed

lemma table_ok_mono: "table_ok n t \<Longrightarrow> table_ok (Suc n) t"
  by (auto simp: table_ok_def)

lemma table_ok_insert:
  assumes "table_ok n t" and "Suc n < 2 ^ 30 - 1"
  shows "table_ok (Suc n) (t\<lparr>ht_next := ht_next t + 4, ht_entries := bt_insert (ht_next t) e (ht_entries t)\<rparr>)"
    and "table_keys (t\<lparr>ht_next := ht_next t + 4, ht_entries := bt_insert (ht_next t) e (ht_entries t)\<rparr>) =
      add_mset (parse_path (he_path e)) (table_keys t)"
proof -
  have "unat (ht_next t) + unat (4 :: u32) < 2 ^ 32" using assms by (simp add: table_ok_def)
  then have n: "unat (ht_next t + 4) = unat (ht_next t) + 4" by (subst unat_add_lem [THEN iffD1]) simp_all
  then have lt: "ht_next t < ht_next t + 4" by (simp add: word_less_nat_alt)
  have "h < ht_next t + 4" if "h \<in> insert (ht_next t) (fst ` set (ht_entries t))" for h
    using that lt assms(1) by (auto simp: table_ok_def intro: less_trans)
  then show "table_ok (Suc n) (t\<lparr>ht_next := ht_next t + 4, ht_entries := bt_insert (ht_next t) e (ht_entries t)\<rparr>)"
    using assms(1) n by (auto simp: table_ok_def bt_ok_insert fst_set_bt_insert)
  have "ht_next t \<notin> fst ` set (ht_entries t)" using assms(1) by (auto simp: table_ok_def)
  then show "table_keys (t\<lparr>ht_next := ht_next t + 4, ht_entries := bt_insert (ht_next t) e (ht_entries t)\<rparr>) =
      add_mset (parse_path (he_path e)) (table_keys t)"
    by (simp add: table_keys_mset bt_insert_fresh)
qed

lemma table_ok_remove:
  assumes "table_ok n t" and "bt_get (ht_entries t) h = Some e"
  shows "table_ok n (t\<lparr>ht_entries := bt_remove h (ht_entries t)\<rparr>)"
    and "table_keys t = add_mset (parse_path (he_path e)) (table_keys (t\<lparr>ht_entries := bt_remove h (ht_entries t)\<rparr>))"
  using assms bt_remove_mset [of "ht_entries t" h e]
  by (auto simp: table_ok_def table_keys_mset bt_ok_remove) (auto simp: bt_remove_def)

text \<open>An operation on table \<open>i\<close>, by what it does to the keys of that table.\<close>

lemma ob_ok_table:
  assumes "ob_ok n s" and i: "i < length (os_tables s)" and "table_ok (Suc n) t'"
    and keys: "H = held (s\<lparr>os_tables := vec_remove i (os_tables s)\<rparr>)"
    and "size (table_keys t') \<le> Suc (size (table_keys (os_tables s ! i)))"
    and "ob.balanced ns' (table_keys t' + H)"
  shows "ob_ok (Suc n) \<lparr>os_ns = ns', os_tables = (os_tables s)[i := t']\<rparr>"
proof -
  have h: "held \<lparr>os_ns = ns', os_tables = (os_tables s)[i := t']\<rparr> = table_keys t' + H"
    using held_update(2) [OF i, of t'] by (simp add: keys held_def)
  have "size (table_keys (os_tables s ! i)) + size H \<le> n"
    using assms(1) held_update(1) [OF i] by (simp add: ob_ok_def keys)
  with assms(5) have "size (table_keys t' + H) \<le> Suc n" by simp
  moreover have "\<forall>t \<in> set ((os_tables s)[i := t']). table_ok (Suc n) t"
    using assms(1,3) table_ok_mono set_update_subset_insert [of "os_tables s" i t'] by (auto simp: ob_ok_def)
  ultimately show ?thesis using h assms(6) by (simp add: ob_ok_def)
qed

lemma ob_ok_open:
  assumes ok: "ob_ok n s" and i: "i < length (os_tables s)" and n: "Suc n < 2 ^ 30 - 1"
    and t: "t = os_tables s ! i"
  shows "ob_ok (Suc n) \<lparr>os_ns = snd (obref_inc (he_path e) (os_ns s)),
    os_tables = (os_tables s)[i := t\<lparr>ht_next := ht_next t + 4, ht_entries := bt_insert (ht_next t) e (ht_entries t)\<rparr>]\<rparr>"
proof -
  define H where "H = held (s\<lparr>os_tables := vec_remove i (os_tables s)\<rparr>)"
  have tok: "table_ok n t" using ok i t by (simp add: ob_ok_def)
  have "held s = table_keys t + H" using held_update(1) [OF i] by (simp add: H_def t)
  moreover have "ob.balanced (os_ns s) (held s)" "size (held s) \<le> n" using ok by (simp_all add: ob_ok_def)
  ultimately have "ob.balanced (snd (obref_inc (he_path e) (os_ns s))) (add_mset (parse_path (he_path e)) (table_keys t + H))"
    using n by (intro ob.balanced_inc) simp_all
  then show ?thesis
    using table_ok_insert [OF tok n, of e] t by (intro ob_ok_table [OF ok i _ H_def]) simp_all
qed

lemma ob_ok_close:
  assumes ok: "ob_ok n s" and i: "i < length (os_tables s)" and t: "t = os_tables s ! i"
    and e: "bt_get (ht_entries t) h = Some e"
  shows "ob_ok (Suc n) \<lparr>os_ns = snd (obref_dec (he_path e) (os_ns s)),
    os_tables = (os_tables s)[i := t\<lparr>ht_entries := bt_remove h (ht_entries t)\<rparr>]\<rparr>"
proof -
  define H where "H = held (s\<lparr>os_tables := vec_remove i (os_tables s)\<rparr>)"
  define t' where "t' = t\<lparr>ht_entries := bt_remove h (ht_entries t)\<rparr>"
  have tok: "table_ok n t" using ok i t by (simp add: ob_ok_def)
  note rem = table_ok_remove [OF tok e, folded t'_def]
  have "held s = table_keys t + H" using held_update(1) [OF i] by (simp add: H_def t)
  with rem ok have "ob.balanced (os_ns s) (add_mset (parse_path (he_path e)) (table_keys t' + H))"
    by (simp add: ob_ok_def)
  then have "ob.balanced (snd (obref_dec (he_path e) (os_ns s))) (table_keys t' + H)" by (rule ob.balanced_dec)
  then have "ob_ok (Suc n) \<lparr>os_ns = snd (obref_dec (he_path e) (os_ns s)), os_tables = (os_tables s)[i := t']\<rparr>"
    using rem t by (intro ob_ok_table [OF ok i _ H_def]) (simp_all add: table_ok_mono)
  then show ?thesis by (simp add: t'_def)
qed

lemma ob_ok_same: "ob_ok n s \<Longrightarrow> ob_ok (Suc n) s"
  using table_ok_mono by (auto simp: ob_ok_def)

lemma ob_ok_exit:
  assumes ok: "ob_ok n s" and i: "i < length (os_tables s)"
  shows "ob_ok (Suc n) \<lparr>os_ns = ht_drop (os_tables s ! i) (os_ns s), os_tables = vec_remove i (os_tables s)\<rparr>"
proof -
  define H where "H = held (s\<lparr>os_tables := vec_remove i (os_tables s)\<rparr>)"
  define t where "t = os_tables s ! i"
  have "fold (\<lambda>(_, e) ns. snd (obref_dec (he_path e) ns)) es ns =
      fold (\<lambda>p ns. snd (obref_dec p ns)) (map (\<lambda>(_, e). he_path e) es) ns" for es :: "(u32 \<times> handle_entry) list" and ns
    by (induction es arbitrary: ns) auto
  then have drop: "ht_drop t (os_ns s) = fold (\<lambda>p ns. snd (obref_dec p ns)) (table_paths t) (os_ns s)"
    by (simp add: ht_drop_def table_paths_def)
  have keys: "held s = H + mset (map parse_path (table_paths t))"
    using held_update(1) [OF i] by (simp add: H_def t_def table_keys_def)
  with ok have "ob.balanced (ht_drop t (os_ns s)) H"
    unfolding drop by (intro ob.balanced_dec_all) (simp add: ob_ok_def)
  moreover have "held \<lparr>os_ns = ht_drop t (os_ns s), os_tables = vec_remove i (os_tables s)\<rparr> = H"
    by (simp add: H_def held_def)
  moreover have "size H \<le> n" using ok keys by (simp add: ob_ok_def)
  moreover have "set (vec_remove i (os_tables s)) \<subseteq> set (os_tables s)"
    by (auto simp: vec_remove_def dest: in_set_takeD in_set_dropD)
  ultimately show ?thesis using ok table_ok_mono by (auto simp: ob_ok_def t_def)
qed

text \<open>A change of the name space that leaves every object alone, removes it, or adds one no handle names.\<close>

lemma ob_ok_namespace:
  assumes ok: "ob_ok n s"
    and "\<And>ps h. object_at ns' ps = Some h \<Longrightarrow> object_at (os_ns s) ps = Some h \<or> oh_ref_count h = 1 \<and> ps \<notin># held s"
  shows "ob_ok (Suc n) (s\<lparr>os_ns := ns'\<rparr>)"
proof -
  have "unat c = Suc (count (held s) k)" if c: "ref_counts ns' k = Some c" for k c
  proof -
    obtain h where "object_at ns' k = Some h" "c = oh_ref_count h"
      using c by (cases "object_at ns' k") (auto simp: ref_counts_def)
    with assms(2) ok show ?thesis
      by (fastforce simp: ob_ok_def ob.balanced_def ref_counts_def not_in_iff)
  qed
  then have "ob.balanced ns' (held s)" by (simp add: ob.balanced_def)
  moreover have "held (s\<lparr>os_ns := ns'\<rparr>) = held s" by (simp add: held_def)
  ultimately show ?thesis using ok table_ok_mono by (auto simp: ob_ok_def)
qed

lemma headers_remove:
  "headers (snd (remove_parts ps cur)) qs = headers cur qs \<or> headers (snd (remove_parts ps cur)) qs = None"
proof (induction ps cur arbitrary: qs rule: remove_parts.induct)
  case (1 cur)
  then show ?case by simp
next
  case (2 name cur)
  then show ?case by (cases qs) (auto simp: headers_Cons bt_get_remove)
next
  case (3 part p ps cur)
  show ?case
  proof (cases "\<exists>sub. bt_get cur part = Some (Directory sub)")
    case False
    then show ?thesis by (auto split: option.splits ns_entry.splits)
  next
    case True
    then obtain sub where sub: "bt_get cur part = Some (Directory sub)" ..
    show ?thesis
    proof (cases qs)
      case (Cons q qs')
      with sub 3 [OF sub refl, of qs'] show ?thesis
        by (auto simp: split_def Let_def headers_insert_dir headers_Cons [of cur])
    qed simp
  qed
qed

lemma insert_at_objects:
  assumes "\<not> has_object path ns" and "object_at (snd (insert_at path ty sd target ns)) ps = Some h"
  shows "object_at ns ps = Some h \<or> oh_ref_count h = 1 \<and> ps = parse_path path"
proof (cases ns)
  case None
  with assms show ?thesis by (simp add: insert_at_def)
next
  case (Some root)
  obtain r root' where ins: "insert_inner path ty sd target root = (r, root')" by fastforce
  have "walk_parts (parse_path path) root = None"
    using assms(1) Some by (simp add: has_object_def lookup_at_def walk_namespace_def)
  from headers_insert [OF this ins [unfolded insert_inner_def]] ins assms(2) Some show ?thesis
    by (auto simp: insert_at_def object_at_def new_header_def split: if_splits)
qed

lemma remove_unreferenced_objects:
  "object_at (snd (remove_object_if_unreferenced path ns)) ps = Some h \<Longrightarrow> object_at ns ps = Some h"
proof (cases ns)
  case (Some root)
  obtain r root' where rem: "remove_unreferenced_parts (parse_path path) root = (r, root')" by fastforce
  from headers_remove_unreferenced [OF this]
  show "object_at (snd (remove_object_if_unreferenced path ns)) ps = Some h \<Longrightarrow> object_at ns ps = Some h"
    using Some rem by (auto simp: remove_object_if_unreferenced_def object_at_def split: if_splits)
qed (simp add: remove_object_if_unreferenced_def)

lemma remove_objects:
  "object_at (snd (remove_object path ns)) ps = Some h \<Longrightarrow> object_at ns ps = Some h"
  using headers_remove [of "parse_path path" "the ns" ps]
  by (cases ns) (auto simp: remove_object_def object_at_def split_def Let_def)

lemma ob_sys_eta: "\<lparr>os_ns = os_ns s, os_tables = os_tables s\<rparr> = (s :: ob_sys)"
  by (cases s) simp

lemma ob_step_ok:
  assumes "ob_ok n s" and "ob_op_ok opn s" and "Suc n < 2 ^ 30 - 1"
  shows "ob_ok (Suc n) (ob_step opn s)"
proof (cases opn)
  case Spawn
  have "table_ok (Suc n) ht_new" by (simp add: table_ok_def ht_new_def bt_ok_def)
  with Spawn ob_ok_same [OF assms(1)] show ?thesis
    by (auto simp: ob_ok_def held_def table_paths_def ht_new_def)
next
  case (Exit i)
  with assms show ?thesis by (simp add: ob_ok_exit)
next
  case (Open i e)
  with ob_ok_open [OF assms(1) _ assms(3) refl] assms(2) show ?thesis by (simp add: allocate_def Let_def)
next
  case (Dup i h acc)
  show ?thesis
  proof (cases "bt_get (ht_entries (os_tables s ! i)) h")
    case None
    with Dup assms ob_ok_same [OF assms(1)] show ?thesis by (simp add: duplicate_def ob_sys_eta)
  next
    case (Some e)
    with ob_ok_open [OF assms(1) _ assms(3) refl, of i
        "\<lparr>he_path = he_path e, he_type = he_type e, he_access = acc, he_inheritable = he_inheritable e\<rparr>"] Dup assms(2) show ?thesis
      by (simp add: duplicate_def Let_def)
  qed
next
  case (Close i h)
  show ?thesis
  proof (cases "bt_get (ht_entries (os_tables s ! i)) h")
    case None
    with Close assms ob_ok_same [OF assms(1)] show ?thesis by (simp add: ht_close_def ob_sys_eta)
  next
    case (Some e)
    with ob_ok_close [OF assms(1) _ refl, of i h e] Close assms(2) show ?thesis by (simp add: ht_close_def)
  qed
next
  case (Insert path ty sd target)
  with assms show ?thesis by (auto intro!: ob_ok_namespace dest: insert_at_objects)
next
  case (Remove path)
  with assms remove_unreferenced_objects show ?thesis by (auto intro!: ob_ok_namespace)
next
  case (Unlink path)
  with assms remove_objects show ?thesis by (auto intro!: ob_ok_namespace)
qed

lemma ob_run_ok:
  "ob_ok n s \<Longrightarrow> ob_run ops s = Some s' \<Longrightarrow> n + length ops < 2 ^ 30 - 1 \<Longrightarrow> ob_ok (n + length ops) s'"
proof (induction ops arbitrary: n s)
  case (Cons opn ops)
  then have "ob_ok (Suc n) (ob_step opn s)" by (intro ob_step_ok) (auto split: if_splits)
  with Cons.IH [of "Suc n" "ob_step opn s"] Cons.prems show ?case by (auto split: if_splits)
qed simp

text \<open>The initial name space: every object has the count one.\<close>

definition fresh_counts :: "directory \<Rightarrow> bool" where
  "fresh_counts cur \<longleftrightarrow> (\<forall>ps h. headers cur ps = Some h \<longrightarrow> oh_ref_count h = 1)"

lemma fresh_Nil: "fresh_counts []"
  by (simp add: fresh_counts_def)

lemma fresh_object: "fresh_counts cur \<Longrightarrow> fresh_counts (bt_insert n (Object (new_header m ty sd target)) cur)"
proof -
  assume f: "fresh_counts cur"
  have "oh_ref_count h = 1" if "headers (bt_insert n (Object (new_header m ty sd target)) cur) ps = Some h" for ps h
    using that f by (cases ps) (auto simp: fresh_counts_def headers_Cons [of "bt_insert n _ cur"]
      headers_Cons [of cur, symmetric] bt_get_insert new_header_def split: if_splits)
  then show ?thesis by (simp add: fresh_counts_def)
qed

lemma fresh_directory: "fresh_counts cur \<Longrightarrow> fresh_counts sub \<Longrightarrow> fresh_counts (bt_insert n (Directory sub) cur)"
  unfolding fresh_counts_def by (auto simp: headers_insert_dir split: list.splits if_splits)

lemma fresh_sub: "fresh_counts cur \<Longrightarrow> bt_get cur n = Some (Directory sub) \<Longrightarrow> fresh_counts sub"
  unfolding fresh_counts_def by (metis headers_Cons option.simps(5) ns_entry.simps(5))

lemma fresh_init_in:
  "fresh_counts root \<Longrightarrow> (\<And>d. fresh_counts d \<Longrightarrow> fresh_counts (f d)) \<Longrightarrow> fresh_counts (init_in n f root)"
  by (auto simp: init_in_def split: option.split ns_entry.split intro: fresh_directory fresh_sub)

lemma fresh_fold: "(\<And>x d. fresh_counts d \<Longrightarrow> fresh_counts (g x d)) \<Longrightarrow> fresh_counts d \<Longrightarrow> fresh_counts (fold g xs d)"
  by (induction xs arbitrary: d) auto

lemma ob_ok_start: "ob_ok 0 ob_start"
proof -
  have root: "fresh_counts (the ob_init)"
    unfolding ob_init_def Let_def option.sel insert_headers_def
    by (intro fresh_init_in fresh_fold) (auto intro: fresh_object fresh_directory fresh_Nil)
  have "ob_init = Some (the ob_init)" by (simp add: ob_init_def Let_def)
  with root have "\<forall>ps h. object_at ob_init ps = Some h \<longrightarrow> oh_ref_count h = 1"
    by (metis fresh_counts_def object_at_def option.simps(5))
  then have "ob.balanced ob_init {#}"
    by (auto simp: ob.balanced_def ref_counts_def)
  then show ?thesis by (simp add: ob_ok_def ob_start_def held_def)
qed

text \<open>
  C31: Reference counts and handles agree in every history. After any sequence of fewer than \<open>2^30 - 1\<close>
  process creations and exits, handle openings, duplications and closings, insertions under names where
  there is no object and that no open handle carries, and removals of either kind, starting from the name
  space that \<open>init\<close> builds: the count of every object is one more than the number of open handles that name
  it, over all processes. So the checked removal of an object is refused exactly as long as a handle on it
  is open. The code does not enforce the condition on insertions: an object inserted under a path that a
  handle already carries starts with count one.\<close>

theorem handles_keep_objects:
  assumes "ob_run ops ob_start = Some s" and "length ops < 2 ^ 30 - 1"
  shows "object_at (os_ns s) (parse_path path) = Some h \<Longrightarrow>
      unat (oh_ref_count h) = Suc (count (held s) (parse_path path)) \<and>
      fst (remove_object_if_unreferenced path (os_ns s)) =
        (if parse_path path \<in># held s then RefusedRefcount else Removed)"
proof -
  assume h: "object_at (os_ns s) (parse_path path) = Some h"
  have "ob_ok (length ops) s" using ob_run_ok [OF ob_ok_start assms(1)] assms(2) by simp
  then have n: "unat (oh_ref_count h) = Suc (count (held s) (parse_path path))"
    using h by (simp add: ob_ok_def ob.balanced_def ref_counts_def)
  obtain root where root: "os_ns s = Some root" "headers root (parse_path path) = Some h"
    using h by (cases "os_ns s") (auto simp: object_at_def)
  obtain r root' where rem: "remove_unreferenced_parts (parse_path path) root = (r, root')" by fastforce
  have "1 < oh_ref_count h \<longleftrightarrow> parse_path path \<in># held s"
    using n by (simp add: word_less_nat_alt flip: count_greater_zero_iff)
  with headers_remove_unreferenced [OF rem] root rem n show ?thesis
    by (simp add: remove_object_if_unreferenced_def)
qed

text \<open>
  Inserting under a name that is taken forgets the references on the object there. Whenever an
  insertion succeeds on the path of a handle that was just opened, the count at that path is one again:
  the checked removal succeeds although the handle is still open.\<close>

theorem reinsert_forgets_handles:
  assumes "allocate e t ns = (h, t', ns')" and "insert_object (he_path e) ty ns' = (True, ns'')"
  shows "fst (remove_object_if_unreferenced (he_path e) ns'') = Removed \<and> ht_lookup h t' = Some e"
proof -
  have ins: "headers (snd (insert_parts ps hd cur)) ps = Some (hd (last ps))"
    if "fst (insert_parts ps hd cur)" for ps hd cur
    using that
    by (induction ps hd cur rule: insert_parts.induct)
      (auto simp: Let_def split_def bt_get_insert bt_contains_def split: option.splits ns_entry.splits if_splits)
  obtain root where root: "ns' = Some root" using assms(2) by (cases ns') (auto simp: insert_object_def insert_at_def)
  obtain root' where r': "ns'' = Some root'" "insert_inner (he_path e) ty None None root = (True, root')"
    using assms(2) root by (auto simp: insert_object_def insert_at_def split: prod.splits)
  then have "headers root' (parse_path (he_path e)) = Some (new_header (last (parse_path (he_path e))) ty None None)"
    using ins [of "parse_path (he_path e)" "\<lambda>n. new_header n ty None None" root] by (simp add: insert_inner_def)
  moreover obtain r root2 where "remove_unreferenced_parts (parse_path (he_path e)) root' = (r, root2)" by fastforce
  ultimately have "fst (remove_object_if_unreferenced (he_path e) ns'') = Removed"
    using headers_remove_unreferenced [of "parse_path (he_path e)" root' r root2] r'
    by (simp add: remove_object_if_unreferenced_def new_header_def)
  moreover have "ht_lookup h t' = Some e"
    using assms(1) by (auto simp: allocate_def Let_def ht_lookup_def bt_get_insert)
  ultimately show ?thesis by simp
qed

section \<open>Witnesses\<close>

definition null_path :: string where
  "null_path = backslash # ''Device'' @ backslash # ''Null''"

definition null_entry :: handle_entry where
  "null_entry = \<lparr>he_path = null_path, he_type = TDevice, he_access = 1, he_inheritable = False\<rparr>"

theorem handles_keep_objects_witness:
  "\<exists>s h. ob_run [Spawn, Open 0 null_entry, Dup 0 4 3, Close 0 4] ob_start = Some s \<and>
     object_at (os_ns s) (parse_path null_path) = Some h \<and>
     unat (oh_ref_count h) = Suc (count (held s) (parse_path null_path))"
proof -
  have "(case ob_run [Spawn, Open 0 null_entry, Dup 0 4 3, Close 0 4] ob_start of
      Some s \<Rightarrow> object_at (os_ns s) (parse_path null_path) \<noteq> None | None \<Rightarrow> False)" by code_simp
  then obtain s h where s: "ob_run [Spawn, Open 0 null_entry, Dup 0 4 3, Close 0 4] ob_start = Some s"
    "object_at (os_ns s) (parse_path null_path) = Some h" by (auto split: option.splits)
  moreover have "unat (oh_ref_count h) = Suc (count (held s) (parse_path null_path))"
    using handles_keep_objects [OF s(1) _ s(2)] by simp
  ultimately show ?thesis by blast
qed

theorem reinsert_forgets_handles_witness:
  "\<exists>h t' ns' ns''. allocate null_entry ht_new ob_init = (h, t', ns') \<and> insert_object null_path TDevice ns' = (True, ns'') \<and>
     fst (remove_object_if_unreferenced null_path ns'') = Removed \<and> ht_lookup h t' = Some null_entry"
proof -
  obtain h t' ns' where a: "allocate null_entry ht_new ob_init = (h, t', ns')" by (metis prod_cases3)
  have "fst (insert_object null_path TDevice (snd (snd (allocate null_entry ht_new ob_init))))" by code_simp
  then obtain ns'' where i: "insert_object null_path TDevice ns' = (True, ns'')"
    using a by (cases "insert_object null_path TDevice ns'") auto
  then have "insert_object (he_path null_entry) TDevice ns' = (True, ns'')" by (simp add: null_entry_def)
  from reinsert_forgets_handles [OF a this] a i show ?thesis by (auto simp: null_entry_def)
qed

end
