(* ===== verification/Ke_Timer.thy ===== *)
theory Ke_Timer
  imports Ke_Dispatcher
begin

text \<open>
  Interrupt request levels, deferred and asynchronous procedure calls, and kernel timers
  (\<open>ke/irql.rs\<close>, \<open>ke/dpc.rs\<close>, \<open>ke/apc.rs\<close>, \<open>ke/timer.rs\<close>). The routines of the calls are function
  pointers: they are identified by numbers, and what they do to the state is the parameter \<open>run\<close>.
  The interrupt flag of the CPU is part of the state. A failed assertion is \<open>None\<close>.
\<close>

section \<open>Interrupt request levels\<close>

datatype irql = Passive | Apc_level | Dispatch_level | Device_level | High_level

fun irql_to_u8 :: "irql \<Rightarrow> u8" where
  "irql_to_u8 Passive = 0"
| "irql_to_u8 Apc_level = 1"
| "irql_to_u8 Dispatch_level = 2"
| "irql_to_u8 Device_level = 3"
| "irql_to_u8 High_level = 4"

instantiation irql :: linorder
begin

definition less_eq_irql :: "irql \<Rightarrow> irql \<Rightarrow> bool" where
  "less_eq_irql a b \<longleftrightarrow> irql_to_u8 a \<le> irql_to_u8 b"

definition less_irql :: "irql \<Rightarrow> irql \<Rightarrow> bool" where
  "less_irql a b \<longleftrightarrow> irql_to_u8 a < irql_to_u8 b"

instance
proof
  fix a b c :: irql
  show "(a < b) = (a \<le> b \<and> \<not> b \<le> a)" by (simp add: less_irql_def less_eq_irql_def less_le_not_le)
  show "a \<le> a" by (simp add: less_eq_irql_def)
  show "a \<le> b \<Longrightarrow> b \<le> c \<Longrightarrow> a \<le> c" by (simp add: less_eq_irql_def)
  show "a \<le> b \<Longrightarrow> b \<le> a \<Longrightarrow> a = b" by (cases a; cases b) (simp_all add: less_eq_irql_def word_le_nat_alt)
  show "a \<le> b \<or> b \<le> a" by (simp add: less_eq_irql_def linear)
qed

end

definition irql_from_u8 :: "u8 \<Rightarrow> irql option" where
  "irql_from_u8 v =
     (if v = 0 then Some Passive else if v = 1 then Some Apc_level else if v = 2 then Some Dispatch_level
      else if v = 3 then Some Device_level else if v = 4 then Some High_level else None)"

record cpu =
  c_irql :: u8
  c_interrupts :: bool

definition sync_hw_interrupts :: "irql \<Rightarrow> cpu \<Rightarrow> cpu" where
  "sync_hw_interrupts level c = c\<lparr>c_interrupts := \<not> Dispatch_level \<le> level\<rparr>"

definition irql_init :: "cpu \<Rightarrow> cpu" where
  "irql_init c = sync_hw_interrupts Passive (c\<lparr>c_irql := irql_to_u8 Passive\<rparr>)"

definition current_irql :: "cpu \<Rightarrow> irql" where
  "current_irql c = (case irql_from_u8 (c_irql c) of Some l \<Rightarrow> l | None \<Rightarrow> High_level)"

definition raise_irql :: "irql \<Rightarrow> cpu \<Rightarrow> (irql \<times> cpu) option" where
  "raise_irql new c =
     (let prev = current_irql c
      in if prev \<le> new then Some (prev, sync_hw_interrupts new (c\<lparr>c_irql := irql_to_u8 new\<rparr>)) else None)"

definition lower_irql_raw :: "irql \<Rightarrow> cpu \<Rightarrow> cpu" where
  "lower_irql_raw old c = sync_hw_interrupts old (c\<lparr>c_irql := irql_to_u8 old\<rparr>)"

section \<open>Deferred and asynchronous procedure calls\<close>

datatype dpc_importance = Low | Medium | High

record dpc =
  d_routine :: nat
  d_context :: u64
  d_importance :: dpc_importance
  d_enqueued :: bool

datatype apc_mode = KernelMode | UserMode

record apc =
  a_mode :: apc_mode
  a_routine :: "nat option"
  a_context :: u64
  a_thread :: u64
  a_inserted :: bool

record apc_queue =
  aq_kernel :: "apc list"
  aq_user :: "apc list"

record 'w deferred =
  df_cpu :: cpu
  df_dpcs :: "dpc list"
  df_apcs :: "(u64, apc_queue) btree"
  df_world :: 'w

definition init_dpc :: "nat \<Rightarrow> dpc \<Rightarrow> dpc" where
  "init_dpc routine d = d\<lparr>d_routine := routine, d_importance := Medium, d_context := 0, d_enqueued := False\<rparr>"

definition enqueue_dpc :: "dpc \<Rightarrow> dpc list \<Rightarrow> dpc list" where
  "enqueue_dpc d q =
     (let d' = d\<lparr>d_enqueued := True\<rparr>
      in if d_importance d' = High then d' # q else q @ [d'])"

definition queue_dpc :: "dpc \<Rightarrow> 'w deferred \<Rightarrow> 'w deferred" where
  "queue_dpc d s = s\<lparr>df_dpcs := enqueue_dpc d (df_dpcs s)\<rparr>"

definition queue_dpc_with_context :: "dpc \<Rightarrow> u64 \<Rightarrow> 'w deferred \<Rightarrow> 'w deferred" where
  "queue_dpc_with_context d ctx s = queue_dpc (d\<lparr>d_context := ctx\<rparr>) s"

definition drain_dpc_queue :: "(dpc \<Rightarrow> 'w deferred \<Rightarrow> 'w deferred) \<Rightarrow> 'w deferred \<Rightarrow> 'w deferred option" where
  "drain_dpc_queue run s =
     (let batch = df_dpcs s;
          s1 = s\<lparr>df_dpcs := []\<rparr>
      in if batch = [] then Some s1
         else
           (case raise_irql Dispatch_level (df_cpu s1) of
              None \<Rightarrow> None
            | Some (prev, c) \<Rightarrow>
                (let s2 = fold run batch (s1\<lparr>df_cpu := c\<rparr>)
                 in Some (s2\<lparr>df_cpu := lower_irql_raw prev (df_cpu s2)\<rparr>))))"

definition dpc_queue_length :: "'w deferred \<Rightarrow> nat" where
  "dpc_queue_length s = length (df_dpcs s)"

definition init_apc :: "u64 \<Rightarrow> apc_mode \<Rightarrow> nat \<Rightarrow> apc \<Rightarrow> apc" where
  "init_apc tid mode routine a =
     a\<lparr>a_thread := tid, a_mode := mode, a_routine := Some routine, a_context := 0, a_inserted := False\<rparr>"

definition queue_apc :: "apc \<Rightarrow> 'w deferred \<Rightarrow> 'w deferred" where
  "queue_apc a s =
     (let a' = a\<lparr>a_inserted := True\<rparr>;
          q = (case bt_get (df_apcs s) (a_thread a') of Some q \<Rightarrow> q | None \<Rightarrow> \<lparr>aq_kernel = [], aq_user = []\<rparr>);
          q' = (case a_mode a' of
                  KernelMode \<Rightarrow> q\<lparr>aq_kernel := aq_kernel q @ [a']\<rparr>
                | UserMode \<Rightarrow> q\<lparr>aq_user := aq_user q @ [a']\<rparr>)
      in s\<lparr>df_apcs := bt_insert (a_thread a') q' (df_apcs s)\<rparr>)"

definition run_apcs :: "(apc \<Rightarrow> 'w deferred \<Rightarrow> 'w deferred) \<Rightarrow> apc list \<Rightarrow> 'w deferred \<Rightarrow> 'w deferred" where
  "run_apcs run batch s = fold (\<lambda>a s. if a_routine a \<noteq> None then run a s else s) batch s"

definition deliver_kernel_apcs :: "(apc \<Rightarrow> 'w deferred \<Rightarrow> 'w deferred) \<Rightarrow> u64 \<Rightarrow> 'w deferred \<Rightarrow> 'w deferred" where
  "deliver_kernel_apcs run tid s =
     (case bt_get (df_apcs s) tid of
        Some q \<Rightarrow> run_apcs run (aq_kernel q) (s\<lparr>df_apcs := bt_insert tid (q\<lparr>aq_kernel := []\<rparr>) (df_apcs s)\<rparr>)
      | None \<Rightarrow> s)"

definition deliver_user_apcs :: "(apc \<Rightarrow> 'w deferred \<Rightarrow> 'w deferred) \<Rightarrow> u64 \<Rightarrow> 'w deferred \<Rightarrow> 'w deferred" where
  "deliver_user_apcs run tid s =
     (case bt_get (df_apcs s) tid of
        Some q \<Rightarrow> run_apcs run (aq_user q) (s\<lparr>df_apcs := bt_insert tid (q\<lparr>aq_user := []\<rparr>) (df_apcs s)\<rparr>)
      | None \<Rightarrow> s)"

definition deliver_apcs :: "(apc \<Rightarrow> 'w deferred \<Rightarrow> 'w deferred) \<Rightarrow> u64 \<Rightarrow> 'w deferred \<Rightarrow> 'w deferred" where
  "deliver_apcs run tid s = deliver_user_apcs run tid (deliver_kernel_apcs run tid s)"

definition apc_queue_length :: "u64 \<Rightarrow> apc_mode \<Rightarrow> 'w deferred \<Rightarrow> nat" where
  "apc_queue_length tid mode s =
     (case bt_get (df_apcs s) tid of
        Some q \<Rightarrow> (case mode of KernelMode \<Rightarrow> length (aq_kernel q) | UserMode \<Rightarrow> length (aq_user q))
      | None \<Rightarrow> 0)"

definition lower_irql ::
  "(dpc \<Rightarrow> 'w deferred \<Rightarrow> 'w deferred) \<Rightarrow> (apc \<Rightarrow> 'w deferred \<Rightarrow> 'w deferred) \<Rightarrow> irql \<Rightarrow> 'w deferred \<Rightarrow> 'w deferred option" where
  "lower_irql run_dpc run_apc old s =
     (let s1 = s\<lparr>df_cpu := lower_irql_raw old (df_cpu s)\<rparr>
      in case (if old < Dispatch_level then drain_dpc_queue run_dpc s1 else Some s1) of
           None \<Rightarrow> None
         | Some s2 \<Rightarrow> Some (if old < Apc_level then deliver_apcs run_apc 0 s2 else s2))"

section \<open>Timers\<close>

record timer_entry =
  te_id :: u64
  te_due_time :: u64
  te_period :: u64
  te_signaled :: bool
  te_active :: bool
  te_routine :: "nat option"
  te_context :: u64

record timers =
  tm_next_id :: u64
  tm_registry :: "timer_entry list option"
  tm_disp :: dispatcher
  tm_dpcs :: "dpc list"

definition timer_init :: "timers \<Rightarrow> timers" where
  "timer_init s = s\<lparr>tm_registry := Some []\<rparr>"

definition set_timer :: "ke_timer \<Rightarrow> u64 \<Rightarrow> u64 \<Rightarrow> dpc option \<Rightarrow> timers \<Rightarrow> ke_timer \<times> timers" where
  "set_timer t due_ticks period d s =
     (let i = tm_next_id s;
          t' = t\<lparr>ti_id := i, ti_active := True, ti_header := (ti_header t)\<lparr>h_signal := 0\<rparr>\<rparr>;
          e = \<lparr>te_id = i, te_due_time = due_ticks, te_period = period, te_signaled = False, te_active = True,
               te_routine = map_option d_routine d, te_context = (case d of Some d \<Rightarrow> d_context d | None \<Rightarrow> 0)\<rparr>
      in (t', s\<lparr>tm_next_id := i + 1, tm_registry := map_option (\<lambda>l. l @ [e]) (tm_registry s)\<rparr>))"

definition cancel_timer :: "ke_timer \<Rightarrow> timers \<Rightarrow> bool \<times> ke_timer \<times> timers" where
  "cancel_timer t s =
     (ti_active t, t\<lparr>ti_active := False\<rparr>,
      s\<lparr>tm_registry := map_option (filter (\<lambda>e. te_id e \<noteq> ti_id t)) (tm_registry s)\<rparr>)"

text \<open>The loop of \<open>check_timers\<close>: the entries, and what is to be fired outside the lock.\<close>

fun expire_loop :: "u64 \<Rightarrow> timer_entry list \<Rightarrow> timer_entry list \<times> (u64 \<times> nat option \<times> u64) list" where
  "expire_loop now [] = ([], [])"
| "expire_loop now (e # es) =
     (let (es', fire) = expire_loop now es
      in if te_active e \<and> te_due_time e \<le> now
         then ((if 0 < te_period e then e\<lparr>te_due_time := now + te_period e, te_signaled := False\<rparr>
                else e\<lparr>te_signaled := True, te_active := False\<rparr>) # es',
               (te_id e, te_routine e, te_context e) # fire)
         else (e # es', fire))"

definition signal_timer :: "ke_timer \<Rightarrow> thread list \<Rightarrow> ke_timer \<times> thread list" where
  "signal_timer t ths =
     (let h = (ti_header t)\<lparr>h_signal := 1, h_waits := map satisfy (h_waits (ti_header t))\<rparr>
      in (t\<lparr>ti_header := h\<rparr>, wake_blocked_waiters h ths))"

fun is_timer_with :: "u64 \<Rightarrow> entry \<Rightarrow> bool" where
  "is_timer_with i (Timer t) = (ti_id t = i)"
| "is_timer_with i _ = False"

definition signal_timer_in_registry :: "u64 \<Rightarrow> dispatcher \<Rightarrow> dispatcher" where
  "signal_timer_in_registry i d =
     (case dp_registry d of
        None \<Rightarrow> d
      | Some m \<Rightarrow>
          (case List.find (\<lambda>e. is_timer_with i (snd e)) m of
             Some (k, Timer t) \<Rightarrow>
               (let (t', ths) = signal_timer t (dp_threads d)
                in d\<lparr>dp_registry := Some (upd_first (\<lambda>e. is_timer_with i (snd e)) (\<lambda>e. (fst e, Timer t')) m), dp_threads := ths\<rparr>)
           | _ \<Rightarrow> d))"

definition fire_one :: "u64 \<times> nat option \<times> u64 \<Rightarrow> timers \<Rightarrow> timers" where
  "fire_one f s =
     (case f of (i, routine, ctx) \<Rightarrow>
        (let s1 = s\<lparr>tm_disp := signal_timer_in_registry i (tm_disp s)\<rparr>
         in case routine of
              Some r \<Rightarrow> s1\<lparr>tm_dpcs := enqueue_dpc \<lparr>d_routine = r, d_context = ctx, d_importance = Medium, d_enqueued = False\<rparr> (tm_dpcs s1)\<rparr>
            | None \<Rightarrow> s1))"

definition check_timers :: "u64 \<Rightarrow> timers \<Rightarrow> timers" where
  "check_timers now s =
     (case tm_registry s of
        None \<Rightarrow> s
      | Some l \<Rightarrow> (let (l', fire) = expire_loop now l in fold fire_one fire (s\<lparr>tm_registry := Some l'\<rparr>)))"

definition is_timer_signaled :: "u64 \<Rightarrow> timers \<Rightarrow> bool" where
  "is_timer_signaled i s =
     (case tm_registry s of
        Some l \<Rightarrow> (case List.find (\<lambda>e. te_id e = i) l of Some e \<Rightarrow> te_signaled e | None \<Rightarrow> False)
      | None \<Rightarrow> False)"

definition due :: "u64 \<Rightarrow> timer_entry \<Rightarrow> bool" where
  "due now e \<longleftrightarrow> te_active e \<and> te_due_time e \<le> now"

definition entry_dpcs :: "timer_entry \<Rightarrow> dpc list" where
  "entry_dpcs e =
     (case te_routine e of
        Some r \<Rightarrow> [\<lparr>d_routine = r, d_context = te_context e, d_importance = Medium, d_enqueued = True\<rparr>]
      | None \<Rightarrow> [])"

definition demo_timers :: timers where
  "demo_timers = \<lparr>tm_next_id = 1, tm_registry = Some [], tm_disp = \<lparr>dp_next_id = 1, dp_registry = Some [], dp_threads = []\<rparr>, tm_dpcs = []\<rparr>"

definition demo_dpc :: "nat \<Rightarrow> dpc" where
  "demo_dpc r = \<lparr>d_routine = r, d_context = 0, d_importance = Medium, d_enqueued = False\<rparr>"

section \<open>Deferred calls\<close>

lemma irql_roundtrip: "irql_from_u8 (irql_to_u8 l) = Some l"
  by (cases l) (simp_all add: irql_from_u8_def)

lemma current_lower [simp]: "current_irql (lower_irql_raw l c) = l" "c_interrupts (lower_irql_raw l c) = (l < Dispatch_level)"
  by (simp_all add: lower_irql_raw_def current_irql_def sync_hw_interrupts_def irql_roundtrip not_le)

text \<open>The queue after queuing the calls \<open>ds\<close>: the urgent ones, last first, then the queue, then the others in order.\<close>

lemma enqueue_fold:
  "fold enqueue_dpc ds q =
     rev (map (\<lambda>d. d\<lparr>d_enqueued := True\<rparr>) (filter (\<lambda>d. d_importance d = High) ds)) @ q @
     map (\<lambda>d. d\<lparr>d_enqueued := True\<rparr>) (filter (\<lambda>d. d_importance d \<noteq> High) ds)"
  by (induction ds arbitrary: q) (simp_all add: enqueue_dpc_def)

lemma fold_log:
  assumes "\<And>d s. df_world (run d s) = df_world s @ [(d, current_irql (df_cpu s), c_interrupts (df_cpu s))] \<and> df_cpu (run d s) = df_cpu s"
  shows "df_cpu (fold run ds s) = df_cpu s \<and>
    df_world (fold run ds s) = df_world s @ map (\<lambda>d. (d, current_irql (df_cpu s), c_interrupts (df_cpu s))) ds"
  using assms by (induction ds arbitrary: s) auto

text \<open>
  Lowering the interrupt request level to APC level runs every queued deferred call exactly once,
  the urgent ones before the others (the latest urgent one first), each at dispatch level with
  interrupts disabled, for calls that leave the level as they found it and may queue further calls;
  afterwards the level is the requested one and interrupts are enabled again.
\<close>

theorem lower_irql_runs_dpcs:
  fixes run :: "dpc \<Rightarrow> (dpc \<times> irql \<times> bool) list deferred \<Rightarrow> (dpc \<times> irql \<times> bool) list deferred"
  assumes "\<And>d s. df_world (run d s) = df_world s @ [(d, current_irql (df_cpu s), c_interrupts (df_cpu s))] \<and> df_cpu (run d s) = df_cpu s"
    and "df_dpcs s = []" and "df_world s = []"
  shows "\<exists>s'. lower_irql run run_apc Apc_level (s\<lparr>df_dpcs := fold enqueue_dpc ds (df_dpcs s)\<rparr>) = Some s' \<and>
    df_world s' = map (\<lambda>d. (d\<lparr>d_enqueued := True\<rparr>, Dispatch_level, False))
      (rev (filter (\<lambda>d. d_importance d = High) ds) @ filter (\<lambda>d. d_importance d \<noteq> High) ds) \<and>
    current_irql (df_cpu s') = Apc_level \<and> c_interrupts (df_cpu s')"
proof -
  let ?q = "fold enqueue_dpc ds []"
  let ?s1 = "s\<lparr>df_dpcs := ?q, df_cpu := lower_irql_raw Apc_level (df_cpu s)\<rparr>"
  have ap: "\<not> Apc_level < Apc_level" "Apc_level < Dispatch_level" by (simp_all add: less_irql_def word_less_nat_alt)
  then have lo: "lower_irql run run_apc Apc_level (s\<lparr>df_dpcs := fold enqueue_dpc ds (df_dpcs s)\<rparr>) = drain_dpc_queue run ?s1"
    using assms(2) by (simp add: lower_irql_def Let_def split: option.splits)
  show ?thesis
  proof (cases "?q = []")
    case True
    then have "ds = []" by (cases ds) (auto simp: enqueue_fold enqueue_dpc_def Let_def split: if_splits)
    then show ?thesis using lo assms(3) ap by (simp add: drain_dpc_queue_def Let_def)
  next
    case False
    have le: "Apc_level \<le> Dispatch_level" using ap(2) by (rule less_imp_le)
    define c where "c = sync_hw_interrupts Dispatch_level ((df_cpu ?s1)\<lparr>c_irql := irql_to_u8 Dispatch_level\<rparr>)"
    have c: "current_irql c = Dispatch_level" "\<not> c_interrupts c"
      by (simp_all add: c_def current_irql_def sync_hw_interrupts_def irql_from_u8_def)
    define s2 where "s2 = fold run ?q (?s1\<lparr>df_dpcs := [], df_cpu := c\<rparr>)"
    have "drain_dpc_queue run ?s1 = Some (s2\<lparr>df_cpu := lower_irql_raw Apc_level (df_cpu s2)\<rparr>)"
      using False le by (simp add: drain_dpc_queue_def raise_irql_def Let_def c_def s2_def)
    moreover have "df_world s2 = map (\<lambda>d. (d, Dispatch_level, False)) ?q"
      using fold_log [OF assms(1), of ?q "?s1\<lparr>df_dpcs := [], df_cpu := c\<rparr>"] c assms(3) by (simp add: s2_def)
    ultimately show ?thesis
      using lo ap by (simp add: enqueue_fold rev_map)
  qed
qed

section \<open>Firing timers\<close>

lemma expire_fire: "snd (expire_loop now l) = map (\<lambda>e. (te_id e, te_routine e, te_context e)) (filter (due now) l)"
  by (induction l) (auto simp: due_def split_def Let_def)

lemma expire_not_due:
  "\<forall>e \<in> set l. 0 < te_period e \<longrightarrow> now < now + te_period e \<Longrightarrow> filter (due now) (fst (expire_loop now l)) = []"
  by (induction l) (auto simp: due_def split_def Let_def)

lemma expire_idle: "filter (due now) l = [] \<Longrightarrow> fst (expire_loop now l) = l"
  by (induction l) (auto simp: due_def split_def Let_def split: if_splits)

lemma fire_one_registry: "tm_registry (fold fire_one fs s) = tm_registry s"
  by (induction fs arbitrary: s) (auto simp: fire_one_def split_def Let_def split: option.splits)

lemma fire_one_dpcs:
  "tm_dpcs (fold fire_one (map (\<lambda>e. (te_id e, te_routine e, te_context e)) es) s) = tm_dpcs s @ concat (map entry_dpcs es)"
  by (induction es arbitrary: s) (auto simp: fire_one_def entry_dpcs_def enqueue_dpc_def Let_def split: option.splits)

lemma check_timers_idle:
  "tm_registry s = Some l \<Longrightarrow> filter (due now) l = [] \<Longrightarrow> check_timers now s = s"
  using expire_fire [of now l] expire_idle [of now l] by (simp add: check_timers_def split_def Let_def)

text \<open>
  A timer check fires every active timer that is due, exactly once: the deferred calls of the due
  timers are appended to the queue in registry order, and a second check at the same tick changes
  nothing at all (one-shot timers are disarmed, periodic ones are due later), as long as the next due
  time does not wrap.
\<close>

theorem check_timers_once:
  assumes "tm_registry s = Some l" and "\<forall>e \<in> set l. 0 < te_period e \<longrightarrow> now < now + te_period e"
  shows "tm_dpcs (check_timers now s) = tm_dpcs s @ concat (map entry_dpcs (filter (due now) l)) \<and>
    check_timers now (check_timers now s) = check_timers now s"
proof -
  have c: "check_timers now s =
      fold fire_one (map (\<lambda>e. (te_id e, te_routine e, te_context e)) (filter (due now) l)) (s\<lparr>tm_registry := Some (fst (expire_loop now l))\<rparr>)"
    using assms(1) expire_fire [of now l] by (simp add: check_timers_def split_def Let_def)
  then have "tm_registry (check_timers now s) = Some (fst (expire_loop now l))" by (simp add: fire_one_registry)
  from check_timers_idle [OF this expire_not_due [OF assms(2)]] c show ?thesis by (simp add: fire_one_dpcs)
qed

text \<open>
  Re-arming an active timer leaves its first registry entry behind, and cancelling the timer removes
  only the last one: after arm, re-arm and cancel, a check at the first due time still queues the
  first deferred call.
\<close>

theorem rearmed_timer_not_cancelled:
  assumes "tm_registry s = Some []" and "due1 \<le> now"
    and "set_timer t due1 p1 (Some d1) s = (t1, s1)" and "set_timer t1 due2 p2 d2 s1 = (t2, s2)"
    and "cancel_timer t2 s2 = (b, t3, s3)"
  shows "b \<and> \<not> ti_active t3 \<and>
    tm_dpcs (check_timers now s3) = tm_dpcs s @ [\<lparr>d_routine = d_routine d1, d_context = d_context d1, d_importance = Medium, d_enqueued = True\<rparr>]"
proof -
  define e where "e = \<lparr>te_id = tm_next_id s, te_due_time = due1, te_period = p1, te_signaled = False, te_active = True,
      te_routine = Some (d_routine d1), te_context = d_context d1\<rparr>"
  have ne: "tm_next_id s \<noteq> tm_next_id s + 1" by simp
  have s3: "tm_registry s3 = Some [e]" "tm_dpcs s3 = tm_dpcs s" "b" "\<not> ti_active t3"
    using assms ne by (auto simp: set_timer_def cancel_timer_def Let_def e_def)
  have "due now e" "entry_dpcs e = [\<lparr>d_routine = d_routine d1, d_context = d_context d1, d_importance = Medium, d_enqueued = True\<rparr>]"
    using assms(2) by (simp_all add: due_def e_def entry_dpcs_def)
  then have "tm_dpcs (check_timers now s3) = tm_dpcs s3 @ [\<lparr>d_routine = d_routine d1, d_context = d_context d1, d_importance = Medium, d_enqueued = True\<rparr>]"
    using s3(1) expire_fire [of now "[e]"] fire_one_dpcs [of "[e]"]
    by (simp add: check_timers_def split_def Let_def)
  then show ?thesis using s3 by simp
qed

theorem lower_irql_runs_dpcs_witness:
  "\<exists>s'. lower_irql (\<lambda>d s. s\<lparr>df_world := df_world s @ [(d, current_irql (df_cpu s), c_interrupts (df_cpu s))]\<rparr>) (\<lambda>_. id) Apc_level
      \<lparr>df_cpu = \<lparr>c_irql = 2, c_interrupts = False\<rparr>, df_dpcs = fold enqueue_dpc [demo_dpc 1, (demo_dpc 2)\<lparr>d_importance := High\<rparr>] [],
       df_apcs = [], df_world = []\<rparr> = Some s' \<and>
     map (\<lambda>x. d_routine (fst x)) (df_world s') = [2, 1]"
  using lower_irql_runs_dpcs [of "\<lambda>d s. s\<lparr>df_world := df_world s @ [(d, current_irql (df_cpu s), c_interrupts (df_cpu s))]\<rparr>"
      "\<lparr>df_cpu = \<lparr>c_irql = 2, c_interrupts = False\<rparr>, df_dpcs = [], df_apcs = [], df_world = []\<rparr>" "\<lambda>_. id"
      "[demo_dpc 1, (demo_dpc 2)\<lparr>d_importance := High\<rparr>]"]
  by (auto simp: demo_dpc_def)

theorem check_timers_once_witness:
  "map d_routine (tm_dpcs (check_timers 100 (snd (set_timer timer_new 50 10 (Some (demo_dpc 7)) demo_timers)))) = [7] \<and>
   map d_routine (tm_dpcs (check_timers 100 (check_timers 100 (snd (set_timer timer_new 50 10 (Some (demo_dpc 7)) demo_timers))))) = [7]"
proof -
  let ?e = "\<lparr>te_id = 1, te_due_time = 50, te_period = 10, te_signaled = False, te_active = True, te_routine = Some 7, te_context = 0\<rparr>"
  let ?s = "snd (set_timer timer_new 50 10 (Some (demo_dpc 7)) demo_timers)"
  have reg: "tm_registry ?s = Some [?e]" "tm_dpcs ?s = []" by (simp_all add: set_timer_def demo_timers_def demo_dpc_def Let_def)
  from check_timers_once [OF reg(1), of 100] reg(2) show ?thesis
    by (simp add: due_def entry_dpcs_def word_less_nat_alt word_le_nat_alt)
qed

theorem rearmed_timer_not_cancelled_witness:
  "\<exists>t1 s1 t2 s2 b t3 s3. set_timer timer_new 50 0 (Some (demo_dpc 7)) demo_timers = (t1, s1) \<and>
     set_timer t1 90 0 None s1 = (t2, s2) \<and> cancel_timer t2 s2 = (b, t3, s3) \<and>
     map d_routine (tm_dpcs (check_timers 60 s3)) = [7]"
proof -
  obtain t1 s1 where a: "set_timer timer_new 50 0 (Some (demo_dpc 7)) demo_timers = (t1, s1)" by fastforce
  obtain t2 s2 where b: "set_timer t1 90 0 None s1 = (t2, s2)" by fastforce
  obtain b t3 s3 where c: "cancel_timer t2 s2 = (b, t3, s3)" by (metis prod_cases3)
  have "tm_registry demo_timers = Some []" "(50::u64) \<le> 60" "tm_dpcs demo_timers = []"
    by (simp_all add: demo_timers_def word_le_nat_alt)
  from rearmed_timer_not_cancelled [OF this(1,2) a b c] this(3) a b c show ?thesis
    by (intro exI [of _ t1] exI [of _ s1] exI [of _ t2] exI [of _ s2] exI [of _ b] exI [of _ t3] exI [of _ s3]) (simp add: demo_dpc_def)
qed

end
