(* ===== verification/Ex_Locks.thy ===== *)
theory Ex_Locks
  imports Ke_Timer "HOL-Library.Multiset"
begin

text \<open>
  The executive's locks: push locks (\<open>ex/push_lock.rs\<close>), reader-writer resources (\<open>ex/resource.rs\<close>)
  and fast mutexes (\<open>ex/fast_mutex.rs\<close>). The waiting loops of the source sleep for one tick between
  two attempts; what other threads do to the lock meanwhile is the argument \<open>gap\<close>, and a loop takes the
  number of rounds it may make, with no result when they are used up. The contract of the two
  reader-writer locks is the locale \<open>rw_lock\<close>, a relation between the state of a lock and the threads
  that hold it; exclusion is proved once, for every history, and the locale is interpreted on both.
\<close>

section \<open>Push locks\<close>

datatype push_lock = Free | SharedRead u32 | Exclusive

definition push_lock_new :: push_lock where
  "push_lock_new = Free"

text \<open>One attempt of each acquiring loop.\<close>

fun push_shared_once :: "push_lock \<Rightarrow> push_lock option" where
  "push_shared_once Free = Some (SharedRead 1)"
| "push_shared_once (SharedRead n) = Some (SharedRead (n + 1))"
| "push_shared_once Exclusive = None"

fun acquire_push_lock_shared :: "nat \<Rightarrow> (nat \<Rightarrow> push_lock \<Rightarrow> push_lock) \<Rightarrow> push_lock \<Rightarrow> push_lock option" where
  "acquire_push_lock_shared 0 gap l = None"
| "acquire_push_lock_shared (Suc n) gap l =
     (case push_shared_once l of Some l' \<Rightarrow> Some l' | None \<Rightarrow> acquire_push_lock_shared n gap (gap n l))"

fun push_exclusive_once :: "push_lock \<Rightarrow> push_lock option" where
  "push_exclusive_once Free = Some Exclusive"
| "push_exclusive_once _ = None"

fun acquire_push_lock_exclusive :: "nat \<Rightarrow> (nat \<Rightarrow> push_lock \<Rightarrow> push_lock) \<Rightarrow> push_lock \<Rightarrow> push_lock option" where
  "acquire_push_lock_exclusive 0 gap l = None"
| "acquire_push_lock_exclusive (Suc n) gap l =
     (case push_exclusive_once l of Some l' \<Rightarrow> Some l' | None \<Rightarrow> acquire_push_lock_exclusive n gap (gap n l))"

fun release_push_lock_shared :: "push_lock \<Rightarrow> push_lock" where
  "release_push_lock_shared (SharedRead n) =
     (if 1 < n then SharedRead (n - 1) else if n = 1 then Free else SharedRead n)"
| "release_push_lock_shared l = l"

definition release_push_lock_exclusive :: "push_lock \<Rightarrow> push_lock" where
  "release_push_lock_exclusive l = (if l = Exclusive then Free else l)"

section \<open>Resources\<close>

record eresource =
  er_id :: u64
  er_shared_count :: u32
  er_exclusive_owner :: "u64 option"
  er_exclusive_recursion :: u32
  er_exclusive_waiters :: u32
  er_shared_waiters :: u32
  er_contention_count :: u64

definition eresource_new :: "u64 \<Rightarrow> eresource \<times> u64" where
  "eresource_new next_id =
     (\<lparr>er_id = next_id, er_shared_count = 0, er_exclusive_owner = None, er_exclusive_recursion = 0,
       er_exclusive_waiters = 0, er_shared_waiters = 0, er_contention_count = 0\<rparr>, next_id + 1)"

definition shared_once :: "u64 \<Rightarrow> eresource \<Rightarrow> eresource option" where
  "shared_once tid r =
     (if (case er_exclusive_owner r of None \<Rightarrow> True | Some own \<Rightarrow> own = tid)
      then Some (r\<lparr>er_shared_count := er_shared_count r + 1\<rparr>) else None)"

fun acquire_shared ::
  "nat \<Rightarrow> (nat \<Rightarrow> eresource \<Rightarrow> eresource) \<Rightarrow> u64 \<Rightarrow> bool \<Rightarrow> eresource \<Rightarrow> (bool \<times> eresource) option" where
  "acquire_shared 0 gap tid wait r = None"
| "acquire_shared (Suc n) gap tid wait r =
     (case shared_once tid r of
        Some r' \<Rightarrow> Some (True, r')
      | None \<Rightarrow>
          if \<not> wait then Some (False, r)
          else
            (let r1 = gap n (r\<lparr>er_shared_waiters := er_shared_waiters r + 1, er_contention_count := er_contention_count r + 1\<rparr>)
             in acquire_shared n gap tid wait (r1\<lparr>er_shared_waiters := er_shared_waiters r1 - 1\<rparr>)))"

definition exclusive_once :: "u64 \<Rightarrow> eresource \<Rightarrow> eresource option" where
  "exclusive_once tid r =
     (if er_exclusive_owner r = Some tid then Some (r\<lparr>er_exclusive_recursion := er_exclusive_recursion r + 1\<rparr>)
      else if er_shared_count r = 0 \<and> er_exclusive_owner r = None
      then Some (r\<lparr>er_exclusive_owner := Some tid, er_exclusive_recursion := 1\<rparr>)
      else None)"

fun acquire_exclusive ::
  "nat \<Rightarrow> (nat \<Rightarrow> eresource \<Rightarrow> eresource) \<Rightarrow> u64 \<Rightarrow> bool \<Rightarrow> eresource \<Rightarrow> (bool \<times> eresource) option" where
  "acquire_exclusive 0 gap tid wait r = None"
| "acquire_exclusive (Suc n) gap tid wait r =
     (case exclusive_once tid r of
        Some r' \<Rightarrow> Some (True, r')
      | None \<Rightarrow>
          if \<not> wait then Some (False, r)
          else
            (let r1 = gap n (r\<lparr>er_exclusive_waiters := er_exclusive_waiters r + 1, er_contention_count := er_contention_count r + 1\<rparr>)
             in acquire_exclusive n gap tid wait (r1\<lparr>er_exclusive_waiters := er_exclusive_waiters r1 - 1\<rparr>)))"

definition release_shared :: "eresource \<Rightarrow> eresource" where
  "release_shared r = (if 0 < er_shared_count r then r\<lparr>er_shared_count := er_shared_count r - 1\<rparr> else r)"

definition release_exclusive :: "eresource \<Rightarrow> eresource" where
  "release_exclusive r =
     (if 0 < er_exclusive_recursion r then
        (let r1 = r\<lparr>er_exclusive_recursion := er_exclusive_recursion r - 1\<rparr>
         in if er_exclusive_recursion r1 = 0 then r1\<lparr>er_exclusive_owner := None\<rparr> else r1)
      else r)"

definition is_acquired_shared :: "eresource \<Rightarrow> bool" where
  "is_acquired_shared r \<longleftrightarrow> 0 < er_shared_count r"

definition is_acquired_exclusive :: "eresource \<Rightarrow> bool" where
  "is_acquired_exclusive r \<longleftrightarrow> er_exclusive_owner r \<noteq> None"

section \<open>Fast mutexes\<close>

record fast_mutex =
  fm_id :: u64
  fm_locked :: bool
  fm_owner :: "u64 option"
  fm_contention_count :: u64
  fm_old_irql :: u8

definition fast_mutex_new :: "u64 \<Rightarrow> fast_mutex \<times> u64" where
  "fast_mutex_new next_id =
     (\<lparr>fm_id = next_id, fm_locked = False, fm_owner = None, fm_contention_count = 0, fm_old_irql = irql_to_u8 Passive\<rparr>,
      next_id + 1)"

text \<open>
  The interrupt level is part of the processor state \<open>'w deferred\<close>; raising it fails, with a panic,
  when the level is above the one asked for, and \<open>lower\<close> is the lowering that runs what was deferred.
\<close>

definition raise_to_apc :: "'w deferred \<Rightarrow> (irql \<times> 'w deferred) option" where
  "raise_to_apc s = map_option (\<lambda>(old, c). (old, s\<lparr>df_cpu := c\<rparr>)) (raise_irql Apc_level (df_cpu s))"

fun fast_mutex_loop ::
  "nat \<Rightarrow> (irql \<Rightarrow> 'w deferred \<Rightarrow> 'w deferred option) \<Rightarrow> (nat \<Rightarrow> fast_mutex \<times> 'w deferred \<Rightarrow> fast_mutex \<times> 'w deferred) \<Rightarrow>
     irql \<Rightarrow> fast_mutex \<Rightarrow> 'w deferred \<Rightarrow> (fast_mutex \<times> 'w deferred) option" where
  "fast_mutex_loop 0 lower gap old m s = None"
| "fast_mutex_loop (Suc n) lower gap old m s =
     (if \<not> fm_locked m then Some (m, s)
      else
        (case lower old s of
           None \<Rightarrow> None
         | Some s1 \<Rightarrow>
             (let (m2, s2) = gap n (m\<lparr>fm_contention_count := fm_contention_count m + 1\<rparr>, s1)
              in case raise_to_apc s2 of
                   None \<Rightarrow> None
                 | Some (_, s3) \<Rightarrow> fast_mutex_loop n lower gap old m2 s3)))"

definition acquire_fast_mutex ::
  "nat \<Rightarrow> (irql \<Rightarrow> 'w deferred \<Rightarrow> 'w deferred option) \<Rightarrow> (nat \<Rightarrow> fast_mutex \<times> 'w deferred \<Rightarrow> fast_mutex \<times> 'w deferred) \<Rightarrow>
     u64 \<Rightarrow> fast_mutex \<Rightarrow> 'w deferred \<Rightarrow> (fast_mutex \<times> 'w deferred) option" where
  "acquire_fast_mutex rounds lower gap tid m s =
     (case raise_to_apc s of
        None \<Rightarrow> None
      | Some (old, s1) \<Rightarrow>
          map_option (\<lambda>(m2, s2). (m2\<lparr>fm_locked := True, fm_owner := Some tid\<rparr>, s2))
            (fast_mutex_loop rounds lower gap old (m\<lparr>fm_old_irql := irql_to_u8 old\<rparr>) s1))"

definition release_fast_mutex ::
  "(irql \<Rightarrow> 'w deferred \<Rightarrow> 'w deferred option) \<Rightarrow> fast_mutex \<Rightarrow> 'w deferred \<Rightarrow> (fast_mutex \<times> 'w deferred) option" where
  "release_fast_mutex lower m s =
     (let old = (case irql_from_u8 (fm_old_irql m) of Some l \<Rightarrow> l | None \<Rightarrow> Passive)
      in map_option (\<lambda>s'. (m\<lparr>fm_locked := False, fm_owner := None\<rparr>, s')) (lower old s))"

definition try_acquire_fast_mutex ::
  "(irql \<Rightarrow> 'w deferred \<Rightarrow> 'w deferred option) \<Rightarrow> (fast_mutex \<Rightarrow> fast_mutex) \<Rightarrow> u64 \<Rightarrow> fast_mutex \<Rightarrow> 'w deferred \<Rightarrow>
     (bool \<times> fast_mutex \<times> 'w deferred) option" where
  "try_acquire_fast_mutex lower gap tid m s =
     (if fm_locked m then Some (False, m, s)
      else
        (case raise_to_apc s of
           None \<Rightarrow> None
         | Some (old, s1) \<Rightarrow>
             (let m1 = (gap m)\<lparr>fm_old_irql := irql_to_u8 old\<rparr>
              in if fm_locked m1 then map_option (\<lambda>s2. (False, m1, s2)) (lower old s1)
                 else Some (True, m1\<lparr>fm_locked := True, fm_owner := Some tid\<rparr>, s1))))"

section \<open>Holders of a reader-writer lock\<close>

datatype rw_op = AcqShared u64 | AcqExclusive u64 | RelShared u64 | RelExclusive u64

text \<open>
  A history of attempts and releases by any threads, with the threads that hold the lock, shared and
  exclusively; a thread releases only what it holds.
\<close>

fun rw_step ::
  "(u64 \<Rightarrow> 'l \<Rightarrow> 'l option) \<Rightarrow> (u64 \<Rightarrow> 'l \<Rightarrow> 'l option) \<Rightarrow> ('l \<Rightarrow> 'l) \<Rightarrow> ('l \<Rightarrow> 'l) \<Rightarrow> rw_op \<Rightarrow>
     'l \<times> u64 multiset \<times> u64 multiset \<Rightarrow> 'l \<times> u64 multiset \<times> u64 multiset" where
  "rw_step as ax rs rx (AcqShared t) (l, S, X) = (case as t l of Some l' \<Rightarrow> (l', add_mset t S, X) | None \<Rightarrow> (l, S, X))"
| "rw_step as ax rs rx (AcqExclusive t) (l, S, X) = (case ax t l of Some l' \<Rightarrow> (l', S, add_mset t X) | None \<Rightarrow> (l, S, X))"
| "rw_step as ax rs rx (RelShared t) (l, S, X) = (if t \<in># S then (rs l, S - {#t#}, X) else (l, S, X))"
| "rw_step as ax rs rx (RelExclusive t) (l, S, X) = (if t \<in># X then (rx l, S, X - {#t#}) else (l, S, X))"

definition rw_run ::
  "(u64 \<Rightarrow> 'l \<Rightarrow> 'l option) \<Rightarrow> (u64 \<Rightarrow> 'l \<Rightarrow> 'l option) \<Rightarrow> ('l \<Rightarrow> 'l) \<Rightarrow> ('l \<Rightarrow> 'l) \<Rightarrow> rw_op list \<Rightarrow>
     'l \<Rightarrow> 'l \<times> u64 multiset \<times> u64 multiset" where
  "rw_run as ax rs rx ops l = fold (rw_step as ax rs rx) ops (l, {#}, {#})"

text \<open>What every reader-writer lock promises about its holders.\<close>

locale rw_lock =
  fixes holds_rel :: "'l \<Rightarrow> u64 multiset \<Rightarrow> u64 multiset \<Rightarrow> bool"
    and try_s :: "u64 \<Rightarrow> 'l \<Rightarrow> 'l option"
    and try_x :: "u64 \<Rightarrow> 'l \<Rightarrow> 'l option"
    and rel_s :: "'l \<Rightarrow> 'l"
    and rel_x :: "'l \<Rightarrow> 'l"
  assumes excludes: "holds_rel l S X \<Longrightarrow> t \<in># X \<Longrightarrow> u \<in># S + X \<Longrightarrow> u = t"
    and shares: "holds_rel l S X \<Longrightarrow> size S + 1 < 2 ^ 32 \<Longrightarrow> try_s t l = Some l' \<Longrightarrow> holds_rel l' (add_mset t S) X"
    and excl: "holds_rel l S X \<Longrightarrow> size X + 1 < 2 ^ 32 \<Longrightarrow> try_x t l = Some l' \<Longrightarrow> holds_rel l' S (add_mset t X)"
    and unshares: "holds_rel l (add_mset t S) X \<Longrightarrow> holds_rel (rel_s l) S X"
    and unexcl: "holds_rel l S (add_mset t X) \<Longrightarrow> holds_rel (rel_x l) S X"
begin

lemma step_holds:
  assumes "holds_rel l S X" and "size S + size X \<le> n" and "n + 1 < 2 ^ 32"
    and "rw_step try_s try_x rel_s rel_x opn (l, S, X) = (l', S', X')"
  shows "holds_rel l' S' X' \<and> size S' + size X' \<le> Suc n"
  using assms
proof (cases opn)
  case (RelShared t)
  with assms unshares [of l t "S - {#t#}" X] show ?thesis by (auto simp: size_Diff_singleton split: if_splits)
next
  case (RelExclusive t)
  with assms unexcl [of l S t "X - {#t#}"] show ?thesis by (auto simp: size_Diff_singleton split: if_splits)
qed (auto intro: shares excl split: option.splits)

lemma run_holds:
  "holds_rel l S X \<Longrightarrow> size S + size X \<le> n \<Longrightarrow> n + length ops < 2 ^ 32 - 1 \<Longrightarrow>
     fold (rw_step try_s try_x rel_s rel_x) ops (l, S, X) = (l', S', X') \<Longrightarrow> holds_rel l' S' X'"
proof (induction ops arbitrary: l S X n)
  case (Cons opn ops)
  obtain l1 S1 X1 where one: "rw_step try_s try_x rel_s rel_x opn (l, S, X) = (l1, S1, X1)" by (metis prod_cases3)
  have "holds_rel l1 S1 X1 \<and> size S1 + size X1 \<le> Suc n"
    using Cons.prems by (intro step_holds [OF _ _ _ one]) simp_all
  with Cons.IH [of l1 S1 X1 "Suc n"] Cons.prems one show ?case by simp
qed simp

lemma run_excludes:
  assumes "holds_rel l {#} {#}" and "length ops < 2 ^ 32 - 1"
    and "rw_run try_s try_x rel_s rel_x ops l = (l', S, X)"
  shows "holds_rel l' S X" and "t \<in># X \<Longrightarrow> u \<in># S + X \<Longrightarrow> u = t"
proof -
  show rel: "holds_rel l' S X" using run_holds [OF assms(1), of 0 ops l' S X] assms by (simp add: rw_run_def)
  show "t \<in># X \<Longrightarrow> u \<in># S + X \<Longrightarrow> u = t" using excludes [OF rel] .
qed

end

fun push_holders :: "push_lock \<Rightarrow> u64 multiset \<Rightarrow> u64 multiset \<Rightarrow> bool" where
  "push_holders Free S X \<longleftrightarrow> S = {#} \<and> X = {#}"
| "push_holders (SharedRead n) S X \<longleftrightarrow> X = {#} \<and> S \<noteq> {#} \<and> size S = unat n"
| "push_holders Exclusive S X \<longleftrightarrow> S = {#} \<and> size X = 1"

definition resource_holders :: "eresource \<Rightarrow> u64 multiset \<Rightarrow> u64 multiset \<Rightarrow> bool" where
  "resource_holders r S X \<longleftrightarrow>
     size S = unat (er_shared_count r) \<and>
     (case er_exclusive_owner r of
        None \<Rightarrow> X = {#}
      | Some t \<Rightarrow> X \<noteq> {#} \<and> X = replicate_mset (unat (er_exclusive_recursion r)) t \<and> set_mset S \<subseteq> {t})"

lemma unat_suc_u32: "unat (n :: u32) + 1 < 2 ^ 32 \<Longrightarrow> unat (n + 1) = unat n + 1"
  by (subst unat_add_lem [THEN iffD1]) simp_all

lemma push_release_shared: "push_holders l (add_mset t S) X \<Longrightarrow> push_holders (release_push_lock_shared l) S X"
proof (cases l)
  case (SharedRead n)
  assume "push_holders l (add_mset t S) X"
  with SharedRead have n: "X = {#}" "Suc (size S) = unat n" by auto
  show ?thesis
  proof (cases "S = {#}")
    case True
    with n have "n = 1" by (metis One_nat_def size_empty unat_1 word_unat_eq_iff)
    with True n SharedRead show ?thesis by simp
  next
    case False
    then have "1 < n" using n by (cases S) (auto simp: word_less_nat_alt)
    moreover from this have "n \<noteq> 0" by auto
    then have "unat (n - 1) = unat n - 1" by (simp add: unat_minus_one)
    ultimately show ?thesis using False n SharedRead by simp
  qed
qed simp_all

interpretation push: rw_lock push_holders "\<lambda>_. push_shared_once" "\<lambda>_. push_exclusive_once"
  release_push_lock_shared release_push_lock_exclusive
proof
  fix l S X and t u :: u64
  show "push_holders l S X \<Longrightarrow> t \<in># X \<Longrightarrow> u \<in># S + X \<Longrightarrow> u = t"
    by (cases l) (auto dest!: size_1_singleton_mset [unfolded One_nat_def])
next
  fix l S X and t :: u64 and l'
  show "push_holders l S X \<Longrightarrow> size S + 1 < 2 ^ 32 \<Longrightarrow> push_shared_once l = Some l' \<Longrightarrow> push_holders l' (add_mset t S) X"
    by (cases l) (auto simp: unat_suc_u32)
  show "push_holders l S X \<Longrightarrow> size X + 1 < 2 ^ 32 \<Longrightarrow> push_exclusive_once l = Some l' \<Longrightarrow> push_holders l' S (add_mset t X)"
    by (cases l) auto
  show "push_holders l S (add_mset t X) \<Longrightarrow> push_holders (release_push_lock_exclusive l) S X"
    by (cases l) (auto simp: release_push_lock_exclusive_def)
qed (rule push_release_shared)

lemma resource_release_exclusive:
  "resource_holders r S (add_mset t X) \<Longrightarrow> resource_holders (release_exclusive r) S X"
proof -
  assume h: "resource_holders r S (add_mset t X)"
  then obtain v where own: "er_exclusive_owner r = Some v"
    and X: "add_mset t X = replicate_mset (unat (er_exclusive_recursion r)) v" and S: "set_mset S \<subseteq> {v}"
    by (auto simp: resource_holders_def split: option.splits)
  have pos: "0 < er_exclusive_recursion r" using X by (cases "unat (er_exclusive_recursion r)") (auto simp: word_gt_0)
  then have n: "unat (er_exclusive_recursion r - 1) = unat (er_exclusive_recursion r) - 1"
    by (simp add: unat_minus_one word_gt_0)
  have "t = v" using X by (metis in_replicate_mset union_single_eq_member)
  then have X': "X = replicate_mset (unat (er_exclusive_recursion r - 1)) v"
    using X n by (cases "unat (er_exclusive_recursion r)") auto
  show ?thesis
  proof (cases "er_exclusive_recursion r - 1 = 0")
    case True
    then have "X = {#}" using X' by simp
    with True pos h show ?thesis by (simp add: release_exclusive_def resource_holders_def split: option.splits)
  next
    case False
    then have "X \<noteq> {#}" using X' by (simp add: unat_eq_0)
    with False pos h own X' S show ?thesis by (simp add: release_exclusive_def resource_holders_def)
  qed
qed

interpretation resource: rw_lock resource_holders shared_once exclusive_once release_shared release_exclusive
proof
  fix r S X and t u :: u64
  show "resource_holders r S X \<Longrightarrow> t \<in># X \<Longrightarrow> u \<in># S + X \<Longrightarrow> u = t"
    by (auto simp: resource_holders_def split: option.splits)
next
  fix r S X and t :: u64 and r'
  show "resource_holders r S X \<Longrightarrow> size S + 1 < 2 ^ 32 \<Longrightarrow> shared_once t r = Some r' \<Longrightarrow> resource_holders r' (add_mset t S) X"
    by (auto simp: resource_holders_def shared_once_def unat_suc_u32 split: option.splits if_splits)
  show "resource_holders r S X \<Longrightarrow> size X + 1 < 2 ^ 32 \<Longrightarrow> exclusive_once t r = Some r' \<Longrightarrow> resource_holders r' S (add_mset t X)"
    by (auto simp: resource_holders_def exclusive_once_def unat_suc_u32 unat_eq_0 split: option.splits if_splits)
  show "resource_holders r (add_mset t S) X \<Longrightarrow> resource_holders (release_shared r) S X"
    by (auto simp: resource_holders_def release_shared_def word_gt_0 unat_minus_one split: option.splits)
  show "resource_holders r S (add_mset t X) \<Longrightarrow> resource_holders (release_exclusive r) S X"
    by (rule resource_release_exclusive)
qed

text \<open>The waiting loops succeed only through one of the attempts.\<close>

lemma acquire_shared_attempt:
  "acquire_shared n gap t wait r = Some (True, r') \<Longrightarrow> \<exists>r0. shared_once t r0 = Some r'"
  by (induction n gap t wait r rule: acquire_shared.induct) (auto simp: Let_def split: option.splits if_splits)

lemma acquire_exclusive_attempt:
  "acquire_exclusive n gap t wait r = Some (True, r') \<Longrightarrow> \<exists>r0. exclusive_once t r0 = Some r'"
  by (induction n gap t wait r rule: acquire_exclusive.induct) (auto simp: Let_def split: option.splits if_splits)

text \<open>
  C34: A resource excludes writers from readers and from each other. In every history of fewer than
  \<open>2^32 - 1\<close> attempts and releases by any threads, each releasing only what it holds: while a thread holds
  the resource exclusively no other thread holds it in either mode; the shared count is the number of
  shared holds, and the recursion count the number of exclusive holds of the recorded owner, who is
  recorded exactly while there are any.\<close>

theorem resource_exclusion:
  assumes "rw_run shared_once exclusive_once release_shared release_exclusive ops (fst (eresource_new i)) = (r, S, X)"
    and "length ops < 2 ^ 32 - 1"
  shows "(\<forall>t u. t \<in># X \<longrightarrow> u \<in># S + X \<longrightarrow> u = t) \<and> unat (er_shared_count r) = size S \<and>
    (case er_exclusive_owner r of
       None \<Rightarrow> X = {#}
     | Some t \<Rightarrow> X \<noteq> {#} \<and> X = replicate_mset (unat (er_exclusive_recursion r)) t)"
proof -
  have start: "resource_holders (fst (eresource_new i)) {#} {#}"
    by (simp add: resource_holders_def eresource_new_def)
  have "resource_holders r S X" by (rule resource.run_excludes(1) [OF start assms(2,1)])
  moreover have "\<forall>t u. t \<in># X \<longrightarrow> u \<in># S + X \<longrightarrow> u = t"
    using resource.run_excludes(2) [OF start assms(2,1)] by blast
  ultimately show ?thesis by (auto simp: resource_holders_def split: option.splits)
qed

theorem resource_exclusion_witness:
  "case rw_run shared_once exclusive_once release_shared release_exclusive
     [AcqExclusive 1, AcqShared 2, AcqExclusive 1, AcqShared 1, RelExclusive 1] (fst (eresource_new 7)) of
     (r, S, X) \<Rightarrow> unat (er_shared_count r) = size S \<and> er_exclusive_owner r = Some 1"
proof -
  let ?ops = "[AcqExclusive 1, AcqShared 2, AcqExclusive 1, AcqShared 1, RelExclusive 1]"
  obtain r S X where run: "rw_run shared_once exclusive_once release_shared release_exclusive ?ops (fst (eresource_new 7)) = (r, S, X)"
    by (metis prod_cases3)
  have "er_exclusive_owner (fst (rw_run shared_once exclusive_once release_shared release_exclusive ?ops (fst (eresource_new 7)))) = Some 1"
    by code_simp
  with resource_exclusion [OF run] run show ?thesis by simp
qed

lemma push_exclusion:
  assumes "rw_run (\<lambda>_. push_shared_once) (\<lambda>_. push_exclusive_once) release_push_lock_shared release_push_lock_exclusive
      ops push_lock_new = (l, S, X)"
    and "length ops < 2 ^ 32 - 1" and "t \<in># X" and "u \<in># S + X"
  shows "u = t"
  using push.run_excludes(2) [OF _ assms(2,1)] assms(3,4) by (simp add: push_lock_new_def)

section \<open>The saved level of a fast mutex\<close>

lemma lower_irql_idle:
  "df_dpcs s = [] \<Longrightarrow> df_apcs s = [] \<Longrightarrow>
     lower_irql run_dpc run_apc l s = Some (s\<lparr>df_cpu := lower_irql_raw l (df_cpu s)\<rparr>)"
  by (simp add: lower_irql_def drain_dpc_queue_def deliver_apcs_def deliver_kernel_apcs_def deliver_user_apcs_def
      run_apcs_def Let_def)

lemma raise_to_apc_simp:
  "current_irql (df_cpu s) \<le> Apc_level \<Longrightarrow>
     raise_to_apc s = Some (current_irql (df_cpu s), s\<lparr>df_cpu := lower_irql_raw Apc_level (df_cpu s)\<rparr>)"
  by (simp add: raise_to_apc_def raise_irql_def lower_irql_raw_def Let_def)

text \<open>
  Contention on a fast mutex loses the level its holder saved. A thread that finds the mutex taken has
  already overwritten the saved level with its own, which is APC level because the level is global and
  the holder raised it. When the first thread took the mutex at passive level and releases it while the
  second sleeps, and the second then takes and releases it, the level stays at APC level for good,
  although every release was meant to restore what the acquisition found.\<close>

theorem fast_mutex_contention_loses_level:
  assumes "\<not> fm_locked m" and "current_irql (df_cpu s) = Passive" and "df_dpcs s = []" and "df_apcs s = []"
    and "lower = lower_irql run_dpc run_apc"
    and "first_releases = (\<lambda>_ ms. the (release_fast_mutex lower (fst ms) (snd ms)))"
  shows "\<exists>m1 s1 m2 s2 m3 s3.
    acquire_fast_mutex 1 lower first_releases a m s = Some (m1, s1) \<and>
    acquire_fast_mutex 2 lower first_releases b m1 s1 = Some (m2, s2) \<and>
    release_fast_mutex lower m2 s2 = Some (m3, s3) \<and> current_irql (df_cpu s3) = Apc_level"
proof -
  have le: "Passive \<le> Apc_level" "Apc_level \<le> Apc_level" by (simp_all add: less_eq_irql_def)
  define c where "c = lower_irql_raw Apc_level (df_cpu s)"
  have c: "current_irql c = Apc_level" "lower_irql_raw Apc_level c = c"
    by (simp_all add: c_def) (simp add: lower_irql_raw_def sync_hw_interrupts_def)
  define m1 where "m1 = m\<lparr>fm_old_irql := irql_to_u8 Passive, fm_locked := True, fm_owner := Some a\<rparr>"
  have one: "acquire_fast_mutex 1 lower first_releases a m s = Some (m1, s\<lparr>df_cpu := c\<rparr>)"
    using assms(1,2) le by (simp add: acquire_fast_mutex_def raise_to_apc_simp c_def m1_def)
  define m2 where "m2 = m1\<lparr>fm_old_irql := irql_to_u8 Apc_level, fm_contention_count := fm_contention_count m1 + 1,
    fm_locked := False, fm_owner := None\<rparr>"
  have low: "lower Apc_level (s\<lparr>df_cpu := c\<rparr>) = Some (s\<lparr>df_cpu := c\<rparr>)"
    using assms(3,4) c by (simp add: assms(5) lower_irql_idle)
  have gap: "first_releases n (m1\<lparr>fm_old_irql := irql_to_u8 Apc_level, fm_contention_count := fm_contention_count m1 + 1\<rparr>, s\<lparr>df_cpu := c\<rparr>) =
      (m2, s\<lparr>df_cpu := c\<rparr>)" for n
    using low by (simp add: assms(6) release_fast_mutex_def irql_from_u8_def m2_def m1_def)
  have two: "acquire_fast_mutex 2 lower first_releases b m1 (s\<lparr>df_cpu := c\<rparr>) =
      Some (m2\<lparr>fm_locked := True, fm_owner := Some b\<rparr>, s\<lparr>df_cpu := c\<rparr>)"
    using c le low gap by (simp add: acquire_fast_mutex_def raise_to_apc_simp numeral_2_eq_2 m1_def m2_def)
  have three: "release_fast_mutex lower (m2\<lparr>fm_locked := True, fm_owner := Some b\<rparr>) (s\<lparr>df_cpu := c\<rparr>) =
      Some (m2, s\<lparr>df_cpu := c\<rparr>)"
    using low by (simp add: release_fast_mutex_def irql_from_u8_def m2_def)
  show ?thesis using one two three c by auto
qed

theorem fast_mutex_contention_loses_level_witness:
  "\<exists>m1 s1 m2 s2 m3 s3 (s :: unit deferred).
    current_irql (df_cpu s) = Passive \<and>
    acquire_fast_mutex 1 (lower_irql (\<lambda>_ s. s) (\<lambda>_ s. s))
      (\<lambda>_ ms. the (release_fast_mutex (lower_irql (\<lambda>_ s. s) (\<lambda>_ s. s)) (fst ms) (snd ms))) 1 (fst (fast_mutex_new 9)) s = Some (m1, s1) \<and>
    acquire_fast_mutex 2 (lower_irql (\<lambda>_ s. s) (\<lambda>_ s. s))
      (\<lambda>_ ms. the (release_fast_mutex (lower_irql (\<lambda>_ s. s) (\<lambda>_ s. s)) (fst ms) (snd ms))) 2 m1 s1 = Some (m2, s2) \<and>
    release_fast_mutex (lower_irql (\<lambda>_ s. s) (\<lambda>_ s. s)) m2 s2 = Some (m3, s3) \<and> current_irql (df_cpu s3) = Apc_level"
proof -
  define s :: "unit deferred" where
    "s = \<lparr>df_cpu = irql_init \<lparr>c_irql = 4, c_interrupts = False\<rparr>, df_dpcs = [], df_apcs = [], df_world = ()\<rparr>"
  have "current_irql (df_cpu s) = Passive" "df_dpcs s = []" "df_apcs s = []" "\<not> fm_locked (fst (fast_mutex_new 9))"
    by (simp_all add: s_def irql_init_def current_irql_def sync_hw_interrupts_def irql_from_u8_def fast_mutex_new_def)
  with fast_mutex_contention_loses_level [of "fst (fast_mutex_new 9)" s "lower_irql (\<lambda>_ s. s) (\<lambda>_ s. s)" "\<lambda>_ s. s" "\<lambda>_ s. s" _ 1 2, OF _ _ _ _ refl refl]
  show ?thesis by blast
qed

end
