(* ===== verification/Ex_Work.thy ===== *)
theory Ex_Work
  imports Rust_Prelude
begin

text \<open>
  The executive's work queues, \<open>ex/work_queue.rs\<close>: three queues of deferred work, drained in the
  order of their urgency. The callback of an item is a number, and what running it does, to the
  queues as well as to the rest of the system, is the argument \<open>run\<close>; a callback runs with no queue
  lock held and may queue further work.
\<close>

section \<open>Queues\<close>

datatype work_queue_type = DelayedWorkQueue | CriticalWorkQueue | HyperCriticalWorkQueue

record work_item =
  wi_routine :: nat
  wi_context :: u64
  wi_queue_type :: work_queue_type

record work_queue =
  wq_items :: "work_item list"
  wq_pending :: u64
  wq_processed :: u64

definition work_queue_new :: work_queue where
  "work_queue_new = \<lparr>wq_items = [], wq_pending = 0, wq_processed = 0\<rparr>"

record 'w work =
  w_queues :: "work_queue_type \<Rightarrow> work_queue"
  w_world :: 'w

definition upd_queue :: "work_queue_type \<Rightarrow> (work_queue \<Rightarrow> work_queue) \<Rightarrow> 'w work \<Rightarrow> 'w work" where
  "upd_queue ty f s = s\<lparr>w_queues := (w_queues s)(ty := f (w_queues s ty))\<rparr>"

definition queue_work_item :: "work_item \<Rightarrow> 'w work \<Rightarrow> 'w work" where
  "queue_work_item it s =
     upd_queue (wi_queue_type it) (\<lambda>q. q\<lparr>wq_items := wq_items q @ [it], wq_pending := wq_pending q + 1\<rparr>) s"

definition ex_queue_work_item :: "nat \<Rightarrow> u64 \<Rightarrow> work_queue_type \<Rightarrow> 'w work \<Rightarrow> 'w work" where
  "ex_queue_work_item routine context ty s =
     queue_work_item \<lparr>wi_routine = routine, wi_context = context, wi_queue_type = ty\<rparr> s"

definition drain_single_queue :: "(nat \<Rightarrow> u64 \<Rightarrow> 'w work \<Rightarrow> 'w work) \<Rightarrow> work_queue_type \<Rightarrow> 'w work \<Rightarrow> 'w work" where
  "drain_single_queue run ty s =
     (let batch = wq_items (w_queues s ty);
          s1 = upd_queue ty (\<lambda>q. q\<lparr>wq_items := []\<rparr>) s;
          n = of_nat (length batch);
          s2 = fold (\<lambda>it. run (wi_routine it) (wi_context it)) batch s1
      in if 0 < n
         then upd_queue ty (\<lambda>q. q\<lparr>wq_processed := wq_processed q + n, wq_pending := saturating_sub (wq_pending q) n\<rparr>) s2
         else s2)"

definition process_work_items :: "(nat \<Rightarrow> u64 \<Rightarrow> 'w work \<Rightarrow> 'w work) \<Rightarrow> 'w work \<Rightarrow> 'w work" where
  "process_work_items run s =
     drain_single_queue run DelayedWorkQueue
       (drain_single_queue run CriticalWorkQueue (drain_single_queue run HyperCriticalWorkQueue s))"

definition drain_work_queue :: "(nat \<Rightarrow> u64 \<Rightarrow> 'w work \<Rightarrow> 'w work) \<Rightarrow> work_queue_type \<Rightarrow> 'w work \<Rightarrow> 'w work" where
  "drain_work_queue run ty s = drain_single_queue run ty s"

definition work_queue_stats :: "'w work \<Rightarrow> u64 \<times> u64 \<times> u64" where
  "work_queue_stats s =
     (of_nat (length (wq_items (w_queues s DelayedWorkQueue))),
      of_nat (length (wq_items (w_queues s CriticalWorkQueue))),
      of_nat (length (wq_items (w_queues s HyperCriticalWorkQueue))))"

definition total_processed :: "'w work \<Rightarrow> u64" where
  "total_processed s =
     wq_processed (w_queues s DelayedWorkQueue) + wq_processed (w_queues s CriticalWorkQueue) +
     wq_processed (w_queues s HyperCriticalWorkQueue)"

section \<open>Order and completeness\<close>

text \<open>A callback that records its run and leaves the queues alone.\<close>

definition logs :: "(nat \<Rightarrow> u64 \<Rightarrow> (nat \<times> u64) list work \<Rightarrow> (nat \<times> u64) list work) \<Rightarrow> bool" where
  "logs run \<longleftrightarrow> (\<forall>r c s. w_world (run r c s) = w_world s @ [(r, c)] \<and> w_queues (run r c s) = w_queues s)"

definition calls :: "work_queue_type \<Rightarrow> 'w work \<Rightarrow> (nat \<times> u64) list" where
  "calls ty s = map (\<lambda>it. (wi_routine it, wi_context it)) (wq_items (w_queues s ty))"

lemma fold_logs:
  "logs run \<Longrightarrow> w_queues (fold (\<lambda>it. run (wi_routine it) (wi_context it)) its s) = w_queues s \<and>
     w_world (fold (\<lambda>it. run (wi_routine it) (wi_context it)) its s) =
       w_world s @ map (\<lambda>it. (wi_routine it, wi_context it)) its"
  by (induction its arbitrary: s) (auto simp: logs_def)

lemma drain_logs:
  assumes "logs run"
  shows "w_world (drain_single_queue run ty s) = w_world s @ calls ty s"
    and "calls ty' (drain_single_queue run ty s) = (if ty' = ty then [] else calls ty' s)"
  by (simp_all add: fold_logs [OF assms] drain_single_queue_def Let_def upd_queue_def calls_def)

lemma calls_queued:
  "calls ty (fold queue_work_item its s) =
     calls ty s @ map (\<lambda>it. (wi_routine it, wi_context it)) (filter (\<lambda>it. wi_queue_type it = ty) its)"
  by (induction its arbitrary: s) (auto simp: calls_def queue_work_item_def upd_queue_def)

lemma work_items_run_once:
  assumes "logs run" and "\<forall>ty. calls ty s = []" and "w_world s = []"
  shows "w_world (process_work_items run (fold queue_work_item its s)) =
    map (\<lambda>it. (wi_routine it, wi_context it))
      (filter (\<lambda>it. wi_queue_type it = HyperCriticalWorkQueue) its @
       filter (\<lambda>it. wi_queue_type it = CriticalWorkQueue) its @
       filter (\<lambda>it. wi_queue_type it = DelayedWorkQueue) its)"
    and "calls ty (process_work_items run (fold queue_work_item its s)) = []"
proof -
  have w: "w_world (fold queue_work_item its s) = w_world s"
    by (induction its arbitrary: s) (simp_all add: queue_work_item_def upd_queue_def)
  show "w_world (process_work_items run (fold queue_work_item its s)) =
    map (\<lambda>it. (wi_routine it, wi_context it))
      (filter (\<lambda>it. wi_queue_type it = HyperCriticalWorkQueue) its @
       filter (\<lambda>it. wi_queue_type it = CriticalWorkQueue) its @
       filter (\<lambda>it. wi_queue_type it = DelayedWorkQueue) its)"
    using assms w by (simp add: process_work_items_def drain_logs calls_queued)
  show "calls ty (process_work_items run (fold queue_work_item its s)) = []"
    using assms by (cases ty) (simp_all add: process_work_items_def drain_logs)
qed

end
