(* ===== verification/Pmm_Bitmap.thy ===== *)
theory Pmm_Bitmap
  imports Page_Refcount
begin

text \<open>
  The physical frame allocator, \<open>mm/pmm.rs\<close>: one bit per 4 KiB frame, set for a frame that is in use
  or reserved, with counters that are to agree with the bitmap. The static array \<open>BITMAP\<close> is a function
  from byte indices, read and written below \<open>BITMAP_SIZE\<close> only; page numbers are natural numbers, and
  the sums the source forms from values of the boot loader wrap as its \<open>usize\<close> does. The linker symbol
  for the end of the kernel, the stack pointer at boot and the size of the boot information are
  arguments of \<open>pmm_init\<close>. The diagnostic rings and log lines are left out.
\<close>

section \<open>State\<close>

abbreviation PAGE_SIZE :: u64 where "PAGE_SIZE \<equiv> 4096"
abbreviation BITMAP_SIZE :: nat where "BITMAP_SIZE \<equiv> 131072"
abbreviation KERNEL_VIRT_BASE :: u64 where "KERNEL_VIRT_BASE \<equiv> 0xFFFF800000000000"
abbreviation BOOT_INFO_PHYS_BASE :: u64 where "BOOT_INFO_PHYS_BASE \<equiv> 0x1000000"

record pmm =
  pm_bitmap :: "nat \<Rightarrow> u8"
  pm_total :: u64
  pm_used :: u64
  pm_reserved :: u64
  pm_next_fit :: u64
  pm_exhausted :: u64
  pm_residual_refs :: u64
  pm_static_refused :: u64
  pm_already_free :: u64
  pm_image_base :: u64
  pm_image_end :: u64
  pm_stack_first :: u64
  pm_stack_last :: u64

definition pmm_static :: pmm where
  "pmm_static =
     \<lparr>pm_bitmap = (\<lambda>_. 0xFF), pm_total = 0, pm_used = 0, pm_reserved = 0, pm_next_fit = 0, pm_exhausted = 0,
      pm_residual_refs = 0, pm_static_refused = 0, pm_already_free = 0, pm_image_base = 0, pm_image_end = 0,
      pm_stack_first = 0, pm_stack_last = 0\<rparr>"

definition mark_page_used :: "nat \<Rightarrow> pmm \<Rightarrow> pmm" where
  "mark_page_used page s =
     s\<lparr>pm_bitmap := (pm_bitmap s)(page div 8 := pm_bitmap s (page div 8) OR push_bit (page mod 8) 1)\<rparr>"

definition mark_page_free :: "nat \<Rightarrow> pmm \<Rightarrow> pmm" where
  "mark_page_free page s =
     s\<lparr>pm_bitmap := (pm_bitmap s)(page div 8 := pm_bitmap s (page div 8) AND NOT (push_bit (page mod 8) 1))\<rparr>"

definition is_page_used_locked :: "nat \<Rightarrow> pmm \<Rightarrow> bool" where
  "is_page_used_locked page s \<longleftrightarrow> pm_bitmap s (page div 8) AND push_bit (page mod 8) 1 \<noteq> 0"

definition kernel_image_phys_range :: "pmm \<Rightarrow> u64 \<times> u64" where
  "kernel_image_phys_range s = (pm_image_base s, pm_image_end s)"

definition is_kernel_static_phys :: "u64 \<Rightarrow> pmm \<Rightarrow> bool" where
  "is_kernel_static_phys phys s \<longleftrightarrow>
     pm_image_base s \<noteq> 0 \<and> pm_image_end s \<noteq> 0 \<and> pm_image_base s \<le> phys \<and> phys < pm_image_end s"

definition boot_info_phys_page_span :: "u64 \<Rightarrow> nat \<times> nat \<times> u64" where
  "boot_info_phys_page_span bytes =
     (unat (BOOT_INFO_PHYS_BASE div PAGE_SIZE),
      unat ((BOOT_INFO_PHYS_BASE + saturating_sub bytes 1) div PAGE_SIZE), bytes)"

definition bootstrap_stack_phys_span :: "pmm \<Rightarrow> u64 \<times> u64" where
  "bootstrap_stack_phys_span s = (pm_stack_first s, pm_stack_last s)"

text \<open>\<open>False\<close> is the bugcheck.\<close>

definition bootstrap_stack_assert_rsp_reserved :: "u64 \<Rightarrow> pmm \<Rightarrow> bool" where
  "bootstrap_stack_assert_rsp_reserved rsp s \<longleftrightarrow>
     (let (first, last) = bootstrap_stack_phys_span s
      in first = 0 \<and> last = 0 \<or> rsp = 0 \<or> KERNEL_VIRT_BASE \<le> rsp \<or>
         \<not> (rsp < first \<or> last + (PAGE_SIZE - 1) < rsp))"

section \<open>Initialisation\<close>

datatype memory_type = Reserved | Available | AcpiReclaimable | AcpiNvs | Kernel | Bootloader | Framebuffer

record memory_map_entry =
  me_type :: memory_type
  me_start :: u64
  me_pages :: u64

text \<open>The parts of \<open>BootInfo\<close> the allocator reads, and the arguments that are not in it.\<close>

record boot_info =
  bi_entries :: "memory_map_entry list"
  bi_kernel_base :: u64
  bi_kernel_size :: u64
  bi_kernel_end_va :: u64
  bi_struct_bytes :: u64
  bi_rsp :: u64

text \<open>Frees the page when it is in use, and counts it.\<close>

definition offer_page :: "nat \<Rightarrow> u64 \<times> pmm \<Rightarrow> u64 \<times> pmm" where
  "offer_page page = (\<lambda>(n, s).
     if page < MAX_PAGES \<and> is_page_used_locked page s then (n + 1, mark_page_free page s) else (n, s))"

definition offer_entry :: "memory_map_entry \<Rightarrow> u64 \<times> pmm \<Rightarrow> u64 \<times> pmm" where
  "offer_entry e ns =
     (if me_type e = Available
      then (let start_page = me_start e div PAGE_SIZE
            in fold offer_page [unat start_page ..< unat (start_page + me_pages e)] ns)
      else ns)"

text \<open>Reserves the page when it is free, and counts it.\<close>

definition reserve_page :: "nat \<Rightarrow> u64 \<times> pmm \<Rightarrow> u64 \<times> pmm" where
  "reserve_page page = (\<lambda>(n, s).
     if page < MAX_PAGES \<and> \<not> is_page_used_locked page s then (n + 1, mark_page_used page s) else (n, s))"

definition kernel_end_phys :: "boot_info \<Rightarrow> u64" where
  "kernel_end_phys b =
     max (saturating_add (bi_kernel_base b) (bi_kernel_size b)) (saturating_sub (bi_kernel_end_va b) KERNEL_VIRT_BASE)"

definition kernel_span :: "boot_info \<Rightarrow> nat list" where
  "kernel_span b =
     (let image_bytes = saturating_sub (kernel_end_phys b) (bi_kernel_base b);
          kernel_start = bi_kernel_base b div PAGE_SIZE;
          kernel_pages = (image_bytes + PAGE_SIZE - 1) div PAGE_SIZE
      in [unat kernel_start ..< unat (kernel_start + kernel_pages + 256)])"

definition boot_info_span :: "boot_info \<Rightarrow> nat list" where
  "boot_info_span b = (let (first, last, _) = boot_info_phys_page_span (bi_struct_bytes b) in [first ..< Suc last])"

text \<open>The pages around the stack pointer; page zero is skipped by the loop that reserves them.\<close>

definition stack_window :: "u64 \<Rightarrow> u64 \<times> u64" where
  "stack_window rsp = (saturating_sub (rsp div PAGE_SIZE) 128, saturating_add (rsp div PAGE_SIZE) 4)"

definition reserve_stack :: "u64 \<Rightarrow> u64 \<times> pmm \<Rightarrow> u64 \<times> pmm" where
  "reserve_stack rsp ns =
     (if rsp \<noteq> 0 \<and> rsp < KERNEL_VIRT_BASE then
        (let (first, last) = stack_window rsp;
             (n, s) = fold reserve_page (filter (\<lambda>p. p \<noteq> 0) [unat first ..< Suc (unat last)]) ns
         in (n, s\<lparr>pm_stack_first := first * PAGE_SIZE, pm_stack_last := last * PAGE_SIZE\<rparr>))
      else ns)"

definition pmm_init :: "boot_info \<Rightarrow> pmm \<Rightarrow> pmm" where
  "pmm_init b s =
     (let (total_available, s1) = fold offer_entry (bi_entries b) (0, s);
          s2 = s1\<lparr>pm_image_base := bi_kernel_base b, pm_image_end := kernel_end_phys b\<rparr>;
          (boot_reserved, s3) =
            reserve_stack (bi_rsp b)
              (fold reserve_page [0..<256] (fold reserve_page (boot_info_span b) (fold reserve_page (kernel_span b) (0, s2))))
      in s3\<lparr>pm_total := total_available, pm_used := boot_reserved, pm_reserved := boot_reserved\<rparr>)"

section \<open>Allocation\<close>

function scan_bytes :: "(nat \<Rightarrow> u8) \<Rightarrow> nat \<Rightarrow> nat \<Rightarrow> (nat \<times> nat) option" where
  "scan_bytes bm i e =
     (if i < e then
        (case (if bm i \<noteq> 0xFF then List.find (\<lambda>b. bm i AND push_bit b 1 = 0) [0..<8] else None) of
           Some b \<Rightarrow> Some (i, b)
         | None \<Rightarrow> scan_bytes bm (Suc i) e)
      else None)"
  by pat_completeness auto

termination
  by (relation "measure (\<lambda>(bm, i, e). e - i)") auto

declare scan_bytes.simps [simp del]

definition take_page :: "nat \<times> nat \<Rightarrow> pmm \<Rightarrow> u64 \<times> pmm" where
  "take_page hit s =
     (let (byte_idx, bit) = hit; page = byte_idx * 8 + bit
      in (of_nat (page * 4096),
          (mark_page_used page s)\<lparr>pm_used := pm_used s + 1, pm_next_fit := of_nat (Suc byte_idx mod BITMAP_SIZE)\<rparr>))"

definition alloc_page_locked :: "pmm \<Rightarrow> u64 option \<times> pmm" where
  "alloc_page_locked s =
     (let start_byte = unat (pm_next_fit s)
      in case scan_bytes (pm_bitmap s) start_byte BITMAP_SIZE of
           Some hit \<Rightarrow> (let (a, s') = take_page hit s in (Some a, s'))
         | None \<Rightarrow>
             (case scan_bytes (pm_bitmap s) 0 start_byte of
                Some hit \<Rightarrow> (let (a, s') = take_page hit s in (Some a, s'))
              | None \<Rightarrow> (None, s)))"

text \<open>The search of \<open>alloc_pages\<close>: the start of the current run of free pages and its length.\<close>

function find_run :: "pmm \<Rightarrow> nat \<Rightarrow> nat \<Rightarrow> nat \<Rightarrow> nat \<Rightarrow> nat option" where
  "find_run s count page start found =
     (if page < MAX_PAGES then
        (if pm_bitmap s (page div 8) AND push_bit (page mod 8) 1 = 0 then
           (let start' = (if found = 0 then page else start)
            in if Suc found = count then Some start' else find_run s count (Suc page) start' (Suc found))
         else find_run s count (Suc page) start 0)
      else None)"
  by pat_completeness auto

termination
  by (relation "measure (\<lambda>(s, count, page, start, found). MAX_PAGES - page)") auto

declare find_run.simps [simp del]

definition alloc_pages :: "nat \<Rightarrow> pmm \<Rightarrow> u64 option \<times> pmm" where
  "alloc_pages count s =
     (if count = 0 then (None, s)
      else
        (case find_run s count 0 0 0 of
           None \<Rightarrow> (None, s)
         | Some start \<Rightarrow>
             (Some (of_nat (start * 4096)),
              (fold mark_page_used [start ..< start + count] s)\<lparr>pm_used := pm_used s + of_nat count\<rparr>)))"

definition reserve_range :: "u64 \<Rightarrow> u64 \<Rightarrow> pmm \<Rightarrow> pmm" where
  "reserve_range start end s =
     (let start_page = start div PAGE_SIZE;
          end_page = (end + PAGE_SIZE - 1) div PAGE_SIZE;
          (n, s') = fold reserve_page [unat start_page ..< unat end_page] (0, s)
      in if 0 < n then s'\<lparr>pm_used := pm_used s' + n, pm_reserved := pm_reserved s' + n\<rparr> else s')"

section \<open>Accounting\<close>

record accounting =
  ac_total :: u64
  ac_used :: u64
  ac_reserved :: u64
  ac_counter_free :: u64
  ac_bitmap_free :: u64

fun from_le_bytes :: "u8 list \<Rightarrow> u64" where
  "from_le_bytes [] = 0"
| "from_le_bytes (b # bs) = ucast b OR push_bit 8 (from_le_bytes bs)"

definition count_zeros :: "u64 \<Rightarrow> nat" where
  "count_zeros w = length (filter (\<lambda>k. \<not> bit w k) [0..<64])"

definition accounting_snapshot :: "pmm \<Rightarrow> accounting" where
  "accounting_snapshot s =
     \<lparr>ac_total = pm_total s, ac_used = pm_used s, ac_reserved = pm_reserved s,
      ac_counter_free = saturating_sub (pm_total s) (pm_used s),
      ac_bitmap_free =
        sum_list (map (\<lambda>i. of_nat (count_zeros (from_le_bytes (map (pm_bitmap s) [8 * i ..< 8 * i + 8])))) [0 ..< BITMAP_SIZE div 8])\<rparr>"

definition drift :: "accounting \<Rightarrow> int" where
  "drift a = sint (ac_counter_free a) - sint (ac_bitmap_free a)"

definition pmm_stats :: "pmm \<Rightarrow> u64 \<times> u64" where
  "pmm_stats s = (pm_total s, pm_used s)"

definition free_page_count :: "pmm \<Rightarrow> u64" where
  "free_page_count s = saturating_sub (pm_total s) (pm_used s)"

section \<open>The bitmap as a set of free pages\<close>

definition page_used :: "pmm \<Rightarrow> nat \<Rightarrow> bool" where
  "page_used s p \<longleftrightarrow> bit (pm_bitmap s (p div 8)) (p mod 8)"

definition free_pages :: "pmm \<Rightarrow> nat set" where
  "free_pages s = {p. p < MAX_PAGES \<and> \<not> page_used s p}"

definition pmm_ok :: "pmm \<Rightarrow> bool" where
  "pmm_ok s \<longleftrightarrow>
     unat (pm_used s) + card (free_pages s) = unat (pm_total s) \<and> unat (pm_total s) \<le> MAX_PAGES \<and>
     unat (pm_next_fit s) < BITMAP_SIZE"

lemma is_page_used_iff [simp]: "is_page_used_locked p s \<longleftrightarrow> page_used s p"
  by (simp add: is_page_used_locked_def page_used_def and_exp_eq_0_iff_not_bit)

lemma finite_free [simp]: "finite (free_pages s)"
  by (simp add: free_pages_def)

lemma card_free_le: "card (free_pages s) \<le> MAX_PAGES"
proof -
  have "free_pages s \<subseteq> {..<MAX_PAGES}" by (auto simp: free_pages_def)
  then have "card (free_pages s) \<le> card {..<MAX_PAGES}" by (intro card_mono) simp_all
  then show ?thesis by simp
qed

lemma eq_div_mod_8: "q = p \<longleftrightarrow> q div 8 = p div 8 \<and> q mod 8 = p mod (8 :: nat)"
  by (metis div_mult_mod_eq)

lemma page_used_mark_used [simp]: "page_used (mark_page_used p s) q \<longleftrightarrow> q = p \<or> page_used s q"
proof -
  have "p mod 8 < 8" by simp
  then show ?thesis
    unfolding eq_div_mod_8 [of q p] page_used_def mark_page_used_def
    by (auto simp: bit_or_iff bit_exp_iff)
qed

lemma page_used_mark_free [simp]: "page_used (mark_page_free p s) q \<longleftrightarrow> q \<noteq> p \<and> page_used s q"
proof -
  have "p mod 8 < 8" "q mod 8 < 8" by simp_all
  then show ?thesis
    unfolding eq_div_mod_8 [of q p] page_used_def mark_page_free_def
    by (auto simp: bit_and_iff bit_not_iff bit_exp_iff)
qed

lemma free_mark_used: "free_pages (mark_page_used p s) = free_pages s - {p}"
  by (auto simp: free_pages_def)

lemma free_mark_free: "p < MAX_PAGES \<Longrightarrow> free_pages (mark_page_free p s) = insert p (free_pages s)"
  by (auto simp: free_pages_def)

lemma mark_fields [simp]:
  "pm_total (mark_page_used p s) = pm_total s" "pm_used (mark_page_used p s) = pm_used s"
  "pm_next_fit (mark_page_used p s) = pm_next_fit s" "pm_total (mark_page_free p s) = pm_total s"
  "pm_used (mark_page_free p s) = pm_used s" "pm_next_fit (mark_page_free p s) = pm_next_fit s"
  by (simp_all add: mark_page_used_def mark_page_free_def)

lemma free_cong: "pm_bitmap s' = pm_bitmap s \<Longrightarrow> free_pages s' = free_pages s"
  by (simp add: free_pages_def page_used_def)

section \<open>One page\<close>

lemma byte_full: "(\<forall>b < 8. bit x b) \<longleftrightarrow> x = 0xFF" for x :: u8
proof -
  have m: "(0xFF :: u8) = mask 8" by (simp add: mask_eq_exp_minus_1)
  show ?thesis unfolding m by (auto simp: bit_mask_iff intro: bit_word_eqI)
qed

lemma scan_bytes_spec:
  "case scan_bytes bm i e of
     Some (j, b) \<Rightarrow> i \<le> j \<and> j < e \<and> b < 8 \<and> \<not> bit (bm j) b
   | None \<Rightarrow> \<forall>j. i \<le> j \<and> j < e \<longrightarrow> bm j = 0xFF"
proof (induction bm i e rule: scan_bytes.induct)
  case (1 bm i e)
  show ?case
  proof (cases "i < e")
    case False
    then show ?thesis by (auto simp: scan_bytes.simps [of bm i])
  next
    case True
    define hit where "hit = (if bm i \<noteq> 0xFF then List.find (\<lambda>b. bm i AND push_bit b 1 = 0) [0..<8] else None)"
    show ?thesis
    proof (cases hit)
      case (Some b)
      then have "List.find (\<lambda>b. bm i AND push_bit b 1 = 0) [0..<8] = Some b" by (simp add: hit_def split: if_splits)
      then have "b < 8 \<and> \<not> bit (bm i) b"
        by (auto simp: find_Some_iff and_exp_eq_0_iff_not_bit dest: nth_mem)
      with True Some show ?thesis by (simp add: scan_bytes.simps [of bm i] hit_def [symmetric])
    next
      case None
      then have "bm i = 0xFF"
        using byte_full [of "bm i"] by (auto simp: hit_def find_None_iff and_exp_eq_0_iff_not_bit split: if_splits)
      moreover have "scan_bytes bm i e = scan_bytes bm (Suc i) e"
        using True None by (simp add: scan_bytes.simps [of bm i] hit_def [symmetric])
      ultimately show ?thesis
        using 1 [OF True] None by (auto simp: hit_def [symmetric] le_Suc_eq Suc_le_eq split: option.splits)
          (metis le_neq_implies_less)+
    qed
  qed
qed

lemma page_of_byte: "b < 8 \<Longrightarrow> page_used s (j * 8 + b) \<longleftrightarrow> bit (pm_bitmap s j) b"
  by (simp add: page_used_def)

lemma full_no_free: "\<forall>j < BITMAP_SIZE. pm_bitmap s j = 0xFF \<Longrightarrow> free_pages s = {}"
proof -
  assume full: "\<forall>j < BITMAP_SIZE. pm_bitmap s j = 0xFF"
  have "page_used s p" if "p < MAX_PAGES" for p
  proof -
    have "p div 8 < BITMAP_SIZE" using that by simp
    with full byte_full [of "pm_bitmap s (p div 8)"] show ?thesis by (simp add: page_used_def)
  qed
  then show ?thesis by (auto simp: free_pages_def)
qed

lemma take_page_spec:
  assumes "j < BITMAP_SIZE" and "b < 8" and "\<not> bit (pm_bitmap s j) b"
  shows "\<exists>p \<in> free_pages s. \<exists>s'. take_page (j, b) s = (of_nat (p * 4096), s') \<and> free_pages s' = free_pages s - {p} \<and>
    pm_used s' = pm_used s + 1 \<and> pm_total s' = pm_total s \<and> unat (pm_next_fit s') < BITMAP_SIZE"
proof (intro bexI exI conjI)
  let ?p = "j * 8 + b"
  let ?s' = "(mark_page_used ?p s)\<lparr>pm_used := pm_used s + 1, pm_next_fit := of_nat (Suc j mod BITMAP_SIZE)\<rparr>"
  show "?p \<in> free_pages s" using assms by (simp add: free_pages_def page_of_byte)
  show "take_page (j, b) s = (of_nat (?p * 4096), ?s')" by (simp add: take_page_def)
  show "free_pages ?s' = free_pages s - {?p}" using free_mark_used [of ?p s] by (simp add: free_pages_def page_used_def)
  show "pm_used ?s' = pm_used s + 1" "pm_total ?s' = pm_total s" by simp_all
  have "Suc j mod BITMAP_SIZE < BITMAP_SIZE" by simp
  moreover from this have "unat (of_nat (Suc j mod BITMAP_SIZE) :: u64) = Suc j mod BITMAP_SIZE"
    by (simp add: unat_of_nat_small)
  ultimately show "unat (pm_next_fit ?s') < BITMAP_SIZE" by simp
qed

lemma alloc_page_cases:
  assumes "unat (pm_next_fit s) < BITMAP_SIZE"
  shows "(free_pages s = {} \<and> alloc_page_locked s = (None, s)) \<or>
    (\<exists>p \<in> free_pages s. \<exists>s'. alloc_page_locked s = (Some (of_nat (p * 4096)), s') \<and> free_pages s' = free_pages s - {p} \<and>
      pm_used s' = pm_used s + 1 \<and> pm_total s' = pm_total s \<and> unat (pm_next_fit s') < BITMAP_SIZE)"
proof -
  let ?n = "unat (pm_next_fit s)"
  note up = scan_bytes_spec [of ?n BITMAP_SIZE "pm_bitmap s"] and down = scan_bytes_spec [of 0 ?n "pm_bitmap s"]
  show ?thesis
  proof (cases "scan_bytes (pm_bitmap s) ?n BITMAP_SIZE")
    case (Some hit)
    obtain j b where hit: "hit = (j, b)" by (cases hit)
    with up Some have "j < BITMAP_SIZE" "b < 8" "\<not> bit (pm_bitmap s j) b" by simp_all
    from take_page_spec [OF this] Some hit show ?thesis by (auto simp: alloc_page_locked_def)
  next
    case None
    show ?thesis
    proof (cases "scan_bytes (pm_bitmap s) 0 ?n")
      case (Some hit)
      obtain j b where hit: "hit = (j, b)" by (cases hit)
      with down Some assms have "j < BITMAP_SIZE" "b < 8" "\<not> bit (pm_bitmap s j) b" by simp_all
      from take_page_spec [OF this] None Some hit show ?thesis by (auto simp: alloc_page_locked_def)
    next
      case none: None
      have "\<forall>j < BITMAP_SIZE. pm_bitmap s j = 0xFF" using up down None none by (auto simp: not_le [symmetric])
      then show ?thesis using None none by (simp add: alloc_page_locked_def full_no_free)
    qed
  qed
qed

section \<open>Runs of pages\<close>

definition free_run :: "pmm \<Rightarrow> nat \<Rightarrow> nat \<Rightarrow> bool" where
  "free_run s n st \<longleftrightarrow> st + n \<le> MAX_PAGES \<and> (\<forall>p \<in> {st ..< st + n}. \<not> page_used s p)"

definition first_run :: "pmm \<Rightarrow> nat \<Rightarrow> nat option \<Rightarrow> bool" where
  "first_run s n r \<longleftrightarrow>
     (case r of
        Some st \<Rightarrow> free_run s n st \<and> (\<forall>st' < st. \<not> free_run s n st')
      | None \<Rightarrow> \<forall>st. \<not> free_run s n st)"

lemma run_blocked: "page_used s p \<Longrightarrow> st \<le> p \<Longrightarrow> p < st + n \<Longrightarrow> \<not> free_run s n st"
  by (auto simp: free_run_def)

lemma find_run_first:
  assumes "found < n" and "found = 0 \<or> start + found = page \<and> (\<forall>p \<in> {start ..< page}. \<not> page_used s p)"
    and "\<forall>st. st < (if found = 0 then page else start) \<longrightarrow> \<not> free_run s n st"
  shows "first_run s n (find_run s n page start found)"
  using assms
proof (induction s n page start found rule: find_run.induct)
  case (1 s n page start found)
  note prems = 1(3-5)
  show ?case
  proof (cases "page < MAX_PAGES")
    case False
    have "\<not> free_run s n st" for st
      using prems False by (cases "st < (if found = 0 then page else start)") (auto simp: free_run_def split: if_splits)
    with False show ?thesis by (simp add: find_run.simps [of s n page] first_run_def)
  next
    case in_range: True
    show ?thesis
    proof (cases "page_used s page")
      case True
      have b: "\<forall>st. st < Suc page \<longrightarrow> \<not> free_run s n st"
      proof (intro allI impI)
        fix st
        assume "st < Suc page"
        then show "\<not> free_run s n st"
          using prems run_blocked [OF True, of st n] by (cases "st < (if found = 0 then page else start)") (auto split: if_splits)
      qed
      have "find_run s n page start found = find_run s n (Suc page) start 0"
        using in_range True by (simp add: find_run.simps [of s n page] page_used_def and_exp_eq_0_iff_not_bit)
      then show ?thesis
        using 1(2) [OF in_range] True b prems(1) by (simp add: page_used_def and_exp_eq_0_iff_not_bit)
    next
      case False
      define start' where "start' = (if found = 0 then page else start)"
      have run: "start' + Suc found = Suc page \<and> (\<forall>p \<in> {start' ..< Suc page}. \<not> page_used s p)"
        using prems(2) False by (auto simp: start'_def less_Suc_eq)
      have low: "\<forall>st < start'. \<not> free_run s n st" using prems(3) by (simp add: start'_def)
      have step: "find_run s n page start found =
          (if Suc found = n then Some start' else find_run s n (Suc page) start' (Suc found))"
        using in_range False
        by (simp add: find_run.simps [of s n page] page_used_def and_exp_eq_0_iff_not_bit start'_def Let_def)
      show ?thesis
      proof (cases "Suc found = n")
        case True
        then have "free_run s n start'" using run in_range by (auto simp: free_run_def)
        with True step low show ?thesis by (simp add: first_run_def)
      next
        case more: False
        have "first_run s n (find_run s n (Suc page) start' (Suc found))"
          using 1(1) [OF in_range _ start'_def] more prems(1) False run low
          by (simp add: page_used_def and_exp_eq_0_iff_not_bit)
        with more step show ?thesis by simp
      qed
    qed
  qed
qed

lemma page_used_fold_mark: "page_used (fold mark_page_used ps s) q \<longleftrightarrow> q \<in> set ps \<or> page_used s q"
  by (induction ps arbitrary: s) auto

lemma fold_mark_fields:
  "pm_total (fold mark_page_used ps s) = pm_total s" "pm_next_fit (fold mark_page_used ps s) = pm_next_fit s"
  by (induction ps arbitrary: s) auto

definition runs_taken :: "pmm \<Rightarrow> nat \<Rightarrow> nat \<Rightarrow> pmm \<Rightarrow> bool" where
  "runs_taken s n st s' \<longleftrightarrow>
     free_run s n st \<and> (\<forall>st' < st. \<not> free_run s n st') \<and> free_pages s' = free_pages s - {st ..< st + n} \<and>
     pm_used s' = pm_used s + of_nat n \<and> pm_total s' = pm_total s \<and> pm_next_fit s' = pm_next_fit s"

lemma runs_taken_mark:
  assumes "first_run s n (Some st)"
  shows "runs_taken s n st ((fold mark_page_used [st ..< st + n] s)\<lparr>pm_used := pm_used s + of_nat n\<rparr>)"
proof -
  define m where "m = fold mark_page_used [st ..< st + n] s"
  have "free_pages (m\<lparr>pm_used := pm_used s + of_nat n\<rparr>) = free_pages m" by (rule free_cong) simp
  also have "\<dots> = free_pages s - {st ..< st + n}" by (auto simp: free_pages_def m_def page_used_fold_mark)
  finally have "free_pages (m\<lparr>pm_used := pm_used s + of_nat n\<rparr>) = free_pages s - {st ..< st + n}" .
  moreover have "pm_total m = pm_total s" "pm_next_fit m = pm_next_fit s" by (simp_all only: m_def fold_mark_fields)
  ultimately show ?thesis using assms by (simp add: runs_taken_def first_run_def m_def [symmetric])
qed

lemma alloc_pages_cases:
  assumes "0 < n"
  shows "(\<forall>st. \<not> free_run s n st) \<and> alloc_pages n s = (None, s) \<or>
    (\<exists>st s'. alloc_pages n s = (Some (of_nat (st * 4096)), s') \<and> runs_taken s n st s')"
proof -
  have r: "first_run s n (find_run s n 0 0 0)" by (rule find_run_first) (use assms in simp_all)
  show ?thesis
  proof (cases "find_run s n 0 0 0")
    case None
    then have "\<forall>st. \<not> free_run s n st" using r by (simp add: first_run_def)
    with None assms show ?thesis unfolding alloc_pages_def by simp
  next
    case (Some st)
    then have "alloc_pages n s =
        (Some (of_nat (st * 4096)), (fold mark_page_used [st ..< st + n] s)\<lparr>pm_used := pm_used s + of_nat n\<rparr>)"
      using assms unfolding alloc_pages_def by (simp only: option.case if_not_P neq0_conv)
    with runs_taken_mark [of s n st] r Some show ?thesis by metis
  qed
qed

section \<open>Counting\<close>

text \<open>Reserving pages moves them from the free pages to the counter, and offering pages counts the free ones.\<close>

lemma unat_inc_u64: "unat (n :: u64) < 2 ^ 64 - 1 \<Longrightarrow> unat (n + 1) = unat n + 1"
  by (subst unat_add_lem [THEN iffD1]) simp_all

lemma reserve_page_counts:
  assumes "reserve_page p (n, s) = (n', s')" and "unat n + card (free_pages s) \<le> MAX_PAGES"
  shows "unat n' + card (free_pages s') = unat n + card (free_pages s) \<and> free_pages s' = free_pages s - {p} \<and>
    pm_total s' = pm_total s \<and> pm_used s' = pm_used s \<and> pm_next_fit s' = pm_next_fit s"
proof (cases "p \<in> free_pages s")
  case True
  then have res: "n' = n + 1" "s' = mark_page_used p s" using assms(1) by (auto simp: reserve_page_def free_pages_def)
  have "0 < card (free_pages s)" using True by (auto simp: card_gt_0_iff)
  then have "unat (n + 1) = unat n + 1" using assms(2) by (intro unat_inc_u64) simp
  with True res \<open>0 < card (free_pages s)\<close> show ?thesis by (simp add: free_mark_used)
next
  case False
  then have "n' = n" "s' = s" using assms(1) by (auto simp: reserve_page_def free_pages_def split: if_splits)
  with False show ?thesis by simp
qed

lemma reserve_pages_count:
  assumes "fold reserve_page ps (n, s) = (n', s')" and "unat n + card (free_pages s) \<le> MAX_PAGES"
  shows "unat n' + card (free_pages s') = unat n + card (free_pages s)" and "free_pages s' = free_pages s - set ps"
    and "pm_total s' = pm_total s" and "pm_used s' = pm_used s" and "pm_next_fit s' = pm_next_fit s"
proof -
  have "unat n' + card (free_pages s') = unat n + card (free_pages s) \<and> free_pages s' = free_pages s - set ps \<and>
     pm_total s' = pm_total s \<and> pm_used s' = pm_used s \<and> pm_next_fit s' = pm_next_fit s"
    using assms
  proof (induction ps arbitrary: n s)
    case (Cons p ps)
    obtain n1 s1 where one: "reserve_page p (n, s) = (n1, s1)" by fastforce
    note st = reserve_page_counts [OF one Cons.prems(2)]
    have "fold reserve_page ps (n1, s1) = (n', s')" using Cons.prems(1) one by simp
    moreover have "unat n1 + card (free_pages s1) \<le> MAX_PAGES" using conjunct1 [OF st] Cons.prems(2) by linarith
    ultimately have ih: "unat n' + card (free_pages s') = unat n1 + card (free_pages s1)"
      "free_pages s' = free_pages s1 - set ps" "pm_total s' = pm_total s1" "pm_used s' = pm_used s1"
      "pm_next_fit s' = pm_next_fit s1" using Cons.IH by blast+
    have "unat n' + card (free_pages s') = unat n + card (free_pages s)" using ih(1) conjunct1 [OF st] by linarith
    moreover have "free_pages s' = free_pages s - set (p # ps)" using ih(2) st by auto
    ultimately show ?case using ih(3-5) st by (intro conjI) (assumption | simp only:)+
  qed simp
  then show "unat n' + card (free_pages s') = unat n + card (free_pages s)" "free_pages s' = free_pages s - set ps"
    "pm_total s' = pm_total s" "pm_used s' = pm_used s" "pm_next_fit s' = pm_next_fit s" by blast+
qed

lemma offer_page_counts:
  assumes "offer_page p (n, s) = (n', s')" and "unat n = card (free_pages s)"
  shows "unat n' = card (free_pages s') \<and> free_pages s' = free_pages s \<union> ({p} \<inter> {..<MAX_PAGES}) \<and> pm_next_fit s' = pm_next_fit s"
proof (cases "p < MAX_PAGES \<and> page_used s p")
  case True
  then have res: "n' = n + 1" "s' = mark_page_free p s" using assms(1) by (auto simp: offer_page_def)
  have new: "p \<notin> free_pages s" using True by (simp add: free_pages_def)
  have "unat n < 2 ^ 64 - 1" using card_free_le [of s] assms(2) by simp
  with True new res assms(2) show ?thesis by (simp add: unat_inc_u64 free_mark_free)
next
  case False
  then have "n' = n" "s' = s" using assms(1) by (auto simp: offer_page_def split: if_splits)
  with False assms(2) show ?thesis by (auto simp: free_pages_def)
qed

lemma offer_pages_count:
  "fold offer_page ps (n, s) = (n', s') \<Longrightarrow> unat n = card (free_pages s) \<Longrightarrow>
     unat n' = card (free_pages s') \<and> free_pages s' = free_pages s \<union> (set ps \<inter> {..<MAX_PAGES}) \<and> pm_next_fit s' = pm_next_fit s"
proof (induction ps arbitrary: n s)
  case (Cons p ps)
  obtain n1 s1 where one: "offer_page p (n, s) = (n1, s1)" by fastforce
  note st = offer_page_counts [OF one Cons.prems(2)]
  have "fold offer_page ps (n1, s1) = (n', s')" using Cons.prems(1) one by simp
  then have "unat n' = card (free_pages s') \<and> free_pages s' = free_pages s1 \<union> (set ps \<inter> {..<MAX_PAGES}) \<and> pm_next_fit s' = pm_next_fit s1"
    using conjunct1 [OF st] by (rule Cons.IH)
  with st show ?case by (simp add: Int_insert_left Un_assoc)
qed simp

text \<open>The pages the firmware offers.\<close>

definition entry_pages :: "memory_map_entry \<Rightarrow> nat set" where
  "entry_pages e =
     (if me_type e = Available
      then {unat (me_start e div PAGE_SIZE) ..< unat (me_start e div PAGE_SIZE + me_pages e)} \<inter> {..<MAX_PAGES} else {})"

definition offered :: "boot_info \<Rightarrow> nat set" where
  "offered b = (\<Union>e \<in> set (bi_entries b). entry_pages e)"

lemma offer_entries_count:
  "fold offer_entry es (n, s) = (n', s') \<Longrightarrow> unat n = card (free_pages s) \<Longrightarrow>
     unat n' = card (free_pages s') \<and> free_pages s' = free_pages s \<union> (\<Union>e \<in> set es. entry_pages e) \<and> pm_next_fit s' = pm_next_fit s"
proof (induction es arbitrary: n s)
  case (Cons e es)
  obtain n1 s1 where one: "offer_entry e (n, s) = (n1, s1)" by fastforce
  have st: "unat n1 = card (free_pages s1) \<and> free_pages s1 = free_pages s \<union> entry_pages e \<and> pm_next_fit s1 = pm_next_fit s"
  proof (cases "me_type e = Available")
    case True
    define a where "a = unat (me_start e div PAGE_SIZE)"
    define b where "b = unat (me_start e div PAGE_SIZE + me_pages e)"
    have "fold offer_page [a..<b] (n, s) = (n1, s1)" using one True by (simp add: offer_entry_def Let_def a_def b_def)
    from offer_pages_count [OF this Cons.prems(2)] True show ?thesis
      by (simp only: entry_pages_def a_def [symmetric] b_def [symmetric] set_upt if_True simp_thms)
  next
    case False
    with one Cons.prems(2) show ?thesis by (simp add: offer_entry_def entry_pages_def)
  qed
  have "fold offer_entry es (n1, s1) = (n', s')" using Cons.prems(1) one by simp
  then have "unat n' = card (free_pages s') \<and> free_pages s' = free_pages s1 \<union> (\<Union>e \<in> set es. entry_pages e) \<and>
      pm_next_fit s' = pm_next_fit s1"
    using conjunct1 [OF st] by (rule Cons.IH)
  with st show ?case by (simp add: Un_assoc)
qed simp

lemma bit_from_le_bytes:
  "k < 64 \<Longrightarrow> bit (from_le_bytes bs) k \<longleftrightarrow> k div 8 < length bs \<and> bit (bs ! (k div 8)) (k mod 8)"
proof (induction bs arbitrary: k)
  case (Cons b bs)
  show ?case
  proof (cases "k < 8")
    case True
    then show ?thesis by (simp add: bit_or_iff bit_push_bit_iff bit_ucast_iff)
  next
    case False
    then obtain j where j: "k = j + 8" by (metis add.commute le_Suc_ex not_less)
    have "\<not> bit b k" using False by (auto dest: bit_imp_le_length)
    moreover have "(j + 8) div 8 = Suc (j div 8)" by simp
    ultimately show ?thesis
      using j Cons.prems Cons.IH [of j] by (simp add: bit_or_iff bit_push_bit_iff bit_ucast_iff)
  qed
qed simp

lemma count_zeros_chunk:
  "count_zeros (from_le_bytes (map (pm_bitmap s) [8 * i ..< 8 * i + 8])) =
     length (filter (\<lambda>p. \<not> page_used s p) [64 * i ..< 64 * i + 64])"
proof -
  have bits: "bit (from_le_bytes (map (pm_bitmap s) [8 * i ..< 8 * i + 8])) k \<longleftrightarrow> page_used s (64 * i + k)" if k: "k < 64" for k
  proof -
    have e: "64 * i + k = k + 8 * i * 8" by simp
    have d: "(64 * i + k) div 8 = 8 * i + k div 8" "(64 * i + k) mod 8 = k mod 8"
      unfolding e by (simp_all only: mod_mult_self1 div_mult_self1 zero_neq_numeral not_False_eq_True)
    have "k div 8 < 8" using k by simp
    then show ?thesis using k by (simp only: bit_from_le_bytes page_used_def d) simp
  qed
  have "[64 * i ..< 64 * i + 64] = map (\<lambda>k. 64 * i + k) [0..<64]" by (simp add: map_add_upt add.commute)
  then have "length (filter (\<lambda>p. \<not> page_used s p) [64 * i ..< 64 * i + 64]) =
      length (filter (\<lambda>k. \<not> page_used s (64 * i + k)) [0..<64])" by (simp only: filter_map o_def length_map)
  also have "filter (\<lambda>k. \<not> page_used s (64 * i + k)) [0..<64] =
      filter (\<lambda>k. \<not> bit (from_le_bytes (map (pm_bitmap s) [8 * i ..< 8 * i + 8])) k) [0..<64]"
    using bits by (intro filter_cong) (simp_all only: set_upt atLeastLessThan_iff)
  finally show ?thesis by (simp only: count_zeros_def)
qed

lemma sum_chunks:
  "sum_list (map (\<lambda>i. of_nat (length (filter P [64 * i ..< 64 * i + 64])) :: u64) [0..<n]) =
     of_nat (length (filter P [0 ..< 64 * n]))"
proof (induction n)
  case (Suc n)
  have "[0 ..< 64 * Suc n] = [0 ..< 64 * n] @ [64 * n ..< 64 * n + 64]"
    using upt_add_eq_append [of 0 "64 * n" 64] by (simp add: add.commute)
  with Suc show ?case by simp
qed simp

lemma bitmap_free_card: "ac_bitmap_free (accounting_snapshot s) = of_nat (card (free_pages s))"
proof -
  have n: "64 * (BITMAP_SIZE div 8) = MAX_PAGES" by simp
  have "ac_bitmap_free (accounting_snapshot s) =
      sum_list (map (\<lambda>i. of_nat (length (filter (\<lambda>p. \<not> page_used s p) [64 * i ..< 64 * i + 64]))) [0 ..< BITMAP_SIZE div 8])"
    by (simp only: accounting_snapshot_def accounting.simps count_zeros_chunk)
  also have "\<dots> = of_nat (length (filter (\<lambda>p. \<not> page_used s p) [0 ..< 64 * (BITMAP_SIZE div 8)]))" by (rule sum_chunks)
  also have "length (filter (\<lambda>p. \<not> page_used s p) [0 ..< 64 * (BITMAP_SIZE div 8)]) = card (free_pages s)"
    unfolding n by (subst distinct_card [symmetric]) (auto simp: free_pages_def intro: arg_cong [of _ _ card])
  finally show ?thesis .
qed

lemma pmm_ok_drift: "pmm_ok s \<Longrightarrow> drift (accounting_snapshot s) = 0 \<and> unat (free_page_count s) = card (free_pages s)"
proof -
  assume ok: "pmm_ok s"
  then have le: "pm_used s \<le> pm_total s" by (simp add: pmm_ok_def word_le_nat_alt)
  then have "unat (pm_total s - pm_used s) = unat (pm_total s) - unat (pm_used s)" by (simp add: unat_sub)
  moreover have "unat (pm_used s) + card (free_pages s) = unat (pm_total s)" using ok by (simp add: pmm_ok_def)
  ultimately have n: "unat (pm_total s - pm_used s) = card (free_pages s)" by linarith
  have "of_nat (unat (pm_total s - pm_used s)) = pm_total s - pm_used s" by (rule word_nat_cases) simp
  with n have "pm_total s - pm_used s = of_nat (card (free_pages s))" by simp
  with le n bitmap_free_card [of s] show ?thesis
    by (simp add: drift_def accounting_snapshot_def saturating_sub_def free_page_count_def)
qed

text \<open>After initialisation the free pages are the offered ones outside the four reserved spans.\<close>

definition boot_spans :: "boot_info \<Rightarrow> nat set" where
  "boot_spans b =
     set (kernel_span b) \<union> set (boot_info_span b) \<union> {0..<256} \<union>
     (if bi_rsp b \<noteq> 0 \<and> bi_rsp b < KERNEL_VIRT_BASE
      then {unat (fst (stack_window (bi_rsp b))) .. unat (snd (stack_window (bi_rsp b)))} else {})"

lemma reserve_stack_count:
  assumes "reserve_stack rsp (n, s) = (n', s')" and "unat n + card (free_pages s) \<le> MAX_PAGES"
  shows "unat n' + card (free_pages s') = unat n + card (free_pages s)"
    and "free_pages s' = free_pages s - (if rsp \<noteq> 0 \<and> rsp < KERNEL_VIRT_BASE
      then {unat (fst (stack_window rsp)) .. unat (snd (stack_window rsp))} - {0} else {})"
    and "pm_next_fit s' = pm_next_fit s"
proof -
  obtain lo hi where win: "stack_window rsp = (lo, hi)" by fastforce
  define w where "w = filter (\<lambda>p. p \<noteq> 0) [unat lo ..< Suc (unat hi)]"
  obtain n1 s1 where f: "fold reserve_page w (n, s) = (n1, s1)" by fastforce
  note c = reserve_pages_count [OF f assms(2)]
  define e where "e = s1\<lparr>pm_stack_first := lo * PAGE_SIZE, pm_stack_last := hi * PAGE_SIZE\<rparr>"
  have e: "free_pages e = free_pages s1" "pm_next_fit e = pm_next_fit s1" by (simp_all add: e_def free_pages_def page_used_def)
  have "(n', s') = (if rsp \<noteq> 0 \<and> rsp < KERNEL_VIRT_BASE then (n1, e) else (n, s))"
    unfolding assms(1) [symmetric] reserve_stack_def win Let_def prod.case w_def [symmetric] f e_def ..
  moreover have "set w = {unat (fst (stack_window rsp)) .. unat (snd (stack_window rsp))} - {0}"
    by (auto simp: w_def win)
  ultimately show "unat n' + card (free_pages s') = unat n + card (free_pages s)"
    "free_pages s' = free_pages s - (if rsp \<noteq> 0 \<and> rsp < KERNEL_VIRT_BASE
      then {unat (fst (stack_window rsp)) .. unat (snd (stack_window rsp))} - {0} else {})"
    "pm_next_fit s' = pm_next_fit s"
    using c(1,2,5) e by (auto split: if_splits)
qed

lemma pmm_init_ok: "pmm_ok (pmm_init b pmm_static) \<and> free_pages (pmm_init b pmm_static) = offered b - boot_spans b"
proof -
  have start: "free_pages pmm_static = {}"
    using full_no_free [of pmm_static] by (simp add: pmm_static_def)
  obtain t s1 where a: "fold offer_entry (bi_entries b) (0, pmm_static) = (t, s1)" by fastforce
  have t: "unat t = card (free_pages s1)" "free_pages s1 = offered b" "pm_next_fit s1 = 0"
    using offer_entries_count [OF a] start by (simp_all add: offered_def pmm_static_def)
  define s2 where "s2 = s1\<lparr>pm_image_base := bi_kernel_base b, pm_image_end := kernel_end_phys b\<rparr>"
  have s2: "free_pages s2 = free_pages s1" "pm_next_fit s2 = 0" by (simp_all add: s2_def free_pages_def page_used_def t(3))
  obtain n3 s3 where k: "fold reserve_page (kernel_span b) (0, s2) = (n3, s3)" by fastforce
  obtain n4 s4 where i: "fold reserve_page (boot_info_span b) (n3, s3) = (n4, s4)" by fastforce
  obtain n5 s5 where l: "fold reserve_page [0..<256] (n4, s4) = (n5, s5)" by fastforce
  obtain n6 s6 where st: "reserve_stack (bi_rsp b) (n5, s5) = (n6, s6)" by fastforce
  have m2: "unat (0 :: u64) + card (free_pages s2) \<le> MAX_PAGES" using card_free_le [of s2] by simp
  note c3 = reserve_pages_count [OF k m2]
  have m3: "unat n3 + card (free_pages s3) \<le> MAX_PAGES" using c3(1) m2 by linarith
  note c4 = reserve_pages_count [OF i m3]
  have m4: "unat n4 + card (free_pages s4) \<le> MAX_PAGES" using c4(1) m3 by linarith
  note c5 = reserve_pages_count [OF l m4]
  have m5: "unat n5 + card (free_pages s5) \<le> MAX_PAGES" using c5(1) m4 by linarith
  note c6 = reserve_stack_count [OF st m5]
  define r where "r = s6\<lparr>pm_total := t, pm_used := n6, pm_reserved := n6\<rparr>"
  have init: "pmm_init b pmm_static = r"
    unfolding pmm_init_def a Let_def prod.case s2_def [symmetric] k i l st r_def ..
  have r: "free_pages r = free_pages s6" "pm_next_fit r = pm_next_fit s6" by (simp_all add: r_def free_pages_def page_used_def)
  have "unat n6 + card (free_pages s6) = unat t"
    using c3(1) c4(1) c5(1) c6(1) t(1) s2(1) by simp
  moreover have "pm_next_fit s6 = 0" using c3(5) c4(5) c5(5) c6(3) s2(2) by simp
  moreover have "unat t \<le> MAX_PAGES" using t(1) card_free_le [of s1] by simp
  ultimately have "pmm_ok r" using r by (simp add: pmm_ok_def) (simp add: r_def)
  moreover have "free_pages r = offered b - boot_spans b"
    unfolding r(1) c6(2) c5(2) c4(2) c3(2) s2(1) t(2) by (auto simp: boot_spans_def)
  ultimately show ?thesis using init by simp
qed

lemma page_address: "p < MAX_PAGES \<Longrightarrow> pfn (of_nat (p * 4096)) = p \<and> (of_nat (p * 4096) :: u64) AND 0xFFF = 0"
proof -
  assume p: "p < MAX_PAGES"
  define a where "a = (of_nat (p * 4096) :: u64)"
  have u: "unat a = p * 4096" unfolding a_def by (rule unat_of_nat_small) (use p in simp)
  have "unat (a AND 0xFFF) = 0" by (simp only: unat_and_fff u) simp
  then have "a AND 0xFFF = 0" by (simp only: unat_eq_0)
  moreover have "pfn a = p" using u by (simp add: pfn_def unat_div)
  ultimately show ?thesis by (simp only: a_def)
qed

text \<open>
  C20: Single frames are allocated exactly as long as there are any. With the cursor in range, the
  next-fit search returns nothing exactly when no frame below 4 GiB is free, and then changes nothing;
  otherwise it returns the address of a frame that was free, marks that frame and no other, counts it,
  and leaves the cursor in range.\<close>

theorem alloc_page_spec:
  assumes "unat (pm_next_fit s) < BITMAP_SIZE" and "alloc_page_locked s = (r, s')"
  shows "(r = None \<longleftrightarrow> free_pages s = {}) \<and> (r = None \<longrightarrow> s' = s) \<and>
    (\<forall>a. r = Some a \<longrightarrow> pfn a \<in> free_pages s \<and> a AND 0xFFF = 0 \<and> free_pages s' = free_pages s - {pfn a} \<and>
       pm_used s' = pm_used s + 1 \<and> unat (pm_next_fit s') < BITMAP_SIZE)"
  using alloc_page_cases [OF assms(1)]
proof (elim disjE bexE exE conjE)
  assume "free_pages s = {}" and "alloc_page_locked s = (None, s)"
  with assms(2) show ?thesis by simp
next
  fix p s''
  assume p: "p \<in> free_pages s" and a: "alloc_page_locked s = (Some (of_nat (p * 4096)), s'')"
    and rest: "free_pages s'' = free_pages s - {p}" "pm_used s'' = pm_used s + 1" "unat (pm_next_fit s'') < BITMAP_SIZE"
  define addr where "addr = (of_nat (p * 4096) :: u64)"
  have "pfn addr = p \<and> addr AND 0xFFF = 0" using page_address [of p] p by (simp only: addr_def free_pages_def mem_Collect_eq)
  moreover have "r = Some addr" "s' = s''" using a assms(2) by (simp_all only: addr_def prod.inject)
  ultimately show ?thesis using p rest by auto
qed

theorem alloc_page_spec_witness:
  "\<exists>r s'. alloc_page_locked (mark_page_free 300 pmm_static) = (r, s') \<and> (r = None \<longleftrightarrow> free_pages (mark_page_free 300 pmm_static) = {})"
proof -
  obtain r s' where a: "alloc_page_locked (mark_page_free 300 pmm_static) = (r, s')" by fastforce
  have "unat (pm_next_fit (mark_page_free 300 pmm_static)) < BITMAP_SIZE" by (simp add: pmm_static_def)
  from alloc_page_spec [OF this a] a show ?thesis by blast
qed

text \<open>
  C21: Runs of frames are allocated first-fit. A request for \<open>n\<close> consecutive frames, \<open>n\<close> positive, fails
  exactly when no \<open>n\<close> consecutive frames are free, and then changes nothing; otherwise it takes the
  lowest such run, marks its frames and no others, and counts them.\<close>

theorem alloc_pages_spec:
  assumes "0 < n" and "alloc_pages n s = (r, s')"
  shows "(r = None \<longleftrightarrow> (\<forall>st. \<not> free_run s n st)) \<and> (r = None \<longrightarrow> s' = s) \<and>
    (\<forall>a. r = Some a \<longrightarrow>
       (\<exists>st. a = of_nat (st * 4096) \<and> free_run s n st \<and> (\<forall>st' < st. \<not> free_run s n st') \<and>
          free_pages s' = free_pages s - {st ..< st + n} \<and> pm_used s' = pm_used s + of_nat n))"
  using alloc_pages_cases [OF assms(1), of s] assms(2) unfolding runs_taken_def by fastforce

theorem alloc_pages_spec_witness:
  "\<exists>r s'. alloc_pages 2 (mark_page_free 300 pmm_static) = (r, s') \<and>
     (r = None \<longleftrightarrow> (\<forall>st. \<not> free_run (mark_page_free 300 pmm_static) 2 st))"
proof -
  obtain r s' where a: "alloc_pages 2 (mark_page_free 300 pmm_static) = (r, s')" by fastforce
  from alloc_pages_spec [OF _ a] a show ?thesis by auto
qed

end
