(* ===== verification/Pmm_Dma.thy ===== *)
theory Pmm_Dma
  imports Pmm_Bitmap
begin

text \<open>
  Freeing a frame, and the pins that devices hold on frames they transfer to (\<open>free_page\<close>,
  \<open>try_alloc_page\<close> and \<open>alloc_page\<close> of \<open>mm/pmm.rs\<close>, and \<open>mm/dma_pin.rs\<close>). A frame that is freed while
  it is pinned is only marked; the last unpin frees it, at once or, in an interrupt handler, through a
  ring of 256 deferred frees that later operations drain. The slot of a frame holds the pin count in 31
  bits and the mark in the top bit; each compare-and-swap loop on a slot is one step, with the value it
  finally saw. The tick count, and what the out-of-memory killer does, are arguments.
\<close>

section \<open>State\<close>

abbreviation COUNT_MASK :: u32 where "COUNT_MASK \<equiv> 0x7FFFFFFF"
abbreviation FREE_PENDING :: u32 where "FREE_PENDING \<equiv> 0x80000000"
abbreviation DEFERRED_CAP :: nat where "DEFERRED_CAP \<equiv> 256"
abbreviation IDLE_DRAIN_INTERVAL_TICKS :: u64 where "IDLE_DRAIN_INTERVAL_TICKS \<equiv> 100"

text \<open>The pin table has \<open>MAX_PAGES\<close> slots and exists after \<open>dma_init\<close>.\<close>

record frames =
  fr_pmm :: pmm
  fr_refs :: rc_table
  fr_pins :: "(nat \<Rightarrow> u32) option"
  fr_deferred :: "u64 list"
  fr_cursor :: u64
  fr_overflow :: u64
  fr_freed :: u64
  fr_frees_deferred :: u64
  fr_last_drain :: u64

definition dma_init :: "frames \<Rightarrow> frames" where
  "dma_init s = (case fr_pins s of None \<Rightarrow> s\<lparr>fr_pins := Some (\<lambda>_. 0)\<rparr> | Some _ \<Rightarrow> s)"

definition page_span :: "u64 \<Rightarrow> u64 \<Rightarrow> u64 \<times> u64" where
  "page_span phys len =
     (if len = 0 then (phys div PAGE_SIZE, 0)
      else (let first = phys div PAGE_SIZE; last = (phys + len - 1) div PAGE_SIZE in (first, last - first + 1)))"

definition pin_frame :: "u64 \<Rightarrow> frames \<Rightarrow> frames" where
  "pin_frame phys s =
     (case fr_pins s of
        None \<Rightarrow> s
      | Some pins \<Rightarrow>
          if pfn phys < MAX_PAGES then s\<lparr>fr_pins := Some (pins(pfn phys := pins (pfn phys) + 1))\<rparr> else s)"

definition span_addresses :: "u64 \<Rightarrow> u64 \<Rightarrow> u64 list" where
  "span_addresses phys len =
     (let (first, count) = page_span phys len in map (\<lambda>i. (first + of_nat i) * PAGE_SIZE) [0 ..< unat count])"

definition pin_range :: "u64 \<Rightarrow> u64 \<Rightarrow> frames \<Rightarrow> frames" where
  "pin_range phys len s = fold pin_frame (span_addresses phys len) s"

definition pin_count :: "u64 \<Rightarrow> frames \<Rightarrow> u32" where
  "pin_count phys s =
     (case fr_pins s of
        None \<Rightarrow> 0
      | Some pins \<Rightarrow> if pfn phys < MAX_PAGES then pins (pfn phys) AND COUNT_MASK else 0)"

definition is_pinned :: "u64 \<Rightarrow> frames \<Rightarrow> bool" where
  "is_pinned phys s \<longleftrightarrow> 0 < pin_count phys s"

definition mark_free_pending_if_pinned :: "u64 \<Rightarrow> frames \<Rightarrow> bool \<times> frames" where
  "mark_free_pending_if_pinned phys s =
     (case fr_pins s of
        None \<Rightarrow> (False, s)
      | Some pins \<Rightarrow>
          if MAX_PAGES \<le> pfn phys then (False, s)
          else
            (let cur = pins (pfn phys)
             in if cur AND COUNT_MASK = 0 then (False, s)
                else if cur AND FREE_PENDING \<noteq> 0 then (True, s)
                else (True, s\<lparr>fr_pins := Some (pins(pfn phys := cur OR FREE_PENDING)),
                              fr_frees_deferred := fr_frees_deferred s + 1\<rparr>)))"

section \<open>Freeing\<close>

definition free_page :: "u64 \<Rightarrow> frames \<Rightarrow> frames" where
  "free_page phys s =
     (let page = pfn phys; p = fr_pmm s
      in if MAX_PAGES \<le> page then s
         else if is_kernel_static_phys phys p then s\<lparr>fr_pmm := p\<lparr>pm_static_refused := pm_static_refused p + 1\<rparr>\<rparr>
         else if 0 < pte_share_count phys (fr_refs s) then s\<lparr>fr_pmm := p\<lparr>pm_residual_refs := pm_residual_refs p + 1\<rparr>\<rparr>
         else
           (case mark_free_pending_if_pinned phys s of
              (True, s1) \<Rightarrow> s1
            | (False, s1) \<Rightarrow>
                if is_page_used_locked page p
                then s1\<lparr>fr_pmm := (mark_page_free page p)\<lparr>pm_used := pm_used p - 1\<rparr>\<rparr>
                else s1\<lparr>fr_pmm := p\<lparr>pm_already_free := pm_already_free p + 1\<rparr>\<rparr>))"

datatype unpin_result = NoFree | FreeDue | Underflow

definition unpin_ledger :: "u64 \<Rightarrow> frames \<Rightarrow> unpin_result \<times> frames" where
  "unpin_ledger phys s =
     (case fr_pins s of
        None \<Rightarrow> (NoFree, s)
      | Some pins \<Rightarrow>
          if MAX_PAGES \<le> pfn phys then (NoFree, s)
          else
            (let cur = pins (pfn phys); cnt = cur AND COUNT_MASK; pending = cur AND FREE_PENDING
             in if cnt = 0 then (Underflow, s)
                else
                  (let new_count = cnt - 1; new_val = (if new_count = 0 then 0 else pending OR new_count)
                   in (if new_count = 0 \<and> pending \<noteq> 0 then FreeDue else NoFree,
                       s\<lparr>fr_pins := Some (pins(pfn phys := new_val))\<rparr>))))"

text \<open>The first free slot of the ring, from the cursor on; a full ring leaks the frame.\<close>

definition push_deferred :: "u64 \<Rightarrow> frames \<Rightarrow> frames" where
  "push_deferred phys s =
     (if phys = 0 then s
      else
        (let start = fr_cursor s; s1 = s\<lparr>fr_cursor := start + 1\<rparr>
         in case List.find (\<lambda>i. fr_deferred s ! (unat (start + of_nat i) mod DEFERRED_CAP) = 0) [0 ..< DEFERRED_CAP] of
              Some i \<Rightarrow> s1\<lparr>fr_deferred := (fr_deferred s)[unat (start + of_nat i) mod DEFERRED_CAP := phys]\<rparr>
            | None \<Rightarrow> s1\<lparr>fr_overflow := fr_overflow s + 1\<rparr>))"

definition unpin :: "u64 \<Rightarrow> bool \<Rightarrow> frames \<Rightarrow> frames" where
  "unpin phys can_free_now s =
     (case unpin_ledger phys s of
        (FreeDue, s1) \<Rightarrow>
          if can_free_now then free_page phys (s1\<lparr>fr_freed := fr_freed s1 + 1\<rparr>) else push_deferred phys s1
      | (_, s1) \<Rightarrow> s1)"

definition drain_slot :: "nat \<Rightarrow> frames \<Rightarrow> frames" where
  "drain_slot i s =
     (let phys = fr_deferred s ! i
      in if phys = 0 then s
         else free_page phys (s\<lparr>fr_deferred := (fr_deferred s)[i := 0], fr_freed := fr_freed s + 1\<rparr>))"

definition drain_deferred :: "frames \<Rightarrow> frames" where
  "drain_deferred s = fold drain_slot [0 ..< DEFERRED_CAP] s"

definition unpin_range :: "u64 \<Rightarrow> u64 \<Rightarrow> bool \<Rightarrow> frames \<Rightarrow> frames" where
  "unpin_range phys len can_free_now s =
     fold (\<lambda>a. unpin a can_free_now) (span_addresses phys len) (if can_free_now then drain_deferred s else s)"

definition drain_deferred_if_due :: "u64 \<Rightarrow> frames \<Rightarrow> frames" where
  "drain_deferred_if_due now s =
     (if now - fr_last_drain s < IDLE_DRAIN_INTERVAL_TICKS then s else drain_deferred (s\<lparr>fr_last_drain := now\<rparr>))"

definition dma_stats :: "frames \<Rightarrow> u64 \<times> u64 \<times> u64" where
  "dma_stats s = (fr_frees_deferred s, fr_freed s, fr_overflow s)"

section \<open>Allocation through the interface\<close>

definition alloc_locked :: "frames \<Rightarrow> u64 option \<times> frames" where
  "alloc_locked s = (let (r, p) = alloc_page_locked (fr_pmm s) in (r, s\<lparr>fr_pmm := p\<rparr>))"

definition try_alloc_page :: "u64 \<Rightarrow> frames \<Rightarrow> u64 option \<times> frames" where
  "try_alloc_page now s = alloc_locked (drain_deferred_if_due now s)"

definition alloc_page :: "u64 \<Rightarrow> (frames \<Rightarrow> bool \<times> frames) \<Rightarrow> frames \<Rightarrow> u64 option \<times> frames" where
  "alloc_page now oom s =
     (case try_alloc_page now s of
        (Some a, s1) \<Rightarrow> (Some a, s1)
      | (None, s1) \<Rightarrow>
          (let (killed, s2) = oom (s1\<lparr>fr_pmm := (fr_pmm s1)\<lparr>pm_exhausted := pm_exhausted (fr_pmm s1) + 1\<rparr>\<rparr>)
           in if killed then alloc_locked s2 else (None, s2)))"

section \<open>Histories\<close>

datatype frame_op =
    TryAlloc u64 | AllocPage u64 bool "u64 list" | AllocRun nat | FreePage u64 | ReserveRange u64 u64 | PinRange u64 u64
  | UnpinRange u64 u64 bool | DrainDue u64 | RefInc u64 | RefDec u64

text \<open>
  Operations in any order. In \<open>AllocPage\<close> the out-of-memory killer finds a victim or not, and the victim's
  exit frees a list of frames.
\<close>

fun frame_step :: "frame_op \<Rightarrow> frames \<Rightarrow> frames" where
  "frame_step (TryAlloc now) s = snd (try_alloc_page now s)"
| "frame_step (AllocPage now killed frees) s = snd (alloc_page now (\<lambda>t. (killed, fold free_page frees t)) s)"
| "frame_step (AllocRun n) s = s\<lparr>fr_pmm := snd (alloc_pages n (fr_pmm s))\<rparr>"
| "frame_step (FreePage phys) s = free_page phys s"
| "frame_step (ReserveRange a b) s = s\<lparr>fr_pmm := reserve_range a b (fr_pmm s)\<rparr>"
| "frame_step (PinRange phys len) s = pin_range phys len s"
| "frame_step (UnpinRange phys len now) s = unpin_range phys len now s"
| "frame_step (DrainDue now) s = drain_deferred_if_due now s"
| "frame_step (RefInc phys) s = (case page_ref_inc phys (fr_refs s) of Some t \<Rightarrow> s\<lparr>fr_refs := t\<rparr> | None \<Rightarrow> s)"
| "frame_step (RefDec phys) s = (case page_ref_dec phys (fr_refs s) of Some (_, t) \<Rightarrow> s\<lparr>fr_refs := t\<rparr> | None \<Rightarrow> s)"

text \<open>
  What the allocator leaves to its callers: a frame that is freed is one of the frames \<open>D\<close> that the firmware
  offered, and the frames a driver pins are offered ones that are in use, since a buffer lies in them.
  Neither \<open>free_page\<close> nor \<open>pin\<close> checks it.
\<close>

fun frame_op_ok :: "nat set \<Rightarrow> frame_op \<Rightarrow> frames \<Rightarrow> bool" where
  "frame_op_ok D (FreePage phys) s \<longleftrightarrow> pfn phys \<in> D"
| "frame_op_ok D (AllocPage now killed frees) s \<longleftrightarrow> (\<forall>a \<in> set frees. pfn a \<in> D)"
| "frame_op_ok D (PinRange phys len) s \<longleftrightarrow> (\<forall>a \<in> set (span_addresses phys len). pfn a \<in> D \<and> page_used (fr_pmm s) (pfn a))"
| "frame_op_ok D _ s \<longleftrightarrow> True"

fun history_ok :: "nat set \<Rightarrow> frame_op list \<Rightarrow> frames \<Rightarrow> bool" where
  "history_ok D [] s \<longleftrightarrow> True"
| "history_ok D (op # ops) s \<longleftrightarrow> frame_op_ok D op s \<and> history_ok D ops (frame_step op s)"

definition frames_start :: "boot_info \<Rightarrow> frames" where
  "frames_start b =
     dma_init
       \<lparr>fr_pmm = pmm_init b pmm_static, fr_refs = refcount_init None, fr_pins = None, fr_deferred = replicate DEFERRED_CAP 0,
        fr_cursor = 0, fr_overflow = 0, fr_freed = 0, fr_frees_deferred = 0, fr_last_drain = 0\<rparr>"

definition frame_run :: "boot_info \<Rightarrow> frame_op list \<Rightarrow> frames" where
  "frame_run b ops = fold frame_step ops (frames_start b)"

section \<open>The pool of frames\<close>

text \<open>The free frames are among the frames \<open>D\<close> of the firmware, which the totals count.\<close>

definition pool_ok :: "nat set \<Rightarrow> pmm \<Rightarrow> bool" where
  "pool_ok D p \<longleftrightarrow> pmm_ok p \<and> free_pages p \<subseteq> D \<and> D \<subseteq> {..<MAX_PAGES} \<and> card D = unat (pm_total p)"

lemma pool_ok_cong:
  assumes "pool_ok D p" and "pm_bitmap p' = pm_bitmap p" and "pm_used p' = pm_used p" and "pm_total p' = pm_total p"
    and "pm_next_fit p' = pm_next_fit p"
  shows "pool_ok D p'" and "free_pages p' = free_pages p"
  using assms free_cong [OF assms(2)] by (simp_all add: pool_ok_def pmm_ok_def)

text \<open>An operation that takes \<open>k\<close> free frames and counts them keeps the pool.\<close>

lemma pool_ok_take:
  assumes "pool_ok D p" and "free_pages p' \<subseteq> free_pages p" and "unat (k :: u64) + card (free_pages p') = card (free_pages p)"
    and "pm_used p' = pm_used p + k" and "pm_total p' = pm_total p" and "unat (pm_next_fit p') < BITMAP_SIZE"
  shows "pool_ok D p'"
proof -
  have c: "unat (pm_used p) + card (free_pages p) = unat (pm_total p)" "unat (pm_total p) \<le> MAX_PAGES"
    using assms(1) by (simp_all add: pool_ok_def pmm_ok_def)
  then have "unat (pm_used p) + unat k \<le> MAX_PAGES" using assms(3) by linarith
  then have "unat (pm_used p + k) = unat (pm_used p) + unat k" by (intro unat_add_lem [THEN iffD1]) simp
  then have "unat (pm_used p') + card (free_pages p') = unat (pm_total p')" using assms(3-5) c(1) by simp
  with assms c show ?thesis unfolding pool_ok_def pmm_ok_def by auto
qed

lemma alloc_page_locked_pool:
  assumes "pool_ok D p" and "alloc_page_locked p = (r, p')"
  shows "pool_ok D p' \<and> free_pages p' \<subseteq> free_pages p"
proof -
  have "unat (pm_next_fit p) < BITMAP_SIZE" using assms(1) by (simp add: pool_ok_def pmm_ok_def)
  from alloc_page_cases [OF this] show ?thesis
  proof (elim disjE bexE exE conjE)
    assume "alloc_page_locked p = (None, p)"
    with assms show ?thesis by simp
  next
    fix q s'
    assume q: "q \<in> free_pages p" and a: "alloc_page_locked p = (Some (of_nat (q * 4096)), s')"
      and f: "free_pages s' = free_pages p - {q}" and u: "pm_used s' = pm_used p + 1" "pm_total s' = pm_total p"
        "unat (pm_next_fit s') < BITMAP_SIZE"
    have "0 < card (free_pages p)" using q by (auto simp: card_gt_0_iff)
    then have "unat (1 :: u64) + card (free_pages s') = card (free_pages p)" using q f by simp
    moreover have "free_pages s' \<subseteq> free_pages p" using f by blast
    moreover have "p' = s'" using a assms(2) by simp
    ultimately show ?thesis using pool_ok_take [OF assms(1) _ _ u] by blast
  qed
qed

lemma alloc_pages_pool:
  assumes "pool_ok D p"
  shows "pool_ok D (snd (alloc_pages n p)) \<and> free_pages (snd (alloc_pages n p)) \<subseteq> free_pages p"
proof (cases "0 < n")
  case True
  from alloc_pages_cases [OF this, of p] show ?thesis
  proof (elim disjE exE conjE)
    assume "alloc_pages n p = (None, p)"
    with assms show ?thesis by simp
  next
    fix st s'
    assume a: "alloc_pages n p = (Some (of_nat (st * 4096)), s')" and t: "runs_taken p n st s'"
    have r: "{st ..< st + n} \<subseteq> free_pages p" and n: "n \<le> MAX_PAGES"
      using t by (auto simp: runs_taken_def free_run_def free_pages_def)
    have f: "free_pages s' = free_pages p - {st ..< st + n}" using t by (simp add: runs_taken_def)
    have "card (free_pages s') = card (free_pages p) - n" using r by (simp add: f card_Diff_subset)
    moreover have "n \<le> card (free_pages p)" using card_mono [OF _ r] by simp
    moreover have "unat (of_nat n :: u64) = n" by (rule unat_of_nat_small) (use n in simp)
    ultimately have "unat (of_nat n :: u64) + card (free_pages s') = card (free_pages p)" by simp
    moreover have "unat (pm_next_fit s') < BITMAP_SIZE" using t assms by (simp add: runs_taken_def pool_ok_def pmm_ok_def)
    ultimately have "pool_ok D s'" using t f by (intro pool_ok_take [OF assms]) (auto simp: runs_taken_def)
    with a f show ?thesis by auto
  qed
qed (use assms in \<open>simp add: alloc_pages_def\<close>)

lemma reserve_range_pool:
  assumes "pool_ok D p"
  shows "pool_ok D (reserve_range a b p) \<and> free_pages (reserve_range a b p) \<subseteq> free_pages p"
proof -
  define ps where "ps = [unat (a div PAGE_SIZE) ..< unat ((b + PAGE_SIZE - 1) div PAGE_SIZE)]"
  obtain n s' where f: "fold reserve_page ps (0, p) = (n, s')" by fastforce
  have "unat (0 :: u64) + card (free_pages p) \<le> MAX_PAGES" using card_free_le [of p] by simp
  note c = reserve_pages_count [OF f this]
  define r where "r = (if 0 < n then s'\<lparr>pm_used := pm_used s' + n, pm_reserved := pm_reserved s' + n\<rparr> else s')"
  have r: "reserve_range a b p = r" unfolding reserve_range_def Let_def ps_def [symmetric] f prod.case r_def ..
  have fr: "free_pages r = free_pages s'" by (rule free_cong) (simp add: r_def)
  have "pm_used r = pm_used p + n" using c(4) by (auto simp: r_def word_gt_0)
  moreover have "pm_total r = pm_total p" "pm_next_fit r = pm_next_fit p" using c(3,5) by (simp_all add: r_def)
  moreover have "unat (pm_next_fit p) < BITMAP_SIZE" using assms by (simp add: pool_ok_def pmm_ok_def)
  moreover have "free_pages r \<subseteq> free_pages p" using fr c(2) by blast
  moreover have "unat n + card (free_pages r) = card (free_pages p)" using fr c(1) by simp
  ultimately show ?thesis using pool_ok_take [OF assms, of r n] r by simp
qed

text \<open>Freeing a frame of \<open>D\<close> that is in use keeps the pool, since the counter is then positive.\<close>

lemma mark_free_pool:
  assumes "pool_ok D p" and "q \<in> D" and "page_used p q"
  shows "pool_ok D ((mark_page_free q p)\<lparr>pm_used := pm_used p - 1\<rparr>) \<and>
    free_pages ((mark_page_free q p)\<lparr>pm_used := pm_used p - 1\<rparr>) = insert q (free_pages p)"
proof -
  define r where "r = (mark_page_free q p)\<lparr>pm_used := pm_used p - 1\<rparr>"
  have q: "q < MAX_PAGES" "q \<notin> free_pages p" using assms by (auto simp: pool_ok_def free_pages_def)
  have f: "free_pages r = insert q (free_pages p)"
    using free_cong [of r "mark_page_free q p"] free_mark_free [OF q(1), of p] by (simp add: r_def)
  have D: "finite D" "free_pages p \<subset> D" using assms(1,2) q(2) by (auto simp: pool_ok_def intro: finite_subset)
  have c: "unat (pm_used p) + card (free_pages p) = unat (pm_total p)" "card D = unat (pm_total p)"
    using assms(1) by (simp_all add: pool_ok_def pmm_ok_def)
  then have pos: "0 < unat (pm_used p)" using psubset_card_mono [OF D] by linarith
  then have "unat (pm_used p - 1) = unat (pm_used p) - 1" by (simp add: unat_gt_0 unat_minus_one)
  moreover have "card (free_pages r) = card (free_pages p) + 1" using f q(2) by simp
  ultimately have "unat (pm_used r) + card (free_pages r) = unat (pm_total r)" using pos c(1) by (simp add: r_def)
  then have "pool_ok D r" using assms(1,2) f by (auto simp: pool_ok_def pmm_ok_def) (simp_all add: r_def)
  with f show ?thesis by (simp only: r_def)
qed

section \<open>The pin slots\<close>

lemma pending_bit: "w AND FREE_PENDING \<noteq> 0 \<longleftrightarrow> bit w 31" for w :: u32
proof -
  have "FREE_PENDING = (2 :: u32) ^ 31" by simp
  then show ?thesis by (simp only: and_exp_eq_0_iff_not_bit not_not)
qed

lemma count_mask: "COUNT_MASK = (Bit_Operations.mask 31 :: u32)"
  by (simp add: mask_eq_exp_minus_1)

lemma unat_count: "unat (w AND COUNT_MASK) = unat w mod 2 ^ 31" for w :: u32
  unfolding count_mask take_bit_eq_mask [symmetric] by (simp only: take_bit_eq_mod unat_mod) simp

lemma bit_31: "bit w 31 \<longleftrightarrow> 2 ^ 31 \<le> unat w" for w :: u32
proof -
  have "unat w < 2 ^ 32" using unsigned_less [of w] by simp
  then have "unat w div 2 ^ 31 < 2" by simp
  then have "odd (unat w div 2 ^ 31) \<longleftrightarrow> unat w div 2 ^ 31 \<noteq> 0" by (auto simp: less_2_cases_iff simp del: div_eq_0_iff)
  moreover have "bit w 31 \<longleftrightarrow> bit (unat w) 31" by (simp add: bit_unsigned_iff)
  ultimately show ?thesis by (simp only: bit_iff_odd [of "unat w"] div_eq_0_iff) auto
qed

lemma small_not_pending: "unat w < 2 ^ 31 \<Longrightarrow> \<not> bit w 31 \<and> w AND COUNT_MASK = w" for w :: u32
  by (simp only: bit_31 word_unat_eq_iff unat_count) simp

lemma count_of_marked: "(w OR FREE_PENDING) AND COUNT_MASK = w AND COUNT_MASK" for w :: u32
  by (simp only: bit.conj_disj_distrib2) simp

lemma marked_count: "unat w < 2 ^ 31 \<Longrightarrow> (FREE_PENDING OR w) AND COUNT_MASK = w \<and> bit (FREE_PENDING OR w) 31" for w :: u32
  using small_not_pending [of w] by (simp only: bit.conj_disj_distrib2 bit_or_iff) simp

lemma unat_count_dec: "w AND COUNT_MASK \<noteq> 0 \<Longrightarrow> unat ((w AND COUNT_MASK) - 1) < 2 ^ 31" for w :: u32
proof -
  assume "w AND COUNT_MASK \<noteq> 0"
  then have "unat ((w AND COUNT_MASK) - 1) = unat (w AND COUNT_MASK) - 1" by (rule unat_minus_one)
  moreover have "unat (w AND COUNT_MASK) < 2 ^ 31" by (simp only: unat_count) simp
  ultimately show ?thesis by simp
qed

section \<open>The invariant\<close>

text \<open>
  A mark stands only on frames of \<open>D\<close>, a pinned frame is not free, and the ring holds addresses of
  frames of \<open>D\<close>.
\<close>

definition slot_ok :: "nat set \<Rightarrow> nat set \<Rightarrow> nat \<Rightarrow> u32 \<Rightarrow> bool" where
  "slot_ok D F i w \<longleftrightarrow> (bit w 31 \<longrightarrow> i \<in> D) \<and> (w AND COUNT_MASK \<noteq> 0 \<longrightarrow> i \<notin> F)"

definition frames_ok :: "nat set \<Rightarrow> frames \<Rightarrow> bool" where
  "frames_ok D s \<longleftrightarrow> pool_ok D (fr_pmm s) \<and>
     (\<forall>pins. fr_pins s = Some pins \<longrightarrow> (\<forall>i < MAX_PAGES. slot_ok D (free_pages (fr_pmm s)) i (pins i))) \<and>
     length (fr_deferred s) = DEFERRED_CAP \<and> (\<forall>a \<in> set (fr_deferred s). a \<noteq> 0 \<longrightarrow> pfn a \<in> D)"

lemma slot_ok_mono: "slot_ok D F i w \<Longrightarrow> F' \<subseteq> F \<Longrightarrow> slot_ok D F' i w"
  by (auto simp: slot_ok_def)

lemma frames_ok_take:
  assumes "frames_ok D s" and "pool_ok D p" and "free_pages p \<subseteq> free_pages (fr_pmm s)"
  shows "frames_ok D (s\<lparr>fr_pmm := p\<rparr>)"
  using assms slot_ok_mono unfolding frames_ok_def by fastforce

lemma frames_ok_slot:
  assumes "frames_ok D s" and "fr_pins s = Some pins" and "slot_ok D (free_pages (fr_pmm s)) i w"
  shows "frames_ok D (s\<lparr>fr_pins := Some (pins(i := w))\<rparr>)"
  using assms by (auto simp: frames_ok_def)

lemma frames_ok_counters:
  "frames_ok D (s\<lparr>fr_cursor := c\<rparr>) = frames_ok D s" "frames_ok D (s\<lparr>fr_overflow := c\<rparr>) = frames_ok D s"
  "frames_ok D (s\<lparr>fr_freed := c\<rparr>) = frames_ok D s" "frames_ok D (s\<lparr>fr_frees_deferred := c\<rparr>) = frames_ok D s"
  "frames_ok D (s\<lparr>fr_last_drain := c\<rparr>) = frames_ok D s" "frames_ok D (s\<lparr>fr_refs := t\<rparr>) = frames_ok D s"
  by (simp_all add: frames_ok_def)

lemma frames_ok_ring:
  assumes "frames_ok D s" and "a = 0 \<or> pfn a \<in> D"
  shows "frames_ok D (s\<lparr>fr_deferred := (fr_deferred s)[i := a]\<rparr>)"
  using assms set_update_subset_insert [of "fr_deferred s" i a] by (auto simp: frames_ok_def)

lemma mark_pending_ok:
  assumes "frames_ok D s" and "pfn phys \<in> D" and "mark_free_pending_if_pinned phys s = (r, s')"
  shows "frames_ok D s' \<and> fr_pmm s' = fr_pmm s \<and> (\<not> r \<longrightarrow> s' = s \<and> pin_count phys s = 0)"
proof (cases "fr_pins s")
  case None
  with assms show ?thesis by (simp add: mark_free_pending_if_pinned_def pin_count_def)
next
  case (Some pins)
  have i: "pfn phys < MAX_PAGES" using assms(1,2) by (auto simp: frames_ok_def pool_ok_def)
  define w where "w = pins (pfn phys)"
  have "slot_ok D (free_pages (fr_pmm s)) (pfn phys) w" using assms(1) Some i by (simp add: frames_ok_def w_def)
  then have "slot_ok D (free_pages (fr_pmm s)) (pfn phys) (w OR FREE_PENDING)"
    using assms(2) unfolding slot_ok_def count_of_marked by blast
  then have "frames_ok D (s\<lparr>fr_pins := Some (pins(pfn phys := w OR FREE_PENDING))\<rparr>)" by (rule frames_ok_slot [OF assms(1) Some])
  then have "frames_ok D (s\<lparr>fr_pins := Some (pins(pfn phys := w OR FREE_PENDING)), fr_frees_deferred := c\<rparr>)" for c
    by (simp only: frames_ok_counters)
  then show ?thesis using assms(1,3) Some i
    by (auto simp: mark_free_pending_if_pinned_def pin_count_def Let_def w_def [symmetric] split: if_splits)
qed

lemma free_page_ok:
  assumes "frames_ok D s" and "pfn phys \<in> D"
  shows "frames_ok D (free_page phys s)"
proof -
  have i: "pfn phys < MAX_PAGES" and pool: "pool_ok D (fr_pmm s)" using assms by (auto simp: frames_ok_def pool_ok_def)
  obtain r s1 where m: "mark_free_pending_if_pinned phys s = (r, s1)" by fastforce
  note ok = mark_pending_ok [OF assms m]
  have refuse: "frames_ok D (s\<lparr>fr_pmm := p\<rparr>)" if "pm_bitmap p = pm_bitmap (fr_pmm s)" "pm_used p = pm_used (fr_pmm s)"
    "pm_total p = pm_total (fr_pmm s)" "pm_next_fit p = pm_next_fit (fr_pmm s)" for p
    using frames_ok_take [OF assms(1)] pool_ok_cong [OF pool that] by simp
  have free: "frames_ok D (s\<lparr>fr_pmm := (mark_page_free (pfn phys) (fr_pmm s))\<lparr>pm_used := pm_used (fr_pmm s) - 1\<rparr>\<rparr>)"
    if u: "page_used (fr_pmm s) (pfn phys)" and "\<not> r"
  proof -
    have "pin_count phys s = 0" using ok that(2) by simp
    then have "slot_ok D (insert (pfn phys) (free_pages (fr_pmm s))) j (pins j)" if "fr_pins s = Some pins" "j < MAX_PAGES" for pins j
      using assms(1) that i by (auto simp: frames_ok_def slot_ok_def pin_count_def)
    then show ?thesis using mark_free_pool [OF pool assms(2) u] assms(1) by (simp add: frames_ok_def)
  qed
  show ?thesis using i m ok refuse free
    by (cases r) (auto simp: free_page_def Let_def)
qed

lemma unpin_ledger_ok:
  assumes "frames_ok D s" and "unpin_ledger phys s = (r, s')"
  shows "frames_ok D s' \<and> (r = FreeDue \<longrightarrow> pfn phys \<in> D)"
proof (cases "\<exists>pins. fr_pins s = Some pins \<and> pfn phys < MAX_PAGES \<and> pins (pfn phys) AND COUNT_MASK \<noteq> 0")
  case True
  then obtain pins where pins: "fr_pins s = Some pins" "pfn phys < MAX_PAGES" "pins (pfn phys) AND COUNT_MASK \<noteq> 0" by blast
  define w n where "w = pins (pfn phys)" and "n = (w AND COUNT_MASK) - 1"
  have sl: "slot_ok D (free_pages (fr_pmm s)) (pfn phys) w" using assms(1) pins by (simp add: frames_ok_def w_def)
  have n: "\<not> bit n 31" using small_not_pending [of n] unat_count_dec [of w] pins(3) by (simp add: n_def w_def)
  define v where "v = (if n = 0 then 0 else (w AND FREE_PENDING) OR n)"
  have "bit v 31 \<longrightarrow> bit w 31" using n by (simp add: v_def bit_or_iff bit_and_iff)
  then have "slot_ok D (free_pages (fr_pmm s)) (pfn phys) v" using sl pins(3) by (simp add: slot_ok_def w_def)
  then have "frames_ok D (s\<lparr>fr_pins := Some (pins(pfn phys := v))\<rparr>)" by (rule frames_ok_slot [OF assms(1) pins(1)])
  moreover have "unpin_ledger phys s =
      (if n = 0 \<and> w AND FREE_PENDING \<noteq> 0 then FreeDue else NoFree, s\<lparr>fr_pins := Some (pins(pfn phys := v))\<rparr>)"
    using pins by (simp add: unpin_ledger_def Let_def w_def [symmetric] n_def [symmetric] v_def)
  ultimately show ?thesis using assms(2) sl by (auto simp: slot_ok_def pending_bit split: if_splits)
next
  case False
  then show ?thesis using assms by (auto simp: unpin_ledger_def Let_def split: option.splits if_splits)
qed

lemma push_deferred_ok: "frames_ok D s \<Longrightarrow> pfn phys \<in> D \<Longrightarrow> frames_ok D (push_deferred phys s)"
  using frames_ok_ring [of D "s\<lparr>fr_cursor := fr_cursor s + 1\<rparr>" phys]
  by (simp add: push_deferred_def Let_def frames_ok_counters split: option.split)

lemma unpin_ok: "frames_ok D s \<Longrightarrow> frames_ok D (unpin phys now s)"
  using unpin_ledger_ok [of D s phys]
  by (auto simp: unpin_def frames_ok_counters intro!: free_page_ok push_deferred_ok split: prod.split unpin_result.split)

lemma drain_slot_ok: "frames_ok D s \<Longrightarrow> i < DEFERRED_CAP \<Longrightarrow> frames_ok D (drain_slot i s)"
proof -
  assume ok: "frames_ok D s" and i: "i < DEFERRED_CAP"
  define t where "t = s\<lparr>fr_deferred := (fr_deferred s)[i := 0], fr_freed := fr_freed s + 1\<rparr>"
  have "frames_ok D t" using frames_ok_ring [OF ok, of 0 i] by (simp add: t_def frames_ok_def)
  moreover have "fr_deferred s ! i \<noteq> 0 \<Longrightarrow> pfn (fr_deferred s ! i) \<in> D" using ok i by (simp add: frames_ok_def)
  ultimately show ?thesis using ok free_page_ok by (simp add: drain_slot_def Let_def t_def [symmetric])
qed

lemma fold_ok: "(\<And>x t. x \<in> set xs \<Longrightarrow> frames_ok D t \<Longrightarrow> frames_ok D (f x t)) \<Longrightarrow> frames_ok D s \<Longrightarrow> frames_ok D (fold f xs s)"
  by (induction xs arbitrary: s) auto

lemma drain_deferred_ok: "frames_ok D s \<Longrightarrow> frames_ok D (drain_deferred s)"
  unfolding drain_deferred_def by (rule fold_ok) (simp_all add: drain_slot_ok)

lemma drain_if_due_ok: "frames_ok D s \<Longrightarrow> frames_ok D (drain_deferred_if_due now s)"
  by (simp add: drain_deferred_if_due_def drain_deferred_ok frames_ok_counters)

lemma unpin_range_ok: "frames_ok D s \<Longrightarrow> frames_ok D (unpin_range phys len now s)"
  unfolding unpin_range_def by (rule fold_ok) (simp_all add: unpin_ok drain_deferred_ok)

lemma alloc_locked_ok: "frames_ok D s \<Longrightarrow> frames_ok D (snd (alloc_locked s))"
  using alloc_page_locked_pool [of D "fr_pmm s"] frames_ok_take [of D s]
  by (auto simp: alloc_locked_def frames_ok_def split: prod.split)

lemma try_alloc_ok: "frames_ok D s \<Longrightarrow> frames_ok D (snd (try_alloc_page now s))"
  by (simp add: try_alloc_page_def alloc_locked_ok drain_if_due_ok)

lemma alloc_page_ok:
  assumes "frames_ok D s" and "\<And>t. frames_ok D t \<Longrightarrow> frames_ok D (snd (oom t))"
  shows "frames_ok D (snd (alloc_page now oom s))"
proof -
  obtain r s1 where t: "try_alloc_page now s = (r, s1)" by fastforce
  have s1: "frames_ok D s1" using try_alloc_ok [OF assms(1), of now] t by simp
  define p where "p = (fr_pmm s1)\<lparr>pm_exhausted := pm_exhausted (fr_pmm s1) + 1\<rparr>"
  have "pool_ok D (fr_pmm s1)" using s1 by (simp add: frames_ok_def)
  then have "pool_ok D p" "free_pages p = free_pages (fr_pmm s1)"
    by (auto intro: pool_ok_cong simp: p_def) (auto simp: free_pages_def page_used_def)
  then have s2: "frames_ok D (s1\<lparr>fr_pmm := p\<rparr>)" using frames_ok_take [OF s1] by simp
  obtain k s3 where o: "oom (s1\<lparr>fr_pmm := p\<rparr>) = (k, s3)" by fastforce
  have "frames_ok D s3" using assms(2) [OF s2] o by simp
  then show ?thesis using t s1 o by (simp add: alloc_page_def p_def alloc_locked_ok split: option.split)
qed

lemma pin_frame_ok:
  assumes "frames_ok D s" and "pfn a \<in> D" and "page_used (fr_pmm s) (pfn a)"
  shows "frames_ok D (pin_frame a s) \<and> fr_pmm (pin_frame a s) = fr_pmm s"
proof -
  have "slot_ok D (free_pages (fr_pmm s)) (pfn a) w" for w using assms(2,3) by (simp add: slot_ok_def free_pages_def)
  then show ?thesis using frames_ok_slot [OF assms(1)] assms(1) by (simp add: pin_frame_def split: option.split)
qed

lemma pin_range_ok:
  assumes "frames_ok D s" and "\<forall>a \<in> set (span_addresses phys len). pfn a \<in> D \<and> page_used (fr_pmm s) (pfn a)"
  shows "frames_ok D (pin_range phys len s)"
proof -
  have "frames_ok D (fold pin_frame as s)" if "\<forall>a \<in> set as. pfn a \<in> D \<and> page_used (fr_pmm s) (pfn a)" for as
    using assms(1) that
  proof (induction as arbitrary: s)
    case (Cons a as)
    then show ?case using pin_frame_ok [of D s a] by simp
  qed simp
  then show ?thesis using assms(2) by (simp add: pin_range_def)
qed

lemma frame_step_ok:
  assumes "frames_ok D s" and "frame_op_ok D op s"
  shows "frames_ok D (frame_step op s)"
proof -
  have pool: "pool_ok D (fr_pmm s)" using assms by (simp add: frames_ok_def)
  show ?thesis
  proof (cases op)
    case (AllocPage now killed frees)
    then show ?thesis using assms by (auto intro!: alloc_page_ok fold_ok free_page_ok)
  next
    case (AllocRun n)
    then show ?thesis using frames_ok_take [OF assms(1)] alloc_pages_pool [OF pool] by simp
  next
    case (ReserveRange a b)
    then show ?thesis using frames_ok_take [OF assms(1)] reserve_range_pool [OF pool] by simp
  next
    case (PinRange phys len)
    then show ?thesis using assms(2) pin_range_ok [OF assms(1)] by simp
  next
    case (RefInc phys)
    then show ?thesis using assms by (simp add: frames_ok_counters split: option.split)
  next
    case (RefDec phys)
    then show ?thesis using assms by (simp add: frames_ok_counters split: option.split prod.split)
  qed (use assms in \<open>simp_all add: try_alloc_ok unpin_range_ok drain_if_due_ok free_page_ok\<close>)
qed

lemma pmm_init_total: "unat (pm_total (pmm_init b pmm_static)) = card (offered b)"
proof -
  have start: "free_pages pmm_static = {}" using full_no_free [of pmm_static] by (simp add: pmm_static_def)
  obtain t s1 where a: "fold offer_entry (bi_entries b) (0, pmm_static) = (t, s1)" by fastforce
  have "unat t = card (offered b)" using offer_entries_count [OF a] start by (simp add: offered_def)
  moreover have "pm_total (pmm_init b pmm_static) = t" by (simp add: pmm_init_def a Let_def split: prod.split)
  ultimately show ?thesis by simp
qed

lemma frames_start_ok: "frames_ok (offered b) (frames_start b)"
proof -
  have "offered b \<subseteq> {..<MAX_PAGES}" by (auto simp: offered_def entry_pages_def split: if_splits)
  then have "pool_ok (offered b) (pmm_init b pmm_static)"
    using pmm_init_ok [of b] pmm_init_total [of b] by (auto simp: pool_ok_def)
  then show ?thesis by (simp add: frames_start_def dma_init_def frames_ok_def slot_ok_def)
qed

lemma frame_run_ok: "history_ok (offered b) ops (frames_start b) \<Longrightarrow> frames_ok (offered b) (frame_run b ops)"
proof -
  have "frames_ok D s \<Longrightarrow> history_ok D ops s \<Longrightarrow> frames_ok D (fold frame_step ops s)" for D s
    by (induction ops arbitrary: s) (simp_all add: frame_step_ok)
  then show "history_ok (offered b) ops (frames_start b) \<Longrightarrow> ?thesis" using frames_start_ok by (simp add: frame_run_def)
qed

section \<open>The life of a deferred free\<close>

text \<open>
  A frame whose free is deferred with \<open>n\<close> pins left, and a frame that is free and unpinned.
\<close>

definition awaiting :: "u64 \<Rightarrow> nat \<Rightarrow> frames \<Rightarrow> bool" where
  "awaiting phys n s \<longleftrightarrow>
     (\<exists>pins. fr_pins s = Some pins \<and> pins (pfn phys) = FREE_PENDING OR of_nat n) \<and> page_used (fr_pmm s) (pfn phys) \<and>
     \<not> is_kernel_static_phys phys (fr_pmm s) \<and> pte_share_count phys (fr_refs s) = 0"

definition released :: "u64 \<Rightarrow> frames \<Rightarrow> bool" where
  "released phys s \<longleftrightarrow> (\<exists>pins. fr_pins s = Some pins \<and> pins (pfn phys) = 0) \<and> \<not> page_used (fr_pmm s) (pfn phys)"

lemma unat_u32_small: "n < 2 ^ 31 \<Longrightarrow> unat (of_nat n :: u32) = n"
  by (simp add: unsigned_of_nat take_bit_nat_eq_self)

lemma of_nat_u32_eq_0: "n < 2 ^ 31 \<Longrightarrow> (of_nat n :: u32) = 0 \<longleftrightarrow> n = 0"
  using unat_u32_small [of n] by (simp only: unat_eq_0 [symmetric])

lemma or_and_self: "(a OR b) AND a = a" for a b :: u32
  by (rule bit_word_eqI) (auto simp: bit_and_iff bit_or_iff)

lemma unpin_ledger_awaiting:
  assumes "fr_pins s = Some pins" and "pins (pfn phys) = FREE_PENDING OR of_nat (Suc n)" and "pfn phys < MAX_PAGES"
    and "Suc n < 2 ^ 31"
  shows "unpin_ledger phys s =
    (if n = 0 then FreeDue else NoFree,
     s\<lparr>fr_pins := Some (pins(pfn phys := if n = 0 then 0 else FREE_PENDING OR of_nat n))\<rparr>)"
proof -
  define w where "w = pins (pfn phys)"
  define c where "c = (of_nat (Suc n) :: u32)"
  have w: "w = FREE_PENDING OR c" using assms(2) by (simp only: w_def c_def)
  have "unat c < 2 ^ 31" using unat_u32_small [OF assms(4)] assms(4) by (simp only: c_def)
  then have cnt: "w AND COUNT_MASK = c" using marked_count w by simp
  have pend: "w AND FREE_PENDING = FREE_PENDING" unfolding w by (rule or_and_self)
  have c0: "c \<noteq> 0" using of_nat_u32_eq_0 [OF assms(4)] by (simp only: c_def)
  have c1: "c - 1 = of_nat n" by (simp add: c_def)
  have n0: "(of_nat n :: u32) = 0 \<longleftrightarrow> n = 0" using of_nat_u32_eq_0 [of n] assms(4) by simp
  have big: "\<not> MAX_PAGES \<le> pfn phys" using assms(3) by simp
  show ?thesis
    unfolding unpin_ledger_def assms(1) option.case if_not_P [OF big] Let_def w_def [symmetric] cnt pend if_not_P [OF c0] c1 n0
    by (cases "n = 0") simp_all
qed

lemma unpin_awaiting:
  assumes "awaiting phys (Suc n) s" and "pfn phys < MAX_PAGES" and "Suc n < 2 ^ 31"
  shows "if n = 0 then released phys (unpin phys True s) else awaiting phys n (unpin phys True s)"
proof -
  obtain pins where pins: "fr_pins s = Some pins" "pins (pfn phys) = FREE_PENDING OR of_nat (Suc n)"
    using assms(1) unfolding awaiting_def by blast
  note led = unpin_ledger_awaiting [OF pins assms(2,3)]
  have rest: "page_used (fr_pmm s) (pfn phys)" "\<not> is_kernel_static_phys phys (fr_pmm s)" "pte_share_count phys (fr_refs s) = 0"
    using assms(1) by (simp_all add: awaiting_def)
  show ?thesis
  proof (cases "n = 0")
    case True
    define t where "t = s\<lparr>fr_pins := Some (pins(pfn phys := 0)), fr_freed := fr_freed s + 1\<rparr>"
    have "unpin phys True s = free_page phys t" using led True by (simp add: unpin_def t_def)
    moreover have "released phys (free_page phys t)"
      using rest assms(2) by (simp add: t_def free_page_def Let_def mark_free_pending_if_pinned_def released_def)
        (simp add: page_used_def mark_page_free_def bit_and_iff bit_not_iff bit_exp_iff)
    ultimately show ?thesis using True by simp
  next
    case False
    then show ?thesis using led rest by (simp add: unpin_def awaiting_def)
  qed
qed

lemma unpin_released: "released phys s \<Longrightarrow> unpin phys now s = s"
  by (auto simp: released_def unpin_def unpin_ledger_def)

lemma free_page_awaiting:
  assumes "fr_pins s = Some pins" and "pins (pfn phys) = of_nat c" and "0 < c" and "c < 2 ^ 31" and "pfn phys < MAX_PAGES"
    and "page_used (fr_pmm s) (pfn phys)" and "\<not> is_kernel_static_phys phys (fr_pmm s)" and "pte_share_count phys (fr_refs s) = 0"
  shows "awaiting phys c (free_page phys s)"
proof -
  define w where "w = (of_nat c :: u32)"
  have u: "unat w < 2 ^ 31" using unat_u32_small [OF assms(4)] assms(4) by (simp only: w_def)
  have w0: "w AND COUNT_MASK \<noteq> 0"
    using small_not_pending [OF u] of_nat_u32_eq_0 [OF assms(4)] assms(3) by (simp add: w_def)
  have "\<not> bit w 31" using small_not_pending [OF u] by simp
  then have "w AND FREE_PENDING = 0" using pending_bit [of w] by blast
  then have "mark_free_pending_if_pinned phys s =
      (True, s\<lparr>fr_pins := Some (pins(pfn phys := w OR FREE_PENDING)), fr_frees_deferred := fr_frees_deferred s + 1\<rparr>)"
    using assms(1,2,5) w0 by (simp add: mark_free_pending_if_pinned_def Let_def w_def)
  then show ?thesis using assms by (simp add: free_page_def Let_def awaiting_def w_def or.commute)
qed

lemma unpins_awaiting:
  "awaiting phys c s \<Longrightarrow> 0 < c \<Longrightarrow> c < 2 ^ 31 \<Longrightarrow> pfn phys < MAX_PAGES \<Longrightarrow>
     if k < c then awaiting phys (c - k) ((unpin phys True ^^ k) s) else released phys ((unpin phys True ^^ k) s)"
proof (induction k)
  case (Suc k)
  show ?case
  proof (cases "k < c")
    case True
    then have "awaiting phys (Suc (c - Suc k)) ((unpin phys True ^^ k) s)" using Suc by (simp add: Suc_diff_Suc)
    from unpin_awaiting [OF this] show ?thesis using Suc.prems True by (auto split: if_splits)
  next
    case False
    then show ?thesis using Suc unpin_released by simp
  qed
qed simp

section \<open>Properties\<close>

text \<open>
  C17: The frame counters never drift from the bitmap. From boot, after every sequence of allocations of
  frames and of runs, frees (repeated ones, and frees of pinned or still mapped frames, included),
  reservations, pins, unpins in either context, drains of the deferred frees, reference-count updates
  and out-of-memory kills in which the callers free only frames that the firmware offered and pin only
  offered frames that are in use: the accounting snapshot has drift 0, the number of free frames reported
  is the number of clear bits, and only frames that the firmware offered are free.\<close>

theorem frame_accounting:
  assumes "history_ok (offered b) ops (frames_start b)"
  shows "drift (accounting_snapshot (fr_pmm (frame_run b ops))) = 0 \<and>
   unat (free_page_count (fr_pmm (frame_run b ops))) = card (free_pages (fr_pmm (frame_run b ops))) \<and>
   free_pages (fr_pmm (frame_run b ops)) \<subseteq> offered b"
  using frame_run_ok [OF assms] pmm_ok_drift by (simp add: frames_ok_def pool_ok_def)

text \<open>
  C18: A frame under a device transfer is never handed out. After every history from boot in which the
  callers free only frames that the firmware offered and pin only offered frames that are in use, the frame
  that the allocator returns is one the firmware offered, is marked in use, and has no pin on it.\<close>

theorem pinned_frame_not_reused:
  assumes "history_ok (offered b) ops (frames_start b)" and "try_alloc_page now (frame_run b ops) = (Some a, s')"
  shows "\<not> is_pinned a s' \<and> pfn a \<in> offered b \<and> page_used (fr_pmm s') (pfn a)"
proof -
  define s where "s = drain_deferred_if_due now (frame_run b ops)"
  have ok: "frames_ok (offered b) s" using drain_if_due_ok [OF frame_run_ok [OF assms(1)]] by (simp add: s_def)
  obtain p where al: "alloc_page_locked (fr_pmm s) = (Some a, p)" and s': "s' = s\<lparr>fr_pmm := p\<rparr>"
    using assms(2) by (auto simp: try_alloc_page_def alloc_locked_def s_def split: prod.splits)
  have "unat (pm_next_fit (fr_pmm s)) < BITMAP_SIZE" using ok by (simp add: frames_ok_def pool_ok_def pmm_ok_def)
  from alloc_page_cases [OF this] al obtain q where q: "q \<in> free_pages (fr_pmm s)" "a = of_nat (q * 4096)"
    and f: "free_pages p = free_pages (fr_pmm s) - {q}" by (auto simp del: of_nat_mult)
  have pq: "pfn a = q" "q < MAX_PAGES" using page_address [of q] q by (simp_all only: free_pages_def mem_Collect_eq) 
  have "pin_count a s = 0" using ok q(1) pq by (auto simp: frames_ok_def slot_ok_def pin_count_def split: option.split)
  then have "\<not> is_pinned a s'" by (simp add: is_pinned_def pin_count_def s')
  moreover have "page_used p q" using f pq(2) by (auto simp: free_pages_def)
  moreover have "q \<in> offered b" using ok q(1) by (auto simp: frames_ok_def pool_ok_def)
  ultimately show ?thesis by (simp add: pq(1) s')
qed

text \<open>Frame 100 lies in the low megabyte, which boot reserves; frame 2000 is free after boot.\<close>

definition demo_boot :: boot_info where
  "demo_boot =
     \<lparr>bi_entries = [\<lparr>me_type = Available, me_start = 0x64000, me_pages = 1\<rparr>, \<lparr>me_type = Available, me_start = 0x7D0000, me_pages = 1\<rparr>],
      bi_kernel_base = 0x100000, bi_kernel_size = 0x1000, bi_kernel_end_va = 0, bi_struct_bytes = 4096, bi_rsp = 0\<rparr>"

lemma demo_boot_pages: "100 \<in> offered demo_boot" "2000 \<in> offered demo_boot" "100 \<in> boot_spans demo_boot" "2000 \<notin> boot_spans demo_boot"
  by (simp_all add: demo_boot_def offered_def entry_pages_def boot_spans_def kernel_span_def boot_info_span_def
      boot_info_phys_page_span_def kernel_end_phys_def saturating_add_def saturating_sub_def Let_def)

lemma demo_history: "history_ok (offered demo_boot) [PinRange 0x64000 16] (frames_start demo_boot)"
proof -
  have "fr_pmm (frames_start demo_boot) = pmm_init demo_boot pmm_static" by (simp add: frames_start_def dma_init_def)
  moreover have "100 \<notin> free_pages (pmm_init demo_boot pmm_static)" using pmm_init_ok [of demo_boot] demo_boot_pages by blast
  ultimately have "page_used (fr_pmm (frames_start demo_boot)) 100" by (simp add: free_pages_def)
  moreover have "span_addresses 0x64000 16 = [0x64000]" by code_simp
  ultimately show ?thesis using demo_boot_pages(1) by (simp add: pfn_def)
qed

theorem frame_accounting_witness:
  "history_ok (offered demo_boot) [PinRange 0x64000 16] (frames_start demo_boot) \<and>
   drift (accounting_snapshot (fr_pmm (frame_run demo_boot [PinRange 0x64000 16]))) = 0"
  using frame_accounting [OF demo_history] demo_history by blast

theorem pinned_frame_not_reused_witness:
  "\<exists>a s'. try_alloc_page 0 (frame_run demo_boot [PinRange 0x64000 16]) = (Some a, s') \<and> \<not> is_pinned a s' \<and> pfn a \<in> offered demo_boot"
proof -
  let ?s = "frame_run demo_boot [PinRange 0x64000 16]"
  define p where "p = pmm_init demo_boot pmm_static"
  have "free_pages p \<noteq> {}" using pmm_init_ok [of demo_boot] demo_boot_pages(2,4) by (auto simp: p_def)
  moreover have "unat (pm_next_fit p) < BITMAP_SIZE" using pmm_init_ok [of demo_boot] by (simp add: p_def pmm_ok_def)
  ultimately obtain a p' where al: "alloc_page_locked p = (Some a, p')" using alloc_page_cases by blast
  have "span_addresses 0x64000 16 = [0x64000]" by code_simp
  then have "fr_pmm ?s = p" "fr_last_drain ?s = 0"
    by (simp_all add: frame_run_def frames_start_def dma_init_def p_def pin_range_def pin_frame_def)
  then have "try_alloc_page 0 ?s = (Some a, ?s\<lparr>fr_pmm := p'\<rparr>)"
    using al by (simp add: try_alloc_page_def drain_deferred_if_due_def alloc_locked_def)
  with pinned_frame_not_reused [OF demo_history this] show ?thesis by blast
qed

text \<open>
  C19: A frame that is freed while a device transfer holds pins on it comes back with the last pin. Take a
  managed frame in use with \<open>c\<close> pins, at least one and fewer than \<open>2^31\<close>, no user mapping and outside the
  kernel image, and free it: after \<open>k\<close> unpins in thread context the frame is in use exactly while \<open>k < c\<close>, so it is neither handed out early nor lost,
  and unpins beyond the last leave the whole state as the last one left it.\<close>

theorem deferred_free_at_last_unpin:
  assumes "fr_pins s = Some pins" and "pins (pfn phys) = of_nat c" and "0 < c" and "c < 2 ^ 31" and "pfn phys < MAX_PAGES"
    and "page_used (fr_pmm s) (pfn phys)" and "\<not> is_kernel_static_phys phys (fr_pmm s)" and "pte_share_count phys (fr_refs s) = 0"
  shows "(page_used (fr_pmm ((unpin phys True ^^ k) (free_page phys s))) (pfn phys) \<longleftrightarrow> k < c) \<and>
    (c \<le> k \<longrightarrow> (unpin phys True ^^ k) (free_page phys s) = (unpin phys True ^^ c) (free_page phys s))"
proof -
  note aw = free_page_awaiting [OF assms]
  have rel: "released phys ((unpin phys True ^^ c) (free_page phys s))"
    using unpins_awaiting [OF aw assms(3-5), of c] by simp
  have "(unpin phys True ^^ (c + j)) (free_page phys s) = (unpin phys True ^^ c) (free_page phys s)" for j
    by (induction j) (simp_all add: unpin_released [OF rel])
  then have "c \<le> k \<Longrightarrow> (unpin phys True ^^ k) (free_page phys s) = (unpin phys True ^^ c) (free_page phys s)"
    by (metis le_add_diff_inverse)
  then show ?thesis using unpins_awaiting [OF aw assms(3-5), of k]
    by (auto simp: awaiting_def released_def split: if_splits)
qed

definition demo_frames :: frames where
  "demo_frames =
     \<lparr>fr_pmm = pmm_static, fr_refs = None, fr_pins = Some (\<lambda>_. 2), fr_deferred = replicate DEFERRED_CAP 0, fr_cursor = 0,
      fr_overflow = 0, fr_freed = 0, fr_frees_deferred = 0, fr_last_drain = 0\<rparr>"

theorem deferred_free_at_last_unpin_witness:
  "page_used (fr_pmm ((unpin 0x500000 True ^^ 1) (free_page 0x500000 demo_frames))) (pfn 0x500000) \<and>
   \<not> page_used (fr_pmm ((unpin 0x500000 True ^^ 2) (free_page 0x500000 demo_frames))) (pfn 0x500000) \<and>
   (unpin 0x500000 True ^^ 5) (free_page 0x500000 demo_frames) = (unpin 0x500000 True ^^ 2) (free_page 0x500000 demo_frames)"
proof -
  have p: "pfn 0x500000 = 1280" by (simp add: pfn_def)
  have *: "(page_used (fr_pmm ((unpin 0x500000 True ^^ k) (free_page 0x500000 demo_frames))) (pfn 0x500000) \<longleftrightarrow> k < 2) \<and>
      (2 \<le> k \<longrightarrow> (unpin 0x500000 True ^^ k) (free_page 0x500000 demo_frames) = (unpin 0x500000 True ^^ 2) (free_page 0x500000 demo_frames))" for k
    by (rule deferred_free_at_last_unpin [where pins = "\<lambda>_. 2"])
      (simp_all add: demo_frames_def p pmm_static_def page_used_def is_kernel_static_phys_def pte_share_count_def page_ref_count_def)
  have "(1 :: nat) < 2" "\<not> (2 :: nat) < 2" "(2 :: nat) \<le> 5" by simp_all
  with * [of 1] * [of 2] * [of 5] show ?thesis by blast
qed

end
