(* ===== verification/Timerfd.thy ===== *)
theory Timerfd
  imports Rust_Prelude
begin

text \<open>
  Timer descriptors, \<open>ipc/timerfd.rs\<close>: a table of 64 timers counted in scheduler ticks, and the hint
  \<open>EARLIEST_TIMERFD_EXPIRY\<close> from which the timer interrupt decides, without the lock of the table, whether
  to ring the poll bell. The tick count is an argument of every operation that reads it.
\<close>

section \<open>State\<close>

abbreviation MAX_TIMERFDS :: nat where "MAX_TIMERFDS \<equiv> 64"
abbreviation NS_PER_TICK :: u64 where "NS_PER_TICK \<equiv> 10000000"
abbreviation TFD_TIMER_ABSTIME :: u32 where "TFD_TIMER_ABSTIME \<equiv> 1"

abbreviation U64_MAX :: u64 where "U64_MAX \<equiv> 0xFFFFFFFFFFFFFFFF"

record timerfd_entry =
  tf_in_use :: bool
  tf_clockid :: u32
  tf_next_expiry :: u64
  tf_interval_ticks :: u64
  tf_expirations :: u64

definition tf_empty :: timerfd_entry where
  "tf_empty = \<lparr>tf_in_use = False, tf_clockid = 0, tf_next_expiry = 0, tf_interval_ticks = 0, tf_expirations = 0\<rparr>"

record timerfds =
  tt_table :: "timerfd_entry list"
  tt_hint :: u64

definition tt_start :: timerfds where
  "tt_start = \<lparr>tt_table = replicate MAX_TIMERFDS tf_empty, tt_hint = U64_MAX\<rparr>"

section \<open>Operations\<close>

definition tfd_create :: "u32 \<Rightarrow> timerfds \<Rightarrow> u64 \<times> timerfds" where
  "tfd_create clockid s =
     (case position (\<lambda>e. \<not> tf_in_use e) (tt_table s) of
        Some i \<Rightarrow> (of_nat i, s\<lparr>tt_table := (tt_table s)[i := tf_empty\<lparr>tf_in_use := True, tf_clockid := clockid\<rparr>]\<rparr>)
      | None \<Rightarrow> (U64_MAX, s))"

text \<open>The slot of an identifier that is in use.\<close>

definition tfd_slot :: "u64 \<Rightarrow> timerfds \<Rightarrow> timerfd_entry option" where
  "tfd_slot tid s =
     (if unat tid < length (tt_table s) \<and> tf_in_use (tt_table s ! unat tid) then Some (tt_table s ! unat tid) else None)"

definition remaining_ns :: "u64 \<Rightarrow> timerfd_entry \<Rightarrow> u64" where
  "remaining_ns now e =
     (if tf_next_expiry e = 0 then 0 else saturating_sub (tf_next_expiry e) now * NS_PER_TICK)"

definition armed :: "timerfd_entry \<Rightarrow> bool" where
  "armed e \<longleftrightarrow> tf_in_use e \<and> tf_next_expiry e \<noteq> 0"

definition earliest :: "timerfd_entry list \<Rightarrow> u64" where
  "earliest es = fold (\<lambda>e m. if armed e \<and> tf_next_expiry e < m then tf_next_expiry e else m) es U64_MAX"

definition arm :: "u64 \<Rightarrow> u32 \<Rightarrow> u64 \<Rightarrow> u64 \<Rightarrow> timerfd_entry \<Rightarrow> timerfd_entry" where
  "arm now flags value_ns interval_ns e =
     (if value_ns = 0 then e\<lparr>tf_next_expiry := 0, tf_interval_ticks := 0, tf_expirations := 0\<rparr>
      else
        (let value_ticks = max (value_ns div NS_PER_TICK) 1
         in e\<lparr>tf_interval_ticks := interval_ns div NS_PER_TICK, tf_expirations := 0,
              tf_next_expiry :=
                (if flags AND TFD_TIMER_ABSTIME \<noteq> 0 then max (value_ns div NS_PER_TICK) (now + 1) else now + value_ticks)\<rparr>))"

definition settime :: "u64 \<Rightarrow> u64 \<Rightarrow> u32 \<Rightarrow> u64 \<Rightarrow> u64 \<Rightarrow> timerfds \<Rightarrow> (u64 \<times> u64) option \<times> timerfds" where
  "settime now tid flags value_ns interval_ns s =
     (case tfd_slot tid s of
        None \<Rightarrow> (None, s)
      | Some e \<Rightarrow>
          (let es = (tt_table s)[unat tid := arm now flags value_ns interval_ns e]
           in (Some (tf_interval_ticks e * NS_PER_TICK, remaining_ns now e), s\<lparr>tt_table := es, tt_hint := earliest es\<rparr>)))"

definition update_expirations :: "u64 \<Rightarrow> timerfd_entry \<Rightarrow> u64 \<Rightarrow> timerfd_entry \<times> u64" where
  "update_expirations now e hint =
     (if tf_next_expiry e = 0 \<or> now < tf_next_expiry e then (e, hint)
      else if 0 < tf_interval_ticks e then
        (let elapsed = now - tf_next_expiry e + 1;
             cnt = elapsed div tf_interval_ticks e + 1;
             e' = e\<lparr>tf_expirations := tf_expirations e + cnt, tf_next_expiry := tf_next_expiry e + cnt * tf_interval_ticks e\<rparr>
         in (e', if tf_next_expiry e' < hint then tf_next_expiry e' else hint))
      else (e\<lparr>tf_expirations := tf_expirations e + 1, tf_next_expiry := 0\<rparr>, hint))"

text \<open>The common start of \<open>gettime\<close>, \<open>read\<close> and \<open>is_readable\<close>.\<close>

definition refresh :: "u64 \<Rightarrow> u64 \<Rightarrow> timerfds \<Rightarrow> (timerfd_entry \<times> timerfds) option" where
  "refresh now tid s =
     (case tfd_slot tid s of
        None \<Rightarrow> None
      | Some e \<Rightarrow>
          (let (e', h) = update_expirations now e (tt_hint s)
           in Some (e', s\<lparr>tt_table := (tt_table s)[unat tid := e'], tt_hint := h\<rparr>)))"

definition gettime :: "u64 \<Rightarrow> u64 \<Rightarrow> timerfds \<Rightarrow> (u64 \<times> u64) \<times> timerfds" where
  "gettime now tid s =
     (case refresh now tid s of
        None \<Rightarrow> ((0, 0), s)
      | Some (e, s') \<Rightarrow> ((tf_interval_ticks e * NS_PER_TICK, remaining_ns now e), s'))"

definition tfd_read :: "u64 \<Rightarrow> u64 \<Rightarrow> timerfds \<Rightarrow> (int + u64) \<times> timerfds" where
  "tfd_read now tid s =
     (case refresh now tid s of
        None \<Rightarrow> (Inl (- 9), s)
      | Some (e, s') \<Rightarrow>
          if tf_expirations e = 0 then (Inl (- 11), s')
          else (Inr (tf_expirations e), s'\<lparr>tt_table := (tt_table s')[unat tid := e\<lparr>tf_expirations := 0\<rparr>]\<rparr>))"

definition tfd_is_readable :: "u64 \<Rightarrow> u64 \<Rightarrow> timerfds \<Rightarrow> bool \<times> timerfds" where
  "tfd_is_readable now tid s =
     (case refresh now tid s of None \<Rightarrow> (False, s) | Some (e, s') \<Rightarrow> (0 < tf_expirations e, s'))"

definition tfd_close :: "u64 \<Rightarrow> timerfds \<Rightarrow> timerfds" where
  "tfd_close tid s =
     (let es = (if unat tid < length (tt_table s) then (tt_table s)[unat tid := tf_empty] else tt_table s)
      in s\<lparr>tt_table := es, tt_hint := earliest es\<rparr>)"

text \<open>The interrupt handler; the result says whether it rings the poll bell.\<close>

definition maybe_ring_from_tick :: "u64 \<Rightarrow> timerfds \<Rightarrow> bool \<times> timerfds" where
  "maybe_ring_from_tick now_tick s =
     (if tt_hint s = U64_MAX \<or> now_tick < tt_hint s then (False, s) else (True, s\<lparr>tt_hint := U64_MAX\<rparr>))"

section \<open>Histories\<close>

datatype tfd_op = TfdCreate u32 | TfdSet u64 u32 u64 u64 | TfdGet u64 | TfdRead u64 | TfdPoll u64 | TfdClose u64

definition tfd_step :: "u64 \<times> tfd_op \<Rightarrow> timerfds \<Rightarrow> timerfds" where
  "tfd_step = (\<lambda>(now, opn) s.
     (case opn of
        TfdCreate c \<Rightarrow> snd (tfd_create c s)
      | TfdSet tid f v i \<Rightarrow> snd (settime now tid f v i s)
      | TfdGet tid \<Rightarrow> snd (gettime now tid s)
      | TfdRead tid \<Rightarrow> snd (tfd_read now tid s)
      | TfdPoll tid \<Rightarrow> snd (tfd_is_readable now tid s)
      | TfdClose tid \<Rightarrow> tfd_close tid s))"

section \<open>Lemmas\<close>

lemma earliest_fold:
  "fold (\<lambda>e m. if armed e \<and> tf_next_expiry e < m then tf_next_expiry e else m) es m \<le> m \<and>
   (\<forall>e \<in> set es. armed e \<longrightarrow> fold (\<lambda>e m. if armed e \<and> tf_next_expiry e < m then tf_next_expiry e else m) es m \<le> tf_next_expiry e)"
proof (induction es arbitrary: m)
  case (Cons e es)
  define m' where "m' = (if armed e \<and> tf_next_expiry e < m then tf_next_expiry e else m)"
  have "m' \<le> m" and "armed e \<longrightarrow> m' \<le> tf_next_expiry e" by (auto simp: m'_def)
  with Cons.IH [of m'] show ?case by (auto simp: m'_def [symmetric] intro: order_trans)
qed simp

lemma earliest_le: "e \<in> set es \<Longrightarrow> armed e \<Longrightarrow> earliest es \<le> tf_next_expiry e"
  using earliest_fold unfolding earliest_def by blast

text \<open>Every armed timer expires at the hint or later.\<close>

definition hint_ok :: "timerfds \<Rightarrow> bool" where
  "hint_ok s \<longleftrightarrow> (\<forall>e \<in> set (tt_table s). armed e \<longrightarrow> tt_hint s \<le> tf_next_expiry e)"

lemma hint_okD: "hint_ok s \<Longrightarrow> e \<in> set (tt_table s) \<Longrightarrow> armed e \<Longrightarrow> tt_hint s \<le> tf_next_expiry e"
  by (simp add: hint_ok_def)

lemma hint_ok_earliest: "hint_ok (s\<lparr>tt_table := es, tt_hint := earliest es\<rparr>)"
  by (simp add: hint_ok_def earliest_le)

lemma hint_ok_slot:
  assumes "hint_ok s" and "h \<le> tt_hint s" and "armed e \<longrightarrow> h \<le> tf_next_expiry e"
  shows "hint_ok (s\<lparr>tt_table := (tt_table s)[i := e], tt_hint := h\<rparr>)"
  unfolding hint_ok_def
proof (intro ballI impI)
  fix x assume x: "x \<in> set (tt_table (s\<lparr>tt_table := (tt_table s)[i := e], tt_hint := h\<rparr>))" "armed x"
  then have "x = e \<or> x \<in> set (tt_table s)" using set_update_subset_insert [of "tt_table s" i e] by auto
  then show "tt_hint (s\<lparr>tt_table := (tt_table s)[i := e], tt_hint := h\<rparr>) \<le> tf_next_expiry x"
    using assms x(2) order_trans hint_okD by fastforce
qed

lemma update_hint:
  assumes "update_expirations now e h = (e', h')" and "armed e \<longrightarrow> h \<le> tf_next_expiry e"
  shows "h' \<le> h \<and> (armed e' \<longrightarrow> h' \<le> tf_next_expiry e') \<and> tf_in_use e' = tf_in_use e"
  using assms by (auto simp: update_expirations_def Let_def armed_def not_less split: if_splits)

lemma tfd_slotD: "tfd_slot tid s = Some e \<Longrightarrow> e \<in> set (tt_table s) \<and> tf_in_use e"
  by (auto simp: tfd_slot_def split: if_splits)

lemma refresh_hint: "hint_ok s \<Longrightarrow> refresh now tid s = Some (e, s') \<Longrightarrow> hint_ok s' \<and> (armed e \<longrightarrow> tt_hint s' \<le> tf_next_expiry e)"
proof -
  assume ok: "hint_ok s" and r: "refresh now tid s = Some (e, s')"
  obtain e0 where e0: "tfd_slot tid s = Some e0" using r by (auto simp: refresh_def split: option.splits)
  obtain h where u: "update_expirations now e0 (tt_hint s) = (e, h)"
    and s': "s' = s\<lparr>tt_table := (tt_table s)[unat tid := e], tt_hint := h\<rparr>"
    using r e0 by (auto simp: refresh_def split: prod.splits)
  have "armed e0 \<longrightarrow> tt_hint s \<le> tf_next_expiry e0" using ok tfd_slotD [OF e0] hint_okD by blast
  from update_hint [OF u this] show ?thesis using hint_ok_slot [OF ok] by (simp add: s')
qed

lemma hint_ok_same: "hint_ok s \<Longrightarrow> (armed e \<longrightarrow> tt_hint s \<le> tf_next_expiry e) \<Longrightarrow> hint_ok (s\<lparr>tt_table := (tt_table s)[i := e]\<rparr>)"
  using hint_ok_slot [of s "tt_hint s" e i] by simp

lemma tfd_step_hint: "hint_ok s \<Longrightarrow> hint_ok (tfd_step (now, opn) s)"
proof (cases opn)
  case (TfdCreate c)
  assume "hint_ok s"
  then have "hint_ok (s\<lparr>tt_table := (tt_table s)[i := tf_empty\<lparr>tf_in_use := True, tf_clockid := c\<rparr>]\<rparr>)" for i
    by (rule hint_ok_same) (simp add: armed_def tf_empty_def)
  then show ?thesis using \<open>hint_ok s\<close> by (simp add: TfdCreate tfd_step_def tfd_create_def split: option.split)
next
  case (TfdRead tid)
  assume "hint_ok s"
  then show ?thesis using refresh_hint [of s now tid]
    by (auto simp: TfdRead tfd_step_def tfd_read_def armed_def split: option.split intro!: hint_ok_same)
next
  case (TfdSet tid f v i)
  assume "hint_ok s"
  then show ?thesis using hint_ok_earliest by (simp add: TfdSet tfd_step_def settime_def Let_def split: option.split)
next
  case (TfdClose tid)
  show ?thesis using hint_ok_earliest by (simp add: TfdClose tfd_step_def tfd_close_def Let_def)
qed (auto simp: tfd_step_def gettime_def tfd_is_readable_def dest: refresh_hint split: option.split)

lemma tfd_run_hint: "hint_ok s \<Longrightarrow> hint_ok (fold tfd_step ops s)"
  by (induction ops arbitrary: s) (auto simp: tfd_step_hint)

lemma hint_ok_start: "hint_ok tt_start"
  by (simp add: hint_ok_def tt_start_def tf_empty_def armed_def)

text \<open>A one-shot timer never moves the hint.\<close>

definition one_shot :: "timerfds \<Rightarrow> bool" where
  "one_shot s \<longleftrightarrow> (\<forall>e \<in> set (tt_table s). tf_interval_ticks e = 0)"

definition quiet_op :: "tfd_op \<Rightarrow> bool" where
  "quiet_op opn \<longleftrightarrow> (case opn of TfdSet _ _ _ _ \<Rightarrow> False | TfdClose _ \<Rightarrow> False | _ \<Rightarrow> True)"

lemma one_shot_same: "one_shot s \<Longrightarrow> tf_interval_ticks e = 0 \<Longrightarrow> one_shot (s\<lparr>tt_table := (tt_table s)[i := e]\<rparr>)"
  using set_update_subset_insert [of "tt_table s" i e] by (auto simp: one_shot_def)

lemma refresh_one_shot:
  "one_shot s \<Longrightarrow> refresh now tid s = Some (e, s') \<Longrightarrow> one_shot s' \<and> tf_interval_ticks e = 0 \<and> tt_hint s' = tt_hint s"
proof -
  assume one: "one_shot s" and r: "refresh now tid s = Some (e, s')"
  obtain e0 where e0: "tfd_slot tid s = Some e0" using r by (auto simp: refresh_def split: option.splits)
  have "tf_interval_ticks e0 = 0" using one tfd_slotD [OF e0] by (simp add: one_shot_def)
  then have "tf_interval_ticks e = 0" "s' = s\<lparr>tt_table := (tt_table s)[unat tid := e]\<rparr>"
    using r e0 by (auto simp: refresh_def update_expirations_def split: if_splits)
  with one_shot_same [OF one] show ?thesis by simp
qed

lemma quiet_step: "one_shot s \<Longrightarrow> quiet_op opn \<Longrightarrow> one_shot (tfd_step (now, opn) s) \<and> tt_hint (tfd_step (now, opn) s) = tt_hint s"
proof -
  assume one: "one_shot s" and q: "quiet_op opn"
  have keep: "one_shot t \<and> tt_hint t = tt_hint s"
    if t: "refresh now tid s = None \<Longrightarrow> t = s"
      "\<And>e s'. refresh now tid s = Some (e, s') \<Longrightarrow> t = s' \<or> t = s'\<lparr>tt_table := (tt_table s')[unat tid := e\<lparr>tf_expirations := 0\<rparr>]\<rparr>" for tid t
  proof (cases "refresh now tid s")
    case None
    then show ?thesis using t(1) one by simp
  next
    case (Some es)
    obtain e s' where es: "es = (e, s')" by (cases es)
    have r: "one_shot s'" "tf_interval_ticks (e\<lparr>tf_expirations := 0\<rparr>) = 0" "tt_hint s' = tt_hint s"
      using refresh_one_shot [OF one, of now tid e s'] Some es by simp_all
    from t(2) [of e s'] Some es show ?thesis using r one_shot_same [OF r(1,2), of "unat tid"] by auto
  qed
  show ?thesis
  proof (cases opn)
    case (TfdCreate c)
    define e where "e = tf_empty\<lparr>tf_in_use := True, tf_clockid := c\<rparr>"
    have "tf_interval_ticks e = 0" by (simp add: e_def tf_empty_def)
    then show ?thesis using one one_shot_same [OF one]
      by (simp add: TfdCreate tfd_step_def tfd_create_def e_def [symmetric] split: option.split)
  next
    case (TfdGet tid)
    then show ?thesis by (intro keep [of tid]) (simp_all add: tfd_step_def gettime_def)
  next
    case (TfdRead tid)
    then show ?thesis by (intro keep [of tid]) (simp_all add: tfd_step_def tfd_read_def)
  next
    case (TfdPoll tid)
    then show ?thesis by (intro keep [of tid]) (simp_all add: tfd_step_def tfd_is_readable_def)
  qed (use q in \<open>simp_all add: quiet_op_def\<close>)
qed

lemma quiet_run: "one_shot s \<Longrightarrow> \<forall>x \<in> set ops. quiet_op (snd x) \<Longrightarrow> tt_hint (fold tfd_step ops s) = tt_hint s"
proof (induction ops arbitrary: s)
  case (Cons x ops)
  then show ?case using quiet_step [of s "snd x" "fst x"] by simp
qed simp

lemma periods_elapsed: "0 < (i :: nat) \<Longrightarrow> n \<le> m \<Longrightarrow> card {k. n + k * i \<le> m} = (m - n) div i + 1"
proof -
  assume i: "0 < i" and n: "n \<le> m"
  have "n + k * i \<le> m \<longleftrightarrow> k \<le> (m - n) div i" for k using i n by (simp add: less_eq_div_iff_mult_less_eq le_diff_conv2 add.commute)
  then have "{k. n + k * i \<le> m} = {..(m - n) div i}" by auto
  then show ?thesis by simp
qed

lemma update_periodic:
  assumes "tf_next_expiry e \<noteq> 0" and "tf_next_expiry e \<le> now" and "0 < tf_interval_ticks e"
    and "unat now + 1 + unat (tf_interval_ticks e) < 2 ^ 64" and "update_expirations now e h = (e', h')"
  defines "n \<equiv> unat (tf_next_expiry e)" and "i \<equiv> unat (tf_interval_ticks e)"
  defines "c \<equiv> (unat now - n + 1) div i + 1"
  shows "tf_expirations e' = tf_expirations e + of_nat c" and "unat (tf_next_expiry e') = n + c * i"
proof -
  define d where "d = unat now - n"
  define cnt where "cnt = (now - tf_next_expiry e + 1) div tf_interval_ticks e + 1"
  have le: "n \<le> unat now" using assms(2) by (simp add: n_def word_le_nat_alt)
  have i: "0 < i" using assms(3) by (simp add: i_def word_gt_0 unat_gt_0)
  have now: "unat now + 1 + i < 2 ^ 64" using assms(4) by (simp add: i_def)
  have d: "unat (now - tf_next_expiry e) = d" using assms(2) by (simp add: d_def n_def unat_sub)
  have d1: "unat (now - tf_next_expiry e + 1) = d + 1"
    by (subst unat_add_lem [THEN iffD1]) (use d now d_def in simp_all)
  have "(d + 1) div i \<le> d + 1" by (rule div_le_dividend)
  moreover have "d \<le> unat now" by (simp add: d_def)
  ultimately have q2: "(d + 1) div i + 1 < 2 ^ 64" using now i by linarith
  have q: "unat ((now - tf_next_expiry e + 1) div tf_interval_ticks e) = (d + 1) div i" by (simp only: unat_div d1 i_def)
  have cnt: "unat cnt = c" unfolding cnt_def c_def d_def [symmetric]
    by (subst unat_add_lem [THEN iffD1]) (use q q2 in simp_all)
  have "c * i = (d + 1) div i * i + i" by (simp add: c_def d_def)
  also have "\<dots> \<le> d + 1 + i" by simp
  finally have ci: "n + c * i < 2 ^ 64" using le now by (simp add: d_def)
  have m: "unat (cnt * tf_interval_ticks e) = c * i"
    by (subst unat_mult_lem [THEN iffD1]) (use cnt ci i_def in simp_all)
  have "unat (tf_next_expiry e + cnt * tf_interval_ticks e) = n + c * i"
    by (subst unat_add_lem [THEN iffD1]) (use m ci n_def in simp_all)
  moreover have "tf_expirations e' = tf_expirations e + cnt" "tf_next_expiry e' = tf_next_expiry e + cnt * tf_interval_ticks e"
    using assms(1,3,5) leD [OF assms(2)] by (auto simp: update_expirations_def cnt_def Let_def)
  moreover have "cnt = of_nat c" using cnt [symmetric] by simp
  ultimately show "tf_expirations e' = tf_expirations e + of_nat c" "unat (tf_next_expiry e') = n + c * i" by simp_all
qed

section \<open>Properties\<close>

text \<open>
  C29: The timer interrupt misses no first expiry. After every sequence of operations on the table since
  start-up during which no tick rang the bell, a tick at or after the expiry of any armed timer rings
  the poll bell.\<close>

theorem timerfd_first_ring:
  assumes "e \<in> set (tt_table (fold tfd_step ops tt_start))" and "armed e" and "tf_next_expiry e \<le> now" and "tf_next_expiry e < U64_MAX"
  shows "fst (maybe_ring_from_tick now (fold tfd_step ops tt_start))"
proof -
  have "tt_hint (fold tfd_step ops tt_start) \<le> tf_next_expiry e"
    using hint_okD [OF tfd_run_hint [OF hint_ok_start] assms(1,2)] .
  then have "tt_hint (fold tfd_step ops tt_start) \<le> now" "tt_hint (fold tfd_step ops tt_start) < U64_MAX"
    using assms(3,4) order_trans order_le_less_trans by blast+
  then show ?thesis by (auto simp: maybe_ring_from_tick_def not_less)
qed

definition demo_arm :: "(u64 \<times> tfd_op) list" where
  "demo_arm = [(0, TfdCreate 1), (0, TfdCreate 1), (0, TfdSet 0 0 100000000 0), (0, TfdSet 1 0 200000000 0)]"

lemma demo_armed:
  "fold tfd_step demo_arm tt_start =
     \<lparr>tt_table = [tf_empty\<lparr>tf_in_use := True, tf_clockid := 1, tf_next_expiry := 10\<rparr>, tf_empty\<lparr>tf_in_use := True, tf_clockid := 1, tf_next_expiry := 20\<rparr>] @
        replicate 62 tf_empty, tt_hint = 10\<rparr>"
  by code_simp

theorem timerfd_first_ring_witness: "fst (maybe_ring_from_tick 10 (fold tfd_step demo_arm tt_start))"
  by (rule timerfd_first_ring [of "tf_empty\<lparr>tf_in_use := True, tf_clockid := 1, tf_next_expiry := 10\<rparr>"])
    (simp_all add: demo_armed armed_def tf_empty_def)

text \<open>
  C40: A ring makes the interrupt forget the other timers. Once a tick has rung the bell, and until a timer
  is set or closed again, no later tick rings it, whatever is read, polled or created meanwhile and
  however many of the (one-shot) timers that are still armed expire.\<close>

theorem timerfd_ring_forgets_others:
  assumes "maybe_ring_from_tick now s = (True, s')" and "one_shot s" and "\<forall>x \<in> set ops. quiet_op (snd x)"
  shows "\<not> fst (maybe_ring_from_tick later (fold tfd_step ops s'))"
proof -
  have s': "s' = s\<lparr>tt_hint := U64_MAX\<rparr>" using assms(1) by (auto simp: maybe_ring_from_tick_def split: if_splits)
  then have "one_shot s'" using assms(2) by (simp add: one_shot_def)
  from quiet_run [OF this assms(3)] show ?thesis by (simp add: maybe_ring_from_tick_def s')
qed

theorem timerfd_ring_forgets_others_witness:
  "\<exists>s'. maybe_ring_from_tick 10 (fold tfd_step demo_arm tt_start) = (True, s') \<and>
     armed (tt_table s' ! 1) \<and> tf_next_expiry (tt_table s' ! 1) = 20 \<and>
     \<not> fst (maybe_ring_from_tick 25 (fold tfd_step [(10, TfdRead 0), (10, TfdPoll 1)] s'))"
proof -
  define s where "s = fold tfd_step demo_arm tt_start"
  have r: "maybe_ring_from_tick 10 s = (True, s\<lparr>tt_hint := U64_MAX\<rparr>)" by (simp add: s_def demo_armed maybe_ring_from_tick_def)
  have "one_shot s" by (simp add: s_def demo_armed one_shot_def tf_empty_def)
  from timerfd_ring_forgets_others [OF r this, of "[(10, TfdRead 0), (10, TfdPoll 1)]" 25]
  have "\<not> fst (maybe_ring_from_tick 25 (fold tfd_step [(10, TfdRead 0), (10, TfdPoll 1)] (s\<lparr>tt_hint := U64_MAX\<rparr>)))"
    by (simp add: quiet_op_def)
  moreover have "armed (tt_table s ! 1) \<and> tf_next_expiry (tt_table s ! 1) = 20" by (simp add: s_def demo_armed armed_def)
  ultimately show ?thesis using r unfolding s_def [symmetric] by (intro exI [of _ "s\<lparr>tt_hint := U64_MAX\<rparr>"]) simp
qed

text \<open>
  C30: What a repeating timer counts. Away from the ends of the tick range, refreshing a due timer with
  period \<open>i\<close> adds the number of expiries up to now, plus one too many exactly when the next expiry is the
  tick after now; the new expiry lies in the future and on the timer's grid. A timer with a period of one
  tick is thus always counted one expiry ahead.\<close>

theorem timerfd_counts_expiries:
  assumes "tf_next_expiry e \<noteq> 0" and "tf_next_expiry e \<le> now" and "0 < tf_interval_ticks e"
    and "unat now + 1 + unat (tf_interval_ticks e) < 2 ^ 64" and "update_expirations now e h = (e', h')"
  shows "tf_expirations e' = tf_expirations e + of_nat
       (card {k. unat (tf_next_expiry e) + k * unat (tf_interval_ticks e) \<le> unat now} +
        (if unat (tf_interval_ticks e) dvd unat now + 1 - unat (tf_next_expiry e) then 1 else 0)) \<and>
    now < tf_next_expiry e' \<and> unat (tf_interval_ticks e) dvd unat (tf_next_expiry e') - unat (tf_next_expiry e)"
proof -
  define n i d where "n = unat (tf_next_expiry e)" and "i = unat (tf_interval_ticks e)" and "d = unat now - n"
  note u = update_periodic [OF assms, folded n_def i_def, folded d_def]
  have i: "0 < i" and n: "n \<le> unat now" using assms(2,3) by (simp_all add: i_def n_def word_gt_0 unat_gt_0 word_le_nat_alt)
  have d: "unat now + 1 - n = Suc d" using n by (simp add: d_def)
  have "(d + 1) div i + 1 = card {k. n + k * i \<le> unat now} + (if i dvd Suc d then 1 else 0)"
    by (simp add: periods_elapsed [OF i n] d_def [symmetric] div_Suc dvd_eq_mod_eq_0)
  with u(1) have c: "tf_expirations e' = tf_expirations e + of_nat (card {k. n + k * i \<le> unat now} + (if i dvd Suc d then 1 else 0))"
    by (simp only:)
  have "d + 1 < ((d + 1) div i + 1) * i" using dividend_less_div_times [OF i, of "d + 1"] by simp
  then have "now < tf_next_expiry e'" using u(2) n by (simp add: d_def word_less_nat_alt)
  moreover have "i dvd unat (tf_next_expiry e') - n" using u(2) by simp
  ultimately show ?thesis unfolding n_def [symmetric] i_def [symmetric] d using c by blast
qed

theorem timerfd_counts_expiries_witness:
  "tf_expirations (fst (update_expirations 10 (tf_empty\<lparr>tf_in_use := True, tf_next_expiry := 10, tf_interval_ticks := 1\<rparr>) 0)) = 2 \<and>
   10 < tf_next_expiry (fst (update_expirations 10 (tf_empty\<lparr>tf_in_use := True, tf_next_expiry := 10, tf_interval_ticks := 1\<rparr>) 0))"
proof -
  let ?e = "tf_empty\<lparr>tf_in_use := True, tf_next_expiry := 10, tf_interval_ticks := 1\<rparr>"
  obtain e' h' where u: "update_expirations 10 ?e 0 = (e', h')" by fastforce
  have "{k :: nat. 10 + k \<le> 10} = {0}" by auto
  with timerfd_counts_expiries [OF _ _ _ _ u] u show ?thesis by (simp add: tf_empty_def)
qed

end
