(* ===== verification/Net_Checksum.thy ===== *)
theory Net_Checksum
  imports Rust_Prelude
begin

text \<open>
  Bytes of network packets: indexing and slicing with the panic of Rust as \<open>None\<close>, big-endian 16-bit
  words, and the Internet checksum of \<open>net/ipv4.rs\<close> with its proof that a checksum stored in its own
  field makes the whole buffer verify.
\<close>

section \<open>Slices and words\<close>

definition idx :: "'a list \<Rightarrow> nat \<Rightarrow> 'a option" where
  "idx xs i = (if i < length xs then Some (xs ! i) else None)"

definition slice :: "nat \<Rightarrow> nat \<Rightarrow> 'a list \<Rightarrow> 'a list option" where
  "slice a b xs = (if a \<le> b \<and> b \<le> length xs then Some (take (b - a) (drop a xs)) else None)"

definition from_be_bytes :: "u8 \<Rightarrow> u8 \<Rightarrow> u16" where
  "from_be_bytes a b = push_bit 8 (ucast a) OR ucast b"

definition to_be_bytes :: "u16 \<Rightarrow> u8 list" where
  "to_be_bytes w = [ucast (drop_bit 8 w), ucast w]"

section \<open>The Internet checksum\<close>

fun sum_words :: "u32 \<Rightarrow> u8 list \<Rightarrow> u32" where
  "sum_words s (a # b # r) = sum_words (s + ucast (from_be_bytes a b)) r"
| "sum_words s [a] = s + push_bit 8 (ucast a)"
| "sum_words s [] = s"

lemma unat_fold_once: "unat ((s AND 0xFFFF) + drop_bit 16 s) = unat s mod 65536 + unat s div 65536" for s :: u32
proof -
  have m: "s AND 0xFFFF = take_bit 16 s" by (simp add: take_bit_eq_mask mask_eq_exp_minus_1)
  have a: "unat (s AND 0xFFFF) = unat s mod 65536" unfolding m by (simp only: unsigned_take_bit_eq) (simp add: take_bit_eq_mod)
  have b: "unat (drop_bit 16 s) = unat s div 65536" by (simp add: drop_bit_eq_div unat_div)
  have "unat s < 2 ^ 32" using unsigned_less [of s] by simp
  then have "unat s mod 65536 + unat s div 65536 < 2 ^ 32" by simp
  then show ?thesis by (subst unat_add_lem [THEN iffD1]) (simp_all add: a b)
qed

lemma drop_bit_16_eq_0: "drop_bit 16 s = 0 \<longleftrightarrow> unat s < 65536" for s :: u32
  by (simp add: unat_eq_0 [symmetric] drop_bit_eq_div unat_div div_eq_0_iff)

function fold_sum :: "u32 \<Rightarrow> u32" where
  "fold_sum s = (if drop_bit 16 s = 0 then s else fold_sum ((s AND 0xFFFF) + drop_bit 16 s))"
  by auto
termination
proof (relation "measure unat")
  fix s :: u32
  assume "drop_bit 16 s \<noteq> 0"
  then have big: "65536 \<le> unat s" by (simp add: drop_bit_16_eq_0 not_less)
  then have "0 < unat s div 65536" by (simp add: div_greater_zero_iff)
  moreover have "unat s = unat s div 65536 * 65536 + unat s mod 65536" by simp
  ultimately have "unat s mod 65536 + unat s div 65536 < unat s" by linarith
  then show "((s AND 0xFFFF) + drop_bit 16 s, s) \<in> measure unat" by (simp only: in_measure unat_fold_once)
qed simp

declare fold_sum.simps [simp del]

definition checksum :: "u8 list \<Rightarrow> u16" where
  "checksum data = NOT (ucast (fold_sum (sum_words 0 data)))"

definition verify_checksum :: "u8 list \<Rightarrow> bool" where
  "verify_checksum data \<longleftrightarrow> checksum data = 0"

section \<open>Sums without wrap-around\<close>

text \<open>The sum of the big-endian words of a buffer, the last byte padded with zero.\<close>

fun word_sum :: "u8 list \<Rightarrow> nat" where
  "word_sum (a # b # r) = unat a * 256 + unat b + word_sum r"
| "word_sum [a] = unat a * 256"
| "word_sum [] = 0"

lemma unat_from_be_bytes: "unat (from_be_bytes a b) = unat a * 256 + unat b"
proof -
  have lt: "unat a < 256" "unat b < 256" using unsigned_less [of a] unsigned_less [of b] by simp_all
  have "from_be_bytes a b = push_bit 8 (ucast a) + ucast b" unfolding from_be_bytes_def
    by (rule disjunctive_add [symmetric]) (auto simp: bit_push_bit_iff bit_ucast_iff dest: bit_imp_le_length)
  moreover have "unat (push_bit 8 (ucast a) :: u16) = unat a * 256"
    using lt by (simp add: push_bit_eq_mult unat_word_ariths unsigned_ucast_eq take_bit_nat_eq_self)
  moreover have "unat (ucast b :: u16) = unat b" using lt by (simp add: unsigned_ucast_eq take_bit_nat_eq_self)
  ultimately show ?thesis using lt by (simp add: unat_word_ariths)
qed

lemma word_sum_append: "even (length xs) \<Longrightarrow> word_sum (xs @ ys) = word_sum xs + word_sum ys"
  by (induction xs rule: word_sum.induct) auto

lemma word_sum_le: "word_sum xs \<le> 65535 * ((length xs + 1) div 2)"
proof (induction xs rule: word_sum.induct)
  case (1 a b r)
  have "unat a < 256" "unat b < 256" using unsigned_less [of a] unsigned_less [of b] by simp_all
  then have "unat a * 256 + unat b \<le> 65535" by linarith
  moreover have "(length (a # b # r) + 1) div 2 = Suc ((length r + 1) div 2)" by simp
  ultimately show ?case using 1 by simp
next
  case (2 a)
  have "unat a < 256" using unsigned_less [of a] by simp
  then show ?case by simp
qed simp

lemma sum_words_nat: "unat s + word_sum xs < 2 ^ 32 \<Longrightarrow> unat (sum_words s xs) = unat s + word_sum xs"
proof (induction s xs rule: sum_words.induct)
  case (1 s a b r)
  have "unat a < 256" "unat b < 256" using unsigned_less [of a] unsigned_less [of b] by simp_all
  then have w: "unat (ucast (from_be_bytes a b) :: u32) = unat a * 256 + unat b"
    by (simp add: unsigned_ucast_eq take_bit_nat_eq_self unat_from_be_bytes)
  have "unat (s + ucast (from_be_bytes a b)) = unat s + (unat a * 256 + unat b)"
    by (subst unat_add_lem [THEN iffD1]) (use 1(2) w in simp_all)
  with 1 show ?case by simp
next
  case (2 s a)
  have a: "unat a < 256" using unsigned_less [of a] by simp
  have p: "unat (push_bit 8 (ucast a) :: u32) = unat a * 256"
    using a by (simp add: push_bit_eq_mult unat_word_ariths unsigned_ucast_eq take_bit_nat_eq_self)
  show ?case using 2 p by (simp add: unat_word_ariths)
qed simp

lemma unat_max_u16: "unat (- 1 :: u16) = 65535"
  by (simp add: unsigned_minus_1_eq_mask mask_eq_exp_minus_1)

lemma fold_sum_spec:
  "unat (fold_sum s) < 65536 \<and> unat (fold_sum s) mod 65535 = unat s mod 65535 \<and> (fold_sum s = 0 \<longleftrightarrow> s = 0)"
proof (induction s rule: fold_sum.induct)
  case (1 s)
  show ?case
  proof (cases "drop_bit 16 s = 0")
    case True
    then have "fold_sum s = s" by (subst fold_sum.simps) simp
    with True show ?thesis by (simp add: drop_bit_16_eq_0)
  next
    case False
    define t where "t = (s AND 0xFFFF) + drop_bit 16 s"
    have f: "fold_sum s = fold_sum t" using False unfolding t_def by (subst fold_sum.simps) simp
    have t: "unat t = unat s mod 65536 + unat s div 65536" unfolding t_def by (rule unat_fold_once)
    have "unat s = unat t + 65535 * (unat s div 65536)" unfolding t using div_mult_mod_eq [of "unat s" 65536] by linarith
    then have m: "unat t mod 65535 = unat s mod 65535" by (metis mod_mult_self2)
    have "65536 \<le> unat s" using False by (simp add: drop_bit_16_eq_0 not_less)
    then have "0 < unat t" "s \<noteq> 0" unfolding t by (auto simp: div_greater_zero_iff)
    then have "t \<noteq> 0" "s \<noteq> 0" by auto
    with 1 [OF False] f m show ?thesis by (simp add: t_def)
  qed
qed

text \<open>A buffer verifies exactly when the sum of its words is a positive multiple of 65535.\<close>

lemma verify_checksum_iff:
  assumes "word_sum data < 2 ^ 32"
  shows "verify_checksum data \<longleftrightarrow> 0 < word_sum data \<and> 65535 dvd word_sum data"
proof -
  define f where "f = fold_sum (sum_words 0 data)"
  have u: "unat (sum_words 0 data) = word_sum data" using sum_words_nat [of 0 data] assms by simp
  have f: "unat f < 65536" "unat f mod 65535 = word_sum data mod 65535" "f = 0 \<longleftrightarrow> word_sum data = 0"
    using fold_sum_spec [of "sum_words 0 data"] u by (auto simp: f_def simp flip: unat_eq_0)
  have c: "unat (ucast f :: u16) = unat f" using f(1) by (simp add: unsigned_ucast_eq take_bit_nat_eq_self)
  have "verify_checksum data \<longleftrightarrow> ucast f = (- 1 :: u16)"
    by (simp add: verify_checksum_def checksum_def f_def not_eq_complement) (metis minus_minus)
  also have "\<dots> \<longleftrightarrow> unat f = 65535" unfolding word_unat_eq_iff c by (simp add: unat_max_u16)
  also have "\<dots> \<longleftrightarrow> 0 < word_sum data \<and> 65535 dvd word_sum data"
  proof
    assume a: "unat f = 65535"
    then have "f \<noteq> 0" by auto
    with a f(2,3) show "0 < word_sum data \<and> 65535 dvd word_sum data" by (simp add: dvd_eq_mod_eq_0)
  next
    assume a: "0 < word_sum data \<and> 65535 dvd word_sum data"
    then have "0 < unat f" using f(3) by (simp add: unat_gt_0)
    moreover have "65535 dvd unat f" using a f(2) by (simp add: dvd_eq_mod_eq_0)
    ultimately have "65535 \<le> unat f" using dvd_imp_le by blast
    with f(1) show "unat f = 65535" by linarith
  qed
  finally show ?thesis .
qed

lemma to_be_bytes_sum: "word_sum (to_be_bytes w) = unat w" and to_be_bytes_length: "length (to_be_bytes w) = 2"
proof -
  have w: "unat w < 65536" using unsigned_less [of w] by simp
  have "unat (ucast (drop_bit 8 w) :: u8) = unat w div 256"
    using w by (simp add: unsigned_ucast_eq drop_bit_eq_div unat_div take_bit_nat_eq_self)
  moreover have "unat (ucast w :: u8) = unat w mod 256" by (simp add: unsigned_ucast_eq take_bit_eq_mod)
  ultimately show "word_sum (to_be_bytes w) = unat w" by (simp add: to_be_bytes_def)
qed (simp add: to_be_bytes_def)

lemma from_to_be_bytes: "from_be_bytes (ucast (drop_bit 8 w)) (ucast w) = w"
proof -
  have "unat (from_be_bytes (ucast (drop_bit 8 w)) (ucast w)) = word_sum (to_be_bytes w)"
    by (simp add: unat_from_be_bytes to_be_bytes_def)
  then show ?thesis by (simp only: to_be_bytes_sum word_unat_eq_iff)
qed

lemma unat_checksum:
  assumes "word_sum data < 2 ^ 32"
  shows "unat (checksum data) \<le> 65535 \<and> 65535 dvd (word_sum data + unat (checksum data)) \<and>
    (word_sum data = 0 \<longrightarrow> unat (checksum data) = 65535)"
proof -
  define f where "f = fold_sum (sum_words 0 data)"
  have u: "unat (sum_words 0 data) = word_sum data" using sum_words_nat [of 0 data] assms by simp
  have f: "unat f < 65536" "unat f mod 65535 = word_sum data mod 65535" "f = 0 \<longleftrightarrow> word_sum data = 0"
    using fold_sum_spec [of "sum_words 0 data"] u by (auto simp: f_def simp flip: unat_eq_0)
  have c: "unat (ucast f :: u16) = unat f" using f(1) by (simp add: unsigned_ucast_eq take_bit_nat_eq_self)
  have "checksum data = - 1 - ucast f" by (simp add: checksum_def f_def not_eq_complement)
  moreover have "unat (- 1 - ucast f :: u16) = 65535 - unat f"
    by (subst unat_sub) (simp_all add: c unat_max_u16)
  ultimately have k: "unat (checksum data) = 65535 - unat f" by simp
  then have s: "unat f + unat (checksum data) = 65535" using f(1) by simp
  have "(word_sum data + unat (checksum data)) mod 65535 = (unat f + unat (checksum data)) mod 65535"
    using f(2) by (metis mod_add_left_eq)
  then have "65535 dvd (word_sum data + unat (checksum data))" unfolding s by (simp add: dvd_eq_mod_eq_0)
  moreover have "word_sum data = 0 \<longrightarrow> unat (checksum data) = 65535" using f(3) k by auto
  ultimately show ?thesis using k by simp
qed

text \<open>
  Storing the checksum of a buffer in a field of the buffer that was zero makes the buffer verify, at
  every even offset.
\<close>

lemma checksum_embeds:
  assumes "even (length xs)" and "length xs + length ys \<le> 100000"
  shows "verify_checksum (xs @ to_be_bytes (checksum (xs @ [0, 0] @ ys)) @ ys)"
proof -
  define z where "z = xs @ [0, 0] @ ys"
  define c where "c = checksum z"
  have sz: "word_sum z = word_sum xs + word_sum ys" using word_sum_append [OF assms(1)] by (simp add: z_def)
  have sc: "word_sum (xs @ to_be_bytes c @ ys) = word_sum z + unat c"
    using word_sum_append [OF assms(1)] word_sum_append [of "to_be_bytes c" ys] by (simp add: to_be_bytes_sum to_be_bytes_length sz)
  have "word_sum z \<le> 65535 * ((length z + 1) div 2)" by (rule word_sum_le)
  also have "\<dots> \<le> 65535 * 50002" using assms(2) by (intro mult_le_mono2) (simp add: z_def)
  finally have small: "word_sum z \<le> 65535 * 50002" .
  then have k: "unat c \<le> 65535" "65535 dvd (word_sum z + unat c)" "word_sum z = 0 \<longrightarrow> unat c = 65535"
    using unat_checksum [of z] by (simp_all add: c_def)
  have "0 < word_sum z + unat c" using k(3) by (cases "word_sum z = 0") simp_all
  moreover have "word_sum (xs @ to_be_bytes c @ ys) < 2 ^ 32" using sc small k(1) by simp
  ultimately have "verify_checksum (xs @ to_be_bytes c @ ys)" using verify_checksum_iff k(2) sc by simp
  then show ?thesis by (simp add: c_def z_def)
qed

end
