(* ===== verification/Net_Arp.thy ===== *)
theory Net_Arp
  imports Net_Checksum "HOL-Library.Multiset"
begin

text \<open>
  Addresses of \<open>net/mod.rs\<close> and the cache of \<open>net/arp.rs\<close> from IPv4 addresses to hardware addresses: at most
  256 entries, refreshed in place, evicting an expired or the least recently refreshed one, and
  ignored after 60 seconds. Fixed-size arrays are tuples, so that their length is part of the type.
\<close>

type_synonym mac_address = "u8 \<times> u8 \<times> u8 \<times> u8 \<times> u8 \<times> u8"
type_synonym ipv4_address = "u8 \<times> u8 \<times> u8 \<times> u8"

fun mac_bytes :: "mac_address \<Rightarrow> u8 list" where
  "mac_bytes (a, b, c, d, e, f) = [a, b, c, d, e, f]"

fun ip_bytes :: "ipv4_address \<Rightarrow> u8 list" where
  "ip_bytes (a, b, c, d) = [a, b, c, d]"

text \<open>\<open>try_into().unwrap()\<close> of a slice; \<open>None\<close> is the panic on a slice of another length.\<close>

fun mac_of :: "u8 list \<Rightarrow> mac_address option" where
  "mac_of [a, b, c, d, e, f] = Some (a, b, c, d, e, f)"
| "mac_of _ = None"

fun ip_of :: "u8 list \<Rightarrow> ipv4_address option" where
  "ip_of [a, b, c, d] = Some (a, b, c, d)"
| "ip_of _ = None"

section \<open>The cache\<close>

abbreviation ARP_CACHE_MAX :: nat where "ARP_CACHE_MAX \<equiv> 256"
abbreviation ARP_CACHE_TTL_TICKS :: u64 where "ARP_CACHE_TTL_TICKS \<equiv> 6000"

record arp_entry =
  ae_ip :: ipv4_address
  ae_mac :: mac_address
  ae_last_seen :: u64

definition is_expired :: "u64 \<Rightarrow> arp_entry \<Rightarrow> bool" where
  "is_expired now e \<longleftrightarrow> ARP_CACHE_TTL_TICKS \<le> now - ae_last_seen e"

text \<open>\<open>Vec::swap_remove\<close>, within bounds.\<close>

definition swap_remove :: "nat \<Rightarrow> 'a list \<Rightarrow> 'a list" where
  "swap_remove i xs = (if Suc i = length xs then butlast xs else (butlast xs)[i := last xs])"

definition arp_victim :: "u64 \<Rightarrow> arp_entry list \<Rightarrow> nat option" where
  "arp_victim now cache =
     (case position (is_expired now) cache of
        Some i \<Rightarrow> Some i
      | None \<Rightarrow> position (\<lambda>e. \<forall>e' \<in> set cache. ae_last_seen e \<le> ae_last_seen e') cache)"

definition update_cache_at :: "ipv4_address \<Rightarrow> mac_address \<Rightarrow> u64 \<Rightarrow> arp_entry list \<Rightarrow> arp_entry list" where
  "update_cache_at ip mac now cache =
     (if \<exists>e \<in> set cache. ae_ip e = ip
      then upd_first (\<lambda>e. ae_ip e = ip) (\<lambda>e. e\<lparr>ae_mac := mac, ae_last_seen := now\<rparr>) cache
      else
        (let cache' =
           (if ARP_CACHE_MAX \<le> length cache
            then (case arp_victim now cache of Some i \<Rightarrow> swap_remove i cache | None \<Rightarrow> cache) else cache)
         in cache' @ [\<lparr>ae_ip = ip, ae_mac = mac, ae_last_seen = now\<rparr>]))"

definition lookup_at :: "ipv4_address \<Rightarrow> u64 \<Rightarrow> arp_entry list \<Rightarrow> mac_address option" where
  "lookup_at ip now cache = map_option ae_mac (List.find (\<lambda>e. ae_ip e = ip \<and> \<not> is_expired now e) cache)"

definition dump_cache :: "arp_entry list \<Rightarrow> (ipv4_address \<times> mac_address) list" where
  "dump_cache cache = map (\<lambda>e. (ae_ip e, ae_mac e)) cache"

section \<open>Lemmas\<close>

definition arp_ok :: "arp_entry list \<Rightarrow> bool" where
  "arp_ok cache \<longleftrightarrow> length cache \<le> ARP_CACHE_MAX \<and> distinct (map ae_ip cache)"

lemma mset_swap_remove: "i < length xs \<Longrightarrow> \<exists>ys zs. xs = ys @ (xs ! i) # zs \<and> mset (swap_remove i xs) = mset (ys @ zs)"
proof -
  assume i: "i < length xs"
  define a l where "a = butlast xs" and "l = last xs"
  have xs: "xs = a @ [l]" using i by (cases xs rule: rev_cases) (simp_all add: a_def l_def)
  show ?thesis
  proof (cases "i = length a")
    case True
    then have "swap_remove i xs = a" "xs ! i = l" by (simp_all add: xs swap_remove_def)
    then show ?thesis using xs by (intro exI [of _ a] exI [of _ "[]"]) simp
  next
    case False
    then have j: "i < length a" using i xs by simp
    have sr: "swap_remove i xs = take i a @ l # drop (Suc i) a"
      using j by (simp add: xs swap_remove_def upd_conv_take_nth_drop)
    have "xs = take i a @ (a ! i) # drop (Suc i) a @ [l]" using xs id_take_nth_drop [OF j] by simp
    moreover have "xs ! i = a ! i" using j by (simp add: xs nth_append)
    ultimately show ?thesis using sr by (intro exI [of _ "take i a"] exI [of _ "drop (Suc i) a @ [l]"]) simp
  qed
qed

lemma swap_remove_facts:
  assumes "i < length xs" and "distinct (map f xs)"
  shows "distinct (map f (swap_remove i xs)) \<and> set (swap_remove i xs) \<subseteq> set xs \<and> Suc (length (swap_remove i xs)) = length xs"
proof -
  obtain ys zs where xs: "xs = ys @ (xs ! i) # zs" and m: "mset (swap_remove i xs) = mset (ys @ zs)"
    using mset_swap_remove [OF assms(1)] by blast
  have "mset (map f (swap_remove i xs)) = mset (map f (ys @ zs))" using m by simp
  moreover have "distinct (map f (ys @ zs))" using assms(2) by (subst (asm) xs) auto
  ultimately have "distinct (map f (swap_remove i xs))" using mset_eq_imp_distinct_iff by blast
  moreover have "set (swap_remove i xs) = set (ys @ zs)" using m mset_eq_setD by blast
  moreover have "length (swap_remove i xs) = length (ys @ zs)" using m mset_eq_length by blast
  moreover have "length xs = Suc (length (ys @ zs))" by (subst xs) simp
  moreover have "set (ys @ zs) \<subseteq> set xs" using arg_cong [OF xs, of set] by auto
  ultimately show ?thesis by simp
qed

lemma arp_victim_some: "cache \<noteq> [] \<Longrightarrow> \<exists>i. arp_victim now cache = Some i \<and> i < length cache"
proof -
  assume ne: "cache \<noteq> []"
  define m where "m = Min (ae_last_seen ` set cache)"
  have "m \<in> ae_last_seen ` set cache" using ne by (simp add: m_def)
  then obtain e where e: "e \<in> set cache" "ae_last_seen e = m" by auto
  then have "\<forall>e' \<in> set cache. ae_last_seen e \<le> ae_last_seen e'" by (simp add: m_def)
  then have "position (\<lambda>e. \<forall>e' \<in> set cache. ae_last_seen e \<le> ae_last_seen e') cache \<noteq> None"
    using e(1) by (auto simp: position_None)
  then show ?thesis using position_Some by (fastforce simp: arp_victim_def split: option.splits)
qed

text \<open>A new address never meets an entry of its own, and the entries kept are entries of the old cache.\<close>

lemma update_fresh:
  assumes "arp_ok cache" and "\<not> (\<exists>e \<in> set cache. ae_ip e = ip)"
  obtains kept where "update_cache_at ip mac now cache = kept @ [\<lparr>ae_ip = ip, ae_mac = mac, ae_last_seen = now\<rparr>]"
    and "set kept \<subseteq> set cache" and "length kept < ARP_CACHE_MAX" and "distinct (map ae_ip kept)"
proof (cases "ARP_CACHE_MAX \<le> length cache")
  case True
  then obtain i where i: "arp_victim now cache = Some i" "i < length cache" using arp_victim_some [of cache now] by fastforce
  have "distinct (map ae_ip cache)" "length cache \<le> ARP_CACHE_MAX" using assms(1) by (simp_all add: arp_ok_def)
  with swap_remove_facts [OF i(2), of ae_ip] show ?thesis
    using assms(2) True i(1) by (intro that [of "swap_remove i cache"]) (simp_all add: update_cache_at_def)
next
  case False
  then show ?thesis using assms by (intro that [of cache]) (simp_all add: update_cache_at_def arp_ok_def)
qed

lemma upd_first_entries:
  "x \<in> set (upd_first P f xs) \<Longrightarrow> x \<in> set xs \<and> (distinct (map g xs) \<and> (\<forall>y. P y \<longleftrightarrow> g y = k) \<longrightarrow> \<not> P x) \<or> (\<exists>y \<in> set xs. P y \<and> x = f y)"
proof (induction xs)
  case (Cons y xs)
  then show ?case by (cases "P y") (auto simp: image_iff)
qed simp

lemma update_present:
  assumes "distinct (map ae_ip cache)" and "e \<in> set (update_cache_at ip mac now cache)" and "\<exists>e \<in> set cache. ae_ip e = ip"
  shows "e \<in> set cache \<and> ae_ip e \<noteq> ip \<or> e = \<lparr>ae_ip = ip, ae_mac = mac, ae_last_seen = now\<rparr>"
proof -
  have "e \<in> set (upd_first (\<lambda>e. ae_ip e = ip) (\<lambda>e. e\<lparr>ae_mac := mac, ae_last_seen := now\<rparr>) cache)"
    using assms(2,3) by (simp add: update_cache_at_def)
  from upd_first_entries [OF this, of ae_ip ip] show ?thesis using assms(1) by auto
qed

lemma update_cache_ok: "arp_ok cache \<Longrightarrow> arp_ok (update_cache_at ip mac now cache)"
proof (cases "\<exists>e \<in> set cache. ae_ip e = ip")
  case True
  assume "arp_ok cache"
  with True show ?thesis by (simp add: arp_ok_def update_cache_at_def map_upd_first)
next
  case False
  assume "arp_ok cache"
  from update_fresh [OF this False, of mac now] obtain kept where
    "update_cache_at ip mac now cache = kept @ [\<lparr>ae_ip = ip, ae_mac = mac, ae_last_seen = now\<rparr>]"
    "set kept \<subseteq> set cache" "length kept < ARP_CACHE_MAX" "distinct (map ae_ip kept)" by blast
  with False show ?thesis by (auto simp: arp_ok_def)
qed

lemma update_entries:
  assumes "arp_ok cache" and "e \<in> set (update_cache_at ip mac now cache)"
  shows "e \<in> set cache \<and> ae_ip e \<noteq> ip \<or> e = \<lparr>ae_ip = ip, ae_mac = mac, ae_last_seen = now\<rparr>"
proof (cases "\<exists>e \<in> set cache. ae_ip e = ip")
  case True
  then show ?thesis using update_present assms by (simp add: arp_ok_def)
next
  case False
  from update_fresh [OF assms(1) this, of mac now] obtain kept where
    "update_cache_at ip mac now cache = kept @ [\<lparr>ae_ip = ip, ae_mac = mac, ae_last_seen = now\<rparr>]" "set kept \<subseteq> set cache" by blast
  with False assms(2) show ?thesis by auto
qed

lemma update_has:
  assumes "arp_ok cache"
  shows "\<lparr>ae_ip = ip, ae_mac = mac, ae_last_seen = now\<rparr> \<in> set (update_cache_at ip mac now cache)"
proof (cases "\<exists>e \<in> set cache. ae_ip e = ip")
  case True
  have "\<exists>e \<in> set cache. ae_ip e = ip \<Longrightarrow>
      \<lparr>ae_ip = ip, ae_mac = mac, ae_last_seen = now\<rparr> \<in> set (upd_first (\<lambda>e. ae_ip e = ip) (\<lambda>e. e\<lparr>ae_mac := mac, ae_last_seen := now\<rparr>) cache)"
    by (induction cache) auto
  with True show ?thesis by (simp add: update_cache_at_def)
next
  case False
  from update_fresh [OF assms this, of mac now] show ?thesis by (metis in_set_conv_decomp)
qed

section \<open>Histories\<close>

type_synonym arp_event = "ipv4_address \<times> mac_address \<times> u64"

definition arp_run :: "arp_event list \<Rightarrow> arp_entry list" where
  "arp_run evs = fold (\<lambda>(ip, mac, now). update_cache_at ip mac now) evs []"

text \<open>What was learned last about an address.\<close>

definition latest :: "arp_event list \<Rightarrow> ipv4_address \<Rightarrow> (mac_address \<times> u64) option" where
  "latest evs = map_of (rev evs)"

lemma arp_run_snoc: "arp_run (evs @ [(ip, mac, now)]) = update_cache_at ip mac now (arp_run evs)"
  by (simp add: arp_run_def)

lemma arp_run_inv: "arp_ok (arp_run evs) \<and> (\<forall>e \<in> set (arp_run evs). latest evs (ae_ip e) = Some (ae_mac e, ae_last_seen e))"
proof (induction evs rule: rev_induct)
  case Nil
  show ?case by (simp add: arp_run_def arp_ok_def)
next
  case (snoc ev evs)
  obtain ip mac now where ev: "ev = (ip, mac, now)" by (cases ev)
  have "latest (evs @ [ev]) (ae_ip e) = Some (ae_mac e, ae_last_seen e)" if "e \<in> set (arp_run (evs @ [ev]))" for e
    using update_entries [of "arp_run evs" e ip mac now] snoc that by (auto simp: ev arp_run_snoc latest_def)
  then show ?case using snoc update_cache_ok by (simp add: ev arp_run_snoc)
qed

text \<open>
  C26: The address cache stays well-formed and never answers with stale knowledge. After every sequence of
  learned addresses the cache has at most 256 entries with distinct addresses; a lookup at any time
  returns only the hardware address learned last for that address, learned less than 6000 ticks ago; and
  an address that has just been learned is found.\<close>

theorem arp_cache_sound:
  "arp_ok (arp_run evs) \<and>
   (lookup_at ip t (arp_run evs) = Some mac \<longrightarrow> (\<exists>seen. latest evs ip = Some (mac, seen) \<and> t - seen < ARP_CACHE_TTL_TICKS)) \<and>
   lookup_at ip now (arp_run (evs @ [(ip, mac, now)])) = Some mac"
proof (intro conjI impI)
  show "arp_ok (arp_run evs)" using arp_run_inv by blast
next
  assume "lookup_at ip t (arp_run evs) = Some mac"
  then obtain e where "e \<in> set (arp_run evs)" "ae_ip e = ip" "\<not> is_expired t e" "ae_mac e = mac"
    by (auto simp: lookup_at_def find_Some_iff) (metis nth_mem)
  then show "\<exists>seen. latest evs ip = Some (mac, seen) \<and> t - seen < ARP_CACHE_TTL_TICKS"
    using arp_run_inv [of evs] by (auto simp: is_expired_def not_le)
next
  define c where "c = arp_run (evs @ [(ip, mac, now)])"
  have mem: "\<lparr>ae_ip = ip, ae_mac = mac, ae_last_seen = now\<rparr> \<in> set c"
    using update_has arp_run_inv by (simp add: c_def arp_run_snoc)
  have "\<exists>x \<in> set c. ae_ip x = ip \<and> \<not> is_expired now x" by (rule bexI [OF _ mem]) (simp add: is_expired_def)
  then have "List.find (\<lambda>e. ae_ip e = ip \<and> \<not> is_expired now e) c \<noteq> None" unfolding find_None_iff by blast
  then obtain e where f: "List.find (\<lambda>e. ae_ip e = ip \<and> \<not> is_expired now e) c = Some e" by auto
  then have "e \<in> set c" "ae_ip e = ip" by (auto simp: find_Some_iff)
  moreover have "latest (evs @ [(ip, mac, now)]) ip = Some (mac, now)" by (simp add: latest_def)
  ultimately have "ae_mac e = mac" using arp_run_inv [of "evs @ [(ip, mac, now)]"] by (auto simp: c_def)
  with f show "lookup_at ip now (arp_run (evs @ [(ip, mac, now)])) = Some mac" by (simp add: lookup_at_def c_def)
qed

theorem arp_cache_sound_witness:
  "lookup_at (10, 0, 2, 2) 5000 (arp_run [((10, 0, 2, 2), (1, 2, 3, 4, 5, 6), 7)]) = Some (1, 2, 3, 4, 5, 6) \<and>
   (\<exists>seen. latest [((10, 0, 2, 2), (1, 2, 3, 4, 5, 6), 7)] (10, 0, 2, 2) = Some ((1, 2, 3, 4, 5, 6), seen) \<and> 5000 - seen < ARP_CACHE_TTL_TICKS)"
proof -
  have l: "lookup_at (10, 0, 2, 2) 5000 (arp_run [((10, 0, 2, 2), (1, 2, 3, 4, 5, 6), 7)]) = Some (1, 2, 3, 4, 5, 6)"
    by (simp add: arp_run_def update_cache_at_def lookup_at_def is_expired_def)
  with arp_cache_sound [of "[((10, 0, 2, 2), (1, 2, 3, 4, 5, 6), 7)]" "(10, 0, 2, 2)" 5000 "(1, 2, 3, 4, 5, 6)"]
  show ?thesis by blast
qed

end
