(* ===== verification/Net_Stack.thy ===== *)
theory Net_Stack
  imports Net_Arp "HOL-Library.Monad_Syntax"
begin

text \<open>
  The datagram path of the network stack: \<open>net/ethernet.rs\<close>, \<open>net/arp.rs\<close>, \<open>net/ipv4.rs\<close>, \<open>net/icmp.rs\<close>, \<open>net/udp.rs\<close>,
  \<open>net/loopback.rs\<close> and the entry points of \<open>net/mod.rs\<close>. A handler returns \<open>None\<close> where the code would panic
  on an index or a slice. The frames handed to the device and the rings of the poll bell are recorded in
  the state. The handlers of TCP segments and IPv6 packets and the TCP timer are arguments, functions on the
  state; a panic inside them is outside this model. The resolution of an address, \<open>resolve_mac\<close>, polls
  the stack, whose handlers may resolve addresses again: the senders take the resolver as an argument, and
  \<open>stack_resolver\<close> is the set of resolvers whose polls are polls of this stack, nested to any depth.
\<close>

section \<open>State\<close>

record udp_datagram =
  ud_src_ip :: ipv4_address
  ud_src_port :: u16
  ud_data :: "u8 list"

record udp_binding =
  ub_port :: u16
  ub_queue :: "udp_datagram list"

record ping_reply =
  pr_src_ip :: ipv4_address
  pr_id :: u16
  pr_seq :: u16
  pr_data_len :: nat

record net =
  nt_mac :: mac_address
  nt_ip :: ipv4_address
  nt_gateway :: ipv4_address
  nt_mask :: ipv4_address
  nt_packets_rx :: u64
  nt_packets_tx :: u64
  nt_bytes_rx :: u64
  nt_bytes_tx :: u64
  nt_sent :: "u8 list list"
  nt_arp :: "arp_entry list"
  nt_ip_bad_csum :: u64
  nt_ip_id :: u16
  nt_ip_id2 :: u16
  nt_icmp_bad_csum :: u64
  nt_last_reply :: "ping_reply option"
  nt_reply_received :: bool
  nt_udp :: "udp_binding list"
  nt_udp_bad_csum :: u64
  nt_udp_queue_full :: u64
  nt_rings :: nat
  nt_lo_queue :: "u8 list list"
  nt_lo_pkts_in :: u64
  nt_lo_pkts_out :: u64
  nt_lo_bytes_in :: u64
  nt_lo_bytes_out :: u64
  nt_lo_drops :: u64

type_synonym resolver = "ipv4_address \<Rightarrow> net \<Rightarrow> (mac_address \<times> net) option"
type_synonym tcp_handler = "ipv4_address \<Rightarrow> ipv4_address \<Rightarrow> u8 list \<Rightarrow> net \<Rightarrow> net"
type_synonym ipv6_handler = "u8 list \<Rightarrow> net \<Rightarrow> net"

text \<open>The polls that one attempt of \<open>resolve_mac\<close> makes: each with the ticks that the cache look-up and the test
  of the deadline read after it.\<close>

type_synonym poll_list = "((net \<Rightarrow> net option) \<times> u64 \<times> u64) list"

abbreviation ETH_HEADER_SIZE :: nat where "ETH_HEADER_SIZE \<equiv> 14"
abbreviation ETHERTYPE_IPV4 :: u16 where "ETHERTYPE_IPV4 \<equiv> 0x0800"
abbreviation ETHERTYPE_ARP :: u16 where "ETHERTYPE_ARP \<equiv> 0x0806"
abbreviation ETHERTYPE_IPV6 :: u16 where "ETHERTYPE_IPV6 \<equiv> 0x86DD"
abbreviation PROTO_ICMP :: u8 where "PROTO_ICMP \<equiv> 1"
abbreviation PROTO_TCP :: u8 where "PROTO_TCP \<equiv> 6"
abbreviation PROTO_UDP :: u8 where "PROTO_UDP \<equiv> 17"
abbreviation UDP_PORT_QUEUE_CAP :: nat where "UDP_PORT_QUEUE_CAP \<equiv> 256"
abbreviation LOOPBACK_QUEUE_CAP :: nat where "LOOPBACK_QUEUE_CAP \<equiv> 256"
abbreviation BROADCAST_MAC :: mac_address where "BROADCAST_MAC \<equiv> (0xFF, 0xFF, 0xFF, 0xFF, 0xFF, 0xFF)"

section \<open>Link layer\<close>

definition mac_slice :: "nat \<Rightarrow> nat \<Rightarrow> u8 list \<Rightarrow> mac_address option" where
  "mac_slice a b data = slice a b data \<bind> mac_of"

definition ip_slice :: "nat \<Rightarrow> nat \<Rightarrow> u8 list \<Rightarrow> ipv4_address option" where
  "ip_slice a b data = slice a b data \<bind> ip_of"

definition build_frame :: "mac_address \<Rightarrow> u16 \<Rightarrow> u8 list \<Rightarrow> net \<Rightarrow> u8 list" where
  "build_frame dst ethertype payload s =
     (let frame = mac_bytes dst @ mac_bytes (nt_mac s) @ to_be_bytes ethertype @ payload
      in frame @ replicate (60 - length frame) 0)"

definition send_frame :: "u8 list \<Rightarrow> net \<Rightarrow> net" where
  "send_frame frame s =
     s\<lparr>nt_packets_tx := nt_packets_tx s + 1, nt_bytes_tx := nt_bytes_tx s + of_nat (length frame), nt_sent := nt_sent s @ [frame]\<rparr>"

definition arp_packet :: "u16 \<Rightarrow> mac_address \<Rightarrow> ipv4_address \<Rightarrow> net \<Rightarrow> u8 list" where
  "arp_packet opcode target_mac target_ip s =
     to_be_bytes 1 @ to_be_bytes 0x0800 @ [6, 4] @ to_be_bytes opcode @ mac_bytes (nt_mac s) @ ip_bytes (nt_ip s) @
     mac_bytes target_mac @ ip_bytes target_ip"

definition send_reply :: "mac_address \<Rightarrow> ipv4_address \<Rightarrow> net \<Rightarrow> net" where
  "send_reply target_mac target_ip s =
     send_frame (build_frame target_mac ETHERTYPE_ARP (arp_packet 2 target_mac target_ip s) s) s"

definition send_request :: "ipv4_address \<Rightarrow> net \<Rightarrow> net" where
  "send_request target_ip s =
     send_frame (build_frame BROADCAST_MAC ETHERTYPE_ARP (arp_packet 1 BROADCAST_MAC target_ip s) s) s"

definition handle_arp :: "u64 \<Rightarrow> u8 list \<Rightarrow> net \<Rightarrow> net option" where
  "handle_arp now data s =
     (if length data < 28 then Some s
      else do {
        o1 \<leftarrow> idx data 6; o2 \<leftarrow> idx data 7;
        sender_mac \<leftarrow> mac_slice 8 14 data;
        sender_ip \<leftarrow> ip_slice 14 18 data;
        target_ip \<leftarrow> ip_slice 24 28 data;
        let s1 = s\<lparr>nt_arp := update_cache_at sender_ip sender_mac now (nt_arp s)\<rparr>;
        Some (if from_be_bytes o1 o2 = 1 \<and> target_ip = nt_ip s1 then send_reply sender_mac sender_ip s1 else s1)
      })"

section \<open>Loopback queue\<close>

fun is_loopback_addr :: "ipv4_address \<Rightarrow> bool" where
  "is_loopback_addr (a, b, c, d) \<longleftrightarrow> a = 127"

definition lo_enqueue :: "u8 list \<Rightarrow> net \<Rightarrow> net" where
  "lo_enqueue packet s =
     (if LOOPBACK_QUEUE_CAP \<le> length (nt_lo_queue s) then s\<lparr>nt_lo_drops := nt_lo_drops s + 1\<rparr>
      else s\<lparr>nt_lo_pkts_out := nt_lo_pkts_out s + 1, nt_lo_bytes_out := nt_lo_bytes_out s + of_nat (length packet),
             nt_lo_queue := nt_lo_queue s @ [packet]\<rparr>)"

section \<open>Sending IPv4\<close>

fun ip_and :: "ipv4_address \<Rightarrow> ipv4_address \<Rightarrow> ipv4_address" where
  "ip_and (a, b, c, d) (m, n, p, q) = (a AND m, b AND n, c AND p, d AND q)"

text \<open>One attempt polls until the answer is cached or the deadline has passed, or the list of polls ends. The
  outer option is a panic in a poll, the inner one the answer.\<close>

fun resolve_polls :: "ipv4_address \<Rightarrow> u64 \<Rightarrow> poll_list \<Rightarrow> net \<Rightarrow> (mac_address option \<times> net) option" where
  "resolve_polls next_hop deadline [] s = Some (None, s)"
| "resolve_polls next_hop deadline ((poll, t1, t2) # ps) s = do {
     s1 \<leftarrow> poll s;
     case lookup_at next_hop t1 (nt_arp s1) of
       Some mac \<Rightarrow> Some (Some mac, s1)
     | None \<Rightarrow> if deadline \<le> t2 then Some (None, s1) else resolve_polls next_hop deadline ps s1
   }"

text \<open>Each attempt comes with the ticks read at its start and its polls; an attempt without them polls nothing.\<close>

fun resolve_attempts :: "ipv4_address \<Rightarrow> (u64 \<times> poll_list) list \<Rightarrow> nat \<Rightarrow> net \<Rightarrow> (mac_address \<times> net) option" where
  "resolve_attempts next_hop env 0 s = Some (BROADCAST_MAC, s)"
| "resolve_attempts next_hop [] (Suc n) s = resolve_attempts next_hop [] n (send_request next_hop s)"
| "resolve_attempts next_hop ((start, ps) # env) (Suc n) s = do {
     r \<leftarrow> resolve_polls next_hop (start + 17) ps (send_request next_hop s);
     case r of (Some mac, s1) \<Rightarrow> Some (mac, s1) | (None, s1) \<Rightarrow> resolve_attempts next_hop env n s1
   }"

definition resolve_mac :: "u64 \<Rightarrow> (u64 \<times> poll_list) list \<Rightarrow> resolver" where
  "resolve_mac now env dst_ip s =
     (let next_hop = (if ip_and dst_ip (nt_mask s) = ip_and (nt_ip s) (nt_mask s) then dst_ip else nt_gateway s)
      in case lookup_at next_hop now (nt_arp s) of
           Some mac \<Rightarrow> Some (mac, s)
         | None \<Rightarrow> resolve_attempts next_hop env 3 s)"

text \<open>The header with its checksum field filled in, and the payload.\<close>

definition ipv4_packet :: "ipv4_address \<Rightarrow> ipv4_address \<Rightarrow> u16 \<Rightarrow> u8 \<Rightarrow> u8 list \<Rightarrow> u8 list option" where
  "ipv4_packet src_ip dst_ip ident protocol payload =
     (let total_length = 20 + length payload;
          packet = [0x45, 0] @ to_be_bytes (of_nat total_length) @ to_be_bytes ident @ to_be_bytes 0x4000 @ [64, protocol, 0, 0] @
            ip_bytes src_ip @ ip_bytes dst_ip
      in do {
        hdr \<leftarrow> slice 0 20 packet;
        let cksum = checksum hdr;
        Some (packet[10 := ucast (drop_bit 8 cksum), 11 := ucast (cksum AND 0xFF)] @ payload)
      })"

definition send_ipv4 :: "resolver \<Rightarrow> ipv4_address \<Rightarrow> u8 \<Rightarrow> u8 list \<Rightarrow> net \<Rightarrow> net option" where
  "send_ipv4 res dst_ip protocol payload s =
     (let src_ip = (if is_loopback_addr dst_ip then dst_ip else nt_ip s); ident = nt_ip_id s; s1 = s\<lparr>nt_ip_id := ident + 1\<rparr>
      in do {
        packet \<leftarrow> ipv4_packet src_ip dst_ip ident protocol payload;
        if is_loopback_addr dst_ip then Some (lo_enqueue packet s1)
        else do {
          r \<leftarrow> res dst_ip s1;
          let (dst_mac, s2) = r;
          Some (send_frame (build_frame dst_mac ETHERTYPE_IPV4 packet s2) s2)
        }
      })"

definition send_ipv4_from :: "ipv4_address \<Rightarrow> ipv4_address \<Rightarrow> mac_address \<Rightarrow> u8 \<Rightarrow> u8 list \<Rightarrow> net \<Rightarrow> net option" where
  "send_ipv4_from src_ip dst_ip dst_mac protocol payload s =
     (let effective_src = (if is_loopback_addr dst_ip then dst_ip else src_ip); ident = nt_ip_id2 s;
          s1 = s\<lparr>nt_ip_id2 := ident + 1\<rparr>
      in do {
        packet \<leftarrow> ipv4_packet effective_src dst_ip ident protocol payload;
        Some (if is_loopback_addr dst_ip then lo_enqueue packet s1
              else send_frame (build_frame dst_mac ETHERTYPE_IPV4 packet s1) s1)
      })"

section \<open>ICMP\<close>

definition set_idx :: "nat \<Rightarrow> 'a \<Rightarrow> 'a list \<Rightarrow> 'a list option" where
  "set_idx i v xs = (if i < length xs then Some (xs[i := v]) else None)"

definition store_checksum :: "nat \<Rightarrow> u16 \<Rightarrow> u8 list \<Rightarrow> u8 list option" where
  "store_checksum i cksum xs = set_idx i (ucast (drop_bit 8 cksum)) xs \<bind> set_idx (i + 1) (ucast (cksum AND 0xFF))"

definition send_echo_reply :: "resolver \<Rightarrow> ipv4_address \<Rightarrow> u8 list \<Rightarrow> net \<Rightarrow> net option" where
  "send_echo_reply res dst_ip request s = do {
     reply \<leftarrow> set_idx 0 0 request \<bind> set_idx 1 0 \<bind> set_idx 2 0 \<bind> set_idx 3 0;
     reply' \<leftarrow> store_checksum 2 (checksum reply) reply;
     send_ipv4 res dst_ip PROTO_ICMP reply' s
   }"

definition send_ping :: "resolver \<Rightarrow> ipv4_address \<Rightarrow> u16 \<Rightarrow> u16 \<Rightarrow> net \<Rightarrow> net option" where
  "send_ping res dst_ip ident seq s =
     (let icmp = [8, 0, 0, 0] @ to_be_bytes ident @ to_be_bytes seq @ map of_nat [0 ..< 56]
      in do { icmp' \<leftarrow> store_checksum 2 (checksum icmp) icmp; send_ipv4 res dst_ip PROTO_ICMP icmp' s })"

definition take_reply :: "net \<Rightarrow> ping_reply option \<times> net" where
  "take_reply s =
     (if nt_reply_received s then (nt_last_reply s, s\<lparr>nt_reply_received := False, nt_last_reply := None\<rparr>) else (None, s))"

definition handle_icmp :: "resolver \<Rightarrow> ipv4_address \<Rightarrow> u8 list \<Rightarrow> net \<Rightarrow> net option" where
  "handle_icmp res src_ip data s =
     (if length data < 8 then Some s
      else if \<not> verify_checksum data then Some (s\<lparr>nt_icmp_bad_csum := nt_icmp_bad_csum s + 1\<rparr>)
      else do {
        icmp_type \<leftarrow> idx data 0;
        icmp_code \<leftarrow> idx data 1;
        if icmp_type = 8 then send_echo_reply res src_ip data s
        else if icmp_type = 0 then do {
          d4 \<leftarrow> idx data 4; d5 \<leftarrow> idx data 5; d6 \<leftarrow> idx data 6; d7 \<leftarrow> idx data 7;
          Some (s\<lparr>nt_last_reply := Some \<lparr>pr_src_ip = src_ip, pr_id = from_be_bytes d4 d5, pr_seq = from_be_bytes d6 d7, pr_data_len = length data\<rparr>,
                  nt_reply_received := True\<rparr>)
        }
        else Some s
      })"

section \<open>UDP\<close>

record udp_header =
  uh_src_port :: u16
  uh_dst_port :: u16
  uh_length :: u16
  uh_checksum :: u16

definition be16 :: "u8 list \<Rightarrow> nat \<Rightarrow> u16 option" where
  "be16 data i = do { a \<leftarrow> idx data i; b \<leftarrow> idx data (i + 1); Some (from_be_bytes a b) }"

text \<open>The outer option is the panic, the inner one the result of the parser.\<close>

definition udp_parse :: "u8 list \<Rightarrow> udp_header option option" where
  "udp_parse data =
     (if length data < 8 then Some None
      else do {
        a \<leftarrow> be16 data 0; b \<leftarrow> be16 data 2; c \<leftarrow> be16 data 4; d \<leftarrow> be16 data 6;
        Some (Some \<lparr>uh_src_port = a, uh_dst_port = b, uh_length = c, uh_checksum = d\<rparr>)
      })"

definition pseudo_header :: "ipv4_address \<Rightarrow> ipv4_address \<Rightarrow> u8 list \<Rightarrow> u8 list" where
  "pseudo_header src_ip dst_ip datagram = ip_bytes src_ip @ ip_bytes dst_ip @ [0, PROTO_UDP] @ to_be_bytes (of_nat (length datagram))"

definition verify_udp_checksum :: "ipv4_address \<Rightarrow> ipv4_address \<Rightarrow> u8 list \<Rightarrow> bool" where
  "verify_udp_checksum src_ip dst_ip datagram = verify_checksum (pseudo_header src_ip dst_ip datagram @ datagram)"

definition udp_checksum :: "ipv4_address \<Rightarrow> ipv4_address \<Rightarrow> u8 list \<Rightarrow> u16" where
  "udp_checksum src_ip dst_ip udp_data =
     (let pseudo = pseudo_header src_ip dst_ip udp_data @ udp_data
      in checksum (if 19 < length pseudo then pseudo[18 := 0, 19 := 0] else pseudo))"

definition handle_udp :: "ipv4_address \<Rightarrow> ipv4_address \<Rightarrow> u8 list \<Rightarrow> net \<Rightarrow> net option" where
  "handle_udp src_ip dst_ip data s = do {
     hdr \<leftarrow> udp_parse data;
     case hdr of
       None \<Rightarrow> Some s
     | Some h \<Rightarrow>
         let udp_len = unat (uh_length h)
         in if udp_len < 8 \<or> length data < udp_len then Some (s\<lparr>nt_udp_bad_csum := nt_udp_bad_csum s + 1\<rparr>)
            else do {
              datagram \<leftarrow> slice 0 udp_len data;
              if uh_checksum h \<noteq> 0 \<and> \<not> verify_udp_checksum src_ip dst_ip datagram
              then Some (s\<lparr>nt_udp_bad_csum := nt_udp_bad_csum s + 1\<rparr>)
              else do {
                payload \<leftarrow> slice 8 (length datagram) datagram;
                Some (case List.find (\<lambda>b. ub_port b = uh_dst_port h) (nt_udp s) of
                        None \<Rightarrow> s
                      | Some binding \<Rightarrow>
                          if UDP_PORT_QUEUE_CAP \<le> length (ub_queue binding) then s\<lparr>nt_udp_queue_full := nt_udp_queue_full s + 1\<rparr>
                          else s\<lparr>nt_udp := upd_first (\<lambda>b. ub_port b = uh_dst_port h)
                                   (\<lambda>b. b\<lparr>ub_queue := ub_queue b @ [\<lparr>ud_src_ip = src_ip, ud_src_port = uh_src_port h, ud_data = payload\<rparr>]\<rparr>) (nt_udp s),
                                 nt_rings := nt_rings s + 1\<rparr>)
              }
            }
   }"

definition udp_bind :: "u16 \<Rightarrow> net \<Rightarrow> bool \<times> net" where
  "udp_bind port s =
     (if \<exists>b \<in> set (nt_udp s). ub_port b = port then (False, s)
      else (True, s\<lparr>nt_udp := nt_udp s @ [\<lparr>ub_port = port, ub_queue = []\<rparr>]\<rparr>))"

definition udp_recv :: "u16 \<Rightarrow> net \<Rightarrow> udp_datagram option \<times> net" where
  "udp_recv port s =
     (case List.find (\<lambda>b. ub_port b = port) (nt_udp s) of
        None \<Rightarrow> (None, s)
      | Some binding \<Rightarrow>
          (case ub_queue binding of
             [] \<Rightarrow> (None, s)
           | d # _ \<Rightarrow> (Some d, s\<lparr>nt_udp := upd_first (\<lambda>b. ub_port b = port) (\<lambda>b. b\<lparr>ub_queue := tl (ub_queue b)\<rparr>) (nt_udp s)\<rparr>)))"

definition udp_has_data :: "u16 \<Rightarrow> net \<Rightarrow> bool" where
  "udp_has_data port s \<longleftrightarrow> (\<exists>b \<in> set (nt_udp s). ub_port b = port \<and> ub_queue b \<noteq> [])"

definition udp_is_bound :: "u16 \<Rightarrow> net \<Rightarrow> bool" where
  "udp_is_bound port s \<longleftrightarrow> (\<exists>b \<in> set (nt_udp s). ub_port b = port)"

definition udp_unbind :: "u16 \<Rightarrow> net \<Rightarrow> net" where
  "udp_unbind port s = s\<lparr>nt_udp := filter (\<lambda>b. ub_port b \<noteq> port) (nt_udp s)\<rparr>"

definition udp_packet :: "ipv4_address \<Rightarrow> ipv4_address \<Rightarrow> u16 \<Rightarrow> u16 \<Rightarrow> u8 list \<Rightarrow> u8 list option" where
  "udp_packet src_ip dst_ip src_port dst_port payload =
     (let packet = to_be_bytes src_port @ to_be_bytes dst_port @ to_be_bytes (of_nat (8 + length payload)) @ [0, 0] @ payload
      in store_checksum 6 (udp_checksum src_ip dst_ip packet) packet)"

definition udp_send :: "resolver \<Rightarrow> ipv4_address \<Rightarrow> u16 \<Rightarrow> u16 \<Rightarrow> u8 list \<Rightarrow> net \<Rightarrow> net option" where
  "udp_send res dst_ip src_port dst_port payload s = do {
     packet \<leftarrow> udp_packet (if is_loopback_addr dst_ip then dst_ip else nt_ip s) dst_ip src_port dst_port payload;
     send_ipv4 res dst_ip PROTO_UDP packet s
   }"

definition udp_send_from ::
  "ipv4_address \<Rightarrow> ipv4_address \<Rightarrow> mac_address \<Rightarrow> u16 \<Rightarrow> u16 \<Rightarrow> u8 list \<Rightarrow> net \<Rightarrow> net option" where
  "udp_send_from src_ip dst_ip dst_mac src_port dst_port payload s = do {
     packet \<leftarrow> udp_packet src_ip dst_ip src_port dst_port payload;
     send_ipv4_from src_ip dst_ip dst_mac PROTO_UDP packet s
   }"

section \<open>Receiving IPv4\<close>

record ipv4_header =
  ih_version :: u8
  ih_ihl :: u8
  ih_total_length :: u16
  ih_identification :: u16
  ih_flags :: u8
  ih_fragment_offset :: u16
  ih_ttl :: u8
  ih_protocol :: u8
  ih_header_checksum :: u16
  ih_src_ip :: ipv4_address
  ih_dst_ip :: ipv4_address

definition ipv4_parse :: "u8 list \<Rightarrow> ipv4_header option option" where
  "ipv4_parse data =
     (if length data < 20 then Some None
      else do {
        d0 \<leftarrow> idx data 0;
        if drop_bit 4 d0 \<noteq> 4 \<or> d0 AND 0x0F < 5 then Some None
        else do {
          total_length \<leftarrow> be16 data 2;
          identification \<leftarrow> be16 data 4;
          d6 \<leftarrow> idx data 6; d7 \<leftarrow> idx data 7;
          ttl \<leftarrow> idx data 8;
          protocol \<leftarrow> idx data 9;
          header_checksum \<leftarrow> be16 data 10;
          src_ip \<leftarrow> ip_slice 12 16 data;
          dst_ip \<leftarrow> ip_slice 16 20 data;
          Some (Some \<lparr>ih_version = drop_bit 4 d0, ih_ihl = d0 AND 0x0F, ih_total_length = total_length,
                      ih_identification = identification, ih_flags = drop_bit 5 d6,
                      ih_fragment_offset = from_be_bytes (d6 AND 0x1F) d7, ih_ttl = ttl, ih_protocol = protocol,
                      ih_header_checksum = header_checksum, ih_src_ip = src_ip, ih_dst_ip = dst_ip\<rparr>)
        }
      })"

definition header_len :: "ipv4_header \<Rightarrow> nat" where
  "header_len h = unat (ih_ihl h) * 4"

definition clamp_payload_to_total_length :: "nat \<Rightarrow> nat \<Rightarrow> nat \<Rightarrow> nat" where
  "clamp_payload_to_total_length total_length payload_start frame_len =
     (let e = min total_length frame_len in if e < payload_start then payload_start else e)"

definition handle_ipv4 :: "resolver \<Rightarrow> tcp_handler \<Rightarrow> u8 list \<Rightarrow> net \<Rightarrow> net option" where
  "handle_ipv4 res tcp data s = do {
     hdr \<leftarrow> ipv4_parse data;
     case hdr of
       None \<Rightarrow> Some s
     | Some h \<Rightarrow>
         let hlen = header_len h
         in if length data < hlen then Some (s\<lparr>nt_ip_bad_csum := nt_ip_bad_csum s + 1\<rparr>)
            else do {
              hd \<leftarrow> slice 0 hlen data;
              if \<not> verify_checksum hd then Some (s\<lparr>nt_ip_bad_csum := nt_ip_bad_csum s + 1\<rparr>)
              else if ih_dst_ip h \<noteq> nt_ip s \<and> ih_dst_ip h \<noteq> (255, 255, 255, 255) \<and> nt_ip s \<noteq> (0, 0, 0, 0) \<and>
                \<not> is_loopback_addr (ih_dst_ip h) then Some s
              else if length data < hlen then Some s
              else do {
                payload \<leftarrow> slice hlen (clamp_payload_to_total_length (unat (ih_total_length h)) hlen (length data)) data;
                if ih_protocol h = PROTO_ICMP then handle_icmp res (ih_src_ip h) payload s
                else if ih_protocol h = PROTO_UDP then handle_udp (ih_src_ip h) (ih_dst_ip h) payload s
                else if ih_protocol h = PROTO_TCP then Some (tcp (ih_src_ip h) (ih_dst_ip h) payload s)
                else Some s
              }
            }
   }"

fun handle_all :: "resolver \<Rightarrow> tcp_handler \<Rightarrow> u8 list list \<Rightarrow> net \<Rightarrow> net option" where
  "handle_all res tcp [] s = Some s"
| "handle_all res tcp (p # ps) s = handle_ipv4 res tcp p s \<bind> handle_all res tcp ps"

definition lo_poll :: "resolver \<Rightarrow> tcp_handler \<Rightarrow> net \<Rightarrow> net option" where
  "lo_poll res tcp s =
     (if nt_lo_queue s = [] then Some s
      else
        (let drained = nt_lo_queue s
         in handle_all res tcp drained
              (s\<lparr>nt_lo_queue := [], nt_lo_pkts_in := nt_lo_pkts_in s + of_nat (length drained),
                 nt_lo_bytes_in := nt_lo_bytes_in s + sum_list (map (\<lambda>p. of_nat (length p)) drained)\<rparr>)))"

definition lo_stats :: "net \<Rightarrow> u64 \<times> u64 \<times> u64 \<times> u64 \<times> u64" where
  "lo_stats s = (nt_lo_pkts_in s, nt_lo_pkts_out s, nt_lo_bytes_in s, nt_lo_bytes_out s, nt_lo_drops s)"

definition handle_frame :: "resolver \<Rightarrow> tcp_handler \<Rightarrow> ipv6_handler \<Rightarrow> u64 \<Rightarrow> u8 list \<Rightarrow> net \<Rightarrow> net option" where
  "handle_frame res tcp ip6 now data s =
     (if length data < ETH_HEADER_SIZE then Some s
      else do {
        dst_mac \<leftarrow> mac_slice 0 6 data;
        src_mac \<leftarrow> mac_slice 6 12 data;
        ethertype \<leftarrow> be16 data 12;
        let is_multicast = (fst dst_mac = 0x33 \<and> fst (snd dst_mac) = 0x33);
        if dst_mac \<noteq> nt_mac s \<and> dst_mac \<noteq> BROADCAST_MAC \<and> \<not> is_multicast then Some s
        else do {
          payload \<leftarrow> slice ETH_HEADER_SIZE (length data) data;
          if ethertype = ETHERTYPE_ARP then handle_arp now payload s
          else if ethertype = ETHERTYPE_IPV4 then handle_ipv4 res tcp payload s
          else if ethertype = ETHERTYPE_IPV6 then Some (ip6 payload s)
          else Some s
        }
      })"

definition handle_rx_packet :: "resolver \<Rightarrow> tcp_handler \<Rightarrow> ipv6_handler \<Rightarrow> u64 \<Rightarrow> u8 list \<Rightarrow> net \<Rightarrow> net option" where
  "handle_rx_packet res tcp ip6 now data s =
     handle_frame res tcp ip6 now data (s\<lparr>nt_packets_rx := nt_packets_rx s + 1, nt_bytes_rx := nt_bytes_rx s + of_nat (length data)\<rparr>)"

text \<open>A poll delivers the loopback queue, the frames the device has (each with the ticks at its handling), and
  runs the TCP timer.\<close>

fun rx_all :: "resolver \<Rightarrow> tcp_handler \<Rightarrow> ipv6_handler \<Rightarrow> (u64 \<times> u8 list) list \<Rightarrow> net \<Rightarrow> net option" where
  "rx_all res tcp ip6 [] s = Some s"
| "rx_all res tcp ip6 ((now, data) # fs) s = handle_rx_packet res tcp ip6 now data s \<bind> rx_all res tcp ip6 fs"

definition net_poll :: "resolver \<Rightarrow> tcp_handler \<Rightarrow> ipv6_handler \<Rightarrow> (net \<Rightarrow> net) \<Rightarrow> (u64 \<times> u8 list) list \<Rightarrow> net \<Rightarrow> net option" where
  "net_poll res tcp ip6 tcp_timer_tick frames s = do {
     s1 \<leftarrow> lo_poll res tcp s;
     s2 \<leftarrow> rx_all res tcp ip6 frames s1;
     Some (tcp_timer_tick s2)
   }"

definition polls_of :: "(u64 \<times> poll_list) list \<Rightarrow> (net \<Rightarrow> net option) set" where
  "polls_of env = set (map fst (concat (map snd env)))"

text \<open>The clock and the polls of a resolution may depend on the address and the state it starts in; each of
  its polls is one of the stack, with whatever frames arrive and with a resolver of the same kind.\<close>

inductive stack_resolver :: "tcp_handler \<Rightarrow> ipv6_handler \<Rightarrow> (net \<Rightarrow> net) \<Rightarrow> resolver \<Rightarrow> bool" for tcp ip6 tick where
  "(\<And>ip s poll. poll \<in> polls_of (env ip s) \<Longrightarrow> \<exists>res frames. stack_resolver tcp ip6 tick res \<and> poll = net_poll res tcp ip6 tick frames) \<Longrightarrow>
    stack_resolver tcp ip6 tick (\<lambda>ip s. resolve_mac (now ip s) (env ip s) ip s)"

section \<open>No panic on received bytes\<close>

lemma idx_in: "i < length xs \<Longrightarrow> idx xs i = Some (xs ! i)"
  by (simp add: idx_def)

lemma set_idx_in: "i < length xs \<Longrightarrow> set_idx i v xs = Some (xs[i := v])"
  by (simp add: set_idx_def)

lemma be16_in: "i + 1 < length xs \<Longrightarrow> be16 xs i = Some (from_be_bytes (xs ! i) (xs ! (i + 1)))"
  unfolding be16_def by (simp add: idx_def)

lemma slice_in: "a \<le> b \<Longrightarrow> b \<le> length xs \<Longrightarrow> slice a b xs = Some (take (b - a) (drop a xs))"
  by (simp add: slice_def)

lemma store_checksum_in:
  "i + 1 < length xs \<Longrightarrow> store_checksum i c xs = Some (xs[i := ucast (drop_bit 8 c), i + 1 := ucast (c AND 0xFF)])"
  by (simp add: store_checksum_def set_idx_def)

lemma mac_of_length: "length xs = 6 \<Longrightarrow> \<exists>m. mac_of xs = Some m"
  by (auto simp: length_Suc_conv numeral_eq_Suc)

lemma ip_of_length: "length xs = 4 \<Longrightarrow> \<exists>a. ip_of xs = Some a"
  by (auto simp: length_Suc_conv numeral_eq_Suc)

lemma ip_slice_in: "b \<le> length xs \<Longrightarrow> b = a + 4 \<Longrightarrow> \<exists>i. ip_slice a b xs = Some i"
  using ip_of_length [of "take 4 (drop a xs)"] by (simp add: ip_slice_def slice_def)

lemma mac_slice_in: "b \<le> length xs \<Longrightarrow> b = a + 6 \<Longrightarrow> \<exists>m. mac_slice a b xs = Some m"
  using mac_of_length [of "take 6 (drop a xs)"] by (simp add: mac_slice_def slice_def)

lemma ip_bytes_length [simp]: "length (ip_bytes a) = 4"
  by (cases a) simp

lemma mac_bytes_length [simp]: "length (mac_bytes a) = 6"
  by (cases a) simp

lemmas [simp] = to_be_bytes_length

lemma ipv4_packet_some: "\<exists>p. ipv4_packet a b i pr pl = Some p"
  by (simp add: ipv4_packet_def Let_def slice_in)

lemma udp_parse_in:
  "8 \<le> length d \<Longrightarrow> udp_parse d = Some (Some \<lparr>uh_src_port = from_be_bytes (d ! 0) (d ! 1), uh_dst_port = from_be_bytes (d ! 2) (d ! 3),
     uh_length = from_be_bytes (d ! 4) (d ! 5), uh_checksum = from_be_bytes (d ! 6) (d ! 7)\<rparr>)"
proof -
  assume "8 \<le> length d"
  then have "0 + 1 < length d" "2 + 1 < length d" "4 + 1 < length d" "6 + 1 < length d" "\<not> length d < 8" by linarith+
  then show ?thesis unfolding udp_parse_def by (simp only: be16_in if_False) (simp add: eval_nat_numeral)
qed

lemma udp_parse_total: "\<exists>h. udp_parse d = Some h"
  using udp_parse_in [of d] by (cases "length d < 8") (auto simp: udp_parse_def)

lemma ipv4_parse_total: "\<exists>h. ipv4_parse d = Some h"
proof (cases "length d < 20")
  case False
  then have l: "16 \<le> length d" "20 \<le> length d" by linarith+
  have k: "0 < length d" "2 + 1 < length d" "4 + 1 < length d" "6 < length d" "7 < length d" "8 < length d" "9 < length d"
    "10 + 1 < length d" using False by linarith+
  obtain i where i: "ip_slice 12 16 d = Some i" using ip_slice_in [OF l(1), of 12] by fastforce
  obtain j where j: "ip_slice 16 20 d = Some j" using ip_slice_in [OF l(2), of 16] by fastforce
  show ?thesis using False k unfolding ipv4_parse_def by (simp only: be16_in idx_in if_False i j) simp
qed (simp add: ipv4_parse_def)

lemma clamp_bounds: "st \<le> n \<Longrightarrow> st \<le> clamp_payload_to_total_length t st n \<and> clamp_payload_to_total_length t st n \<le> n"
  by (auto simp: clamp_payload_to_total_length_def Let_def)

section \<open>Bounded queues\<close>

definition net_ok :: "net \<Rightarrow> bool" where
  "net_ok s \<longleftrightarrow> arp_ok (nt_arp s) \<and> distinct (map ub_port (nt_udp s)) \<and> (\<forall>b \<in> set (nt_udp s). length (ub_queue b) \<le> UDP_PORT_QUEUE_CAP) \<and>
     length (nt_lo_queue s) \<le> LOOPBACK_QUEUE_CAP"

lemma net_ok_cong:
  "nt_arp t = nt_arp s \<Longrightarrow> nt_udp t = nt_udp s \<Longrightarrow> nt_lo_queue t = nt_lo_queue s \<Longrightarrow> net_ok t = net_ok s"
  by (simp add: net_ok_def)

lemma net_ok_counters [simp]:
  "net_ok (s\<lparr>nt_ip_id := i\<rparr>) = net_ok s" "net_ok (s\<lparr>nt_ip_bad_csum := c\<rparr>) = net_ok s" "net_ok (s\<lparr>nt_icmp_bad_csum := c\<rparr>) = net_ok s"
  "net_ok (s\<lparr>nt_udp_bad_csum := c\<rparr>) = net_ok s" "net_ok (s\<lparr>nt_udp_queue_full := c\<rparr>) = net_ok s"
  "net_ok (s\<lparr>nt_packets_rx := c, nt_bytes_rx := d\<rparr>) = net_ok s" "net_ok (s\<lparr>nt_last_reply := r, nt_reply_received := b\<rparr>) = net_ok s"
  by (simp_all add: net_ok_def)

lemma send_frame_ok [simp]: "net_ok (send_frame f s) = net_ok s"
  by (rule net_ok_cong) (simp_all add: send_frame_def)

lemma lo_enqueue_ok: "net_ok s \<Longrightarrow> net_ok (lo_enqueue p s)"
  by (auto simp: net_ok_def lo_enqueue_def)

section \<open>Reception, at any depth of nesting\<close>

text \<open>A resolver that never panics, as far as this path is concerned.\<close>

definition total_resolver :: "resolver \<Rightarrow> bool" where
  "total_resolver res \<longleftrightarrow> (\<forall>ip s. \<exists>m s'. res ip s = Some (m, s'))"

lemma send_ipv4_total: "total_resolver res \<Longrightarrow> \<exists>s'. send_ipv4 res dst pr pl s = Some s'"
proof -
  assume t: "total_resolver res"
  define src where "src = (if is_loopback_addr dst then dst else nt_ip s)"
  obtain p where p: "ipv4_packet src dst (nt_ip_id s) pr pl = Some p" using ipv4_packet_some by blast
  obtain m s2 where r: "res dst (s\<lparr>nt_ip_id := nt_ip_id s + 1\<rparr>) = Some (m, s2)" using t unfolding total_resolver_def by blast
  show ?thesis by (simp add: send_ipv4_def Let_def src_def [symmetric] p r)
qed

lemma send_echo_reply_eq: "8 \<le> length d \<Longrightarrow> \<exists>r. send_echo_reply res dst d s = send_ipv4 res dst PROTO_ICMP r s"
proof -
  assume "8 \<le> length d"
  then have l: "0 < length d" "1 < length d" "2 < length d" "3 < length d" by linarith+
  define r where "r = d[0 := 0, 1 := 0, 2 := 0, 3 := 0]"
  have "set_idx 0 0 d \<bind> set_idx 1 0 \<bind> set_idx 2 0 \<bind> set_idx 3 0 = Some r" using l by (simp add: set_idx_def r_def)
  moreover obtain r' where "store_checksum 2 (checksum r) r = Some r'" using l(4) by (simp add: store_checksum_in r_def)
  ultimately have "send_echo_reply res dst d s = send_ipv4 res dst PROTO_ICMP r' s" unfolding send_echo_reply_def by simp
  then show ?thesis by blast
qed

lemma handle_icmp_total: "total_resolver res \<Longrightarrow> \<exists>s'. handle_icmp res src d s = Some s'"
proof (cases "length d < 8")
  case False
  assume t: "total_resolver res"
  have l: "0 < length d" "1 < length d" "4 < length d" "5 < length d" "6 < length d" "7 < length d" using False by linarith+
  obtain r where "send_echo_reply res src d s = send_ipv4 res src PROTO_ICMP r s" using send_echo_reply_eq [of d res src s] False by auto
  then show ?thesis using send_ipv4_total [OF t] False l by (simp add: handle_icmp_def idx_def)
qed (simp add: handle_icmp_def)

lemma enqueue_datagram_ok:
  assumes "net_ok s" and "List.find (\<lambda>b. ub_port b = p) (nt_udp s) = Some bd" and "length (ub_queue bd) < UDP_PORT_QUEUE_CAP"
  shows "net_ok (s\<lparr>nt_udp := upd_first (\<lambda>b. ub_port b = p) (\<lambda>b. b\<lparr>ub_queue := ub_queue b @ [d]\<rparr>) (nt_udp s), nt_rings := n\<rparr>)"
proof -
  have "length (ub_queue b) \<le> UDP_PORT_QUEUE_CAP"
    if "b \<in> set (upd_first (\<lambda>b. ub_port b = p) (\<lambda>b. b\<lparr>ub_queue := ub_queue b @ [d]\<rparr>) xs)"
      "\<forall>b \<in> set xs. length (ub_queue b) \<le> UDP_PORT_QUEUE_CAP" "List.find (\<lambda>b. ub_port b = p) xs = Some bd" for b xs
    using that by (induction xs) (use assms(3) in \<open>auto split: if_splits\<close>)
  then show ?thesis using assms(1,2) by (auto simp: net_ok_def map_upd_first)
qed

lemma ex_SomeI: "\<exists>x. m = Some x \<and> P x \<Longrightarrow> \<exists>x. m = Some x"
  by blast

lemma handle_udp_ok: "\<exists>s'. handle_udp src dst d s = Some s' \<and> (net_ok s \<longrightarrow> net_ok s')"
proof -
  obtain h where "udp_parse d = Some h" using udp_parse_total by blast
  then show ?thesis by (auto simp: handle_udp_def Let_def slice_def not_le intro!: enqueue_datagram_ok split: option.split)
qed

lemma handle_arp_ok: "\<exists>s'. handle_arp now d s = Some s' \<and> (net_ok s \<longrightarrow> net_ok s')"
proof (cases "length d < 28")
  case False
  have l: "6 < length d" "7 < length d" "14 \<le> length d" "18 \<le> length d" "28 \<le> length d" using False by linarith+
  obtain m where m: "mac_slice 8 14 d = Some m" using mac_slice_in [OF l(3), of 8] by fastforce
  obtain i where i: "ip_slice 14 18 d = Some i" using ip_slice_in [OF l(4), of 14] by fastforce
  obtain j where j: "ip_slice 24 28 d = Some j" using ip_slice_in [OF l(5), of 24] by fastforce
  have "net_ok s \<Longrightarrow> net_ok (s\<lparr>nt_arp := update_cache_at i m now (nt_arp s)\<rparr>)" using update_cache_ok by (simp add: net_ok_def)
  then show ?thesis using False l(1,2) by (simp add: handle_arp_def Let_def idx_def m i j send_reply_def)
qed (simp add: handle_arp_def)

lemma handle_ipv4_total: "total_resolver res \<Longrightarrow> \<exists>s'. handle_ipv4 res tcp d s = Some s'"
proof -
  assume t: "total_resolver res"
  obtain p where p: "ipv4_parse d = Some p" using ipv4_parse_total by blast
  show ?thesis
  proof (cases p)
    case None
    with p show ?thesis by (simp add: handle_ipv4_def)
  next
    case (Some hd)
    define e where "e = clamp_payload_to_total_length (unat (ih_total_length hd)) (header_len hd) (length d)"
    have e: "\<not> length d < header_len hd \<Longrightarrow> header_len hd \<le> e \<and> e \<le> length d" using clamp_bounds by (simp add: e_def)
    then show ?thesis using handle_icmp_total [OF t] ex_SomeI [OF handle_udp_ok]
      by (simp add: handle_ipv4_def p Some Let_def e_def [symmetric] slice_def)
  qed
qed

lemma handle_frame_total: "total_resolver res \<Longrightarrow> \<exists>s'. handle_frame res tcp ip6 now d s = Some s'"
proof (cases "length d < ETH_HEADER_SIZE")
  case False
  assume t: "total_resolver res"
  have l: "6 \<le> length d" "12 \<le> length d" "12 + 1 < length d" "14 \<le> length d" using False by linarith+
  obtain m where m: "mac_slice 0 6 d = Some m" using mac_slice_in [OF l(1), of 0] by fastforce
  obtain n where n: "mac_slice 6 12 d = Some n" using mac_slice_in [OF l(2), of 6] by fastforce
  show ?thesis using False l(4) ex_SomeI [OF handle_arp_ok] handle_ipv4_total [OF t]
    by (simp add: handle_frame_def m n be16_in [OF l(3)] Let_def slice_def)
qed (simp add: handle_frame_def)

lemma rx_total: "total_resolver res \<Longrightarrow> \<exists>s'. handle_rx_packet res tcp ip6 now d s = Some s'"
  using handle_frame_total by (simp add: handle_rx_packet_def)

lemma net_poll_total: "total_resolver res \<Longrightarrow> \<exists>s'. net_poll res tcp ip6 tick fs s = Some s'"
proof -
  assume t: "total_resolver res"
  have "\<exists>s'. handle_all res tcp ps s = Some s'" for ps s
  proof (induction ps arbitrary: s)
    case (Cons p ps)
    obtain s1 where "handle_ipv4 res tcp p s = Some s1" using handle_ipv4_total [OF t] by blast
    with Cons show ?case by simp
  qed simp
  then obtain s1 where lo: "lo_poll res tcp s = Some s1" by (fastforce simp: lo_poll_def Let_def)
  have "\<exists>s'. rx_all res tcp ip6 fs s = Some s'" for fs s
  proof (induction fs arbitrary: s)
    case (Cons f fs)
    obtain s1 where "handle_rx_packet res tcp ip6 (fst f) (snd f) s = Some s1" using rx_total [OF t] by blast
    with Cons show ?case by (cases f) simp
  qed simp
  then obtain s2 where "rx_all res tcp ip6 fs s1 = Some s2" by blast
  with lo show ?thesis by (simp add: net_poll_def)
qed

lemma resolve_polls_total:
  "\<forall>x \<in> set ps. \<forall>s. \<exists>s'. fst x s = Some s' \<Longrightarrow> \<exists>r. resolve_polls hop dl ps s = Some r"
proof (induction hop dl ps s rule: resolve_polls.induct)
  case (2 hop dl poll t1 t2 ps s)
  obtain s1 where "poll s = Some s1" using "2.prems" by fastforce
  with 2 show ?case by (auto split: option.split)
qed simp

lemma resolve_attempts_total:
  "\<forall>poll \<in> polls_of env. \<forall>s. \<exists>s'. poll s = Some s' \<Longrightarrow> \<exists>r. resolve_attempts hop env n s = Some r"
proof (induction hop env n s rule: resolve_attempts.induct)
  case (3 hop start ps env n s)
  have "\<forall>x \<in> set ps. \<forall>s. \<exists>s'. fst x s = Some s'" using "3.prems" by (simp add: polls_of_def)
  then obtain a s1 where r: "resolve_polls hop (start + 17) ps (send_request hop s) = Some (a, s1)"
    using resolve_polls_total [of ps hop "start + 17" "send_request hop s"] by fastforce
  have "\<forall>poll \<in> polls_of env. \<forall>s. \<exists>s'. poll s = Some s'" using "3.prems" by (simp add: polls_of_def)
  with "3.IH" [OF r refl] r show ?case by (cases a) auto
qed simp_all

lemma stack_resolver_total: "stack_resolver tcp ip6 tick res \<Longrightarrow> total_resolver res"
proof (induction rule: stack_resolver.induct)
  case (1 env now)
  have "\<exists>s''. poll s' = Some s''" if p: "poll \<in> polls_of (env ip s)" for poll ip s s'
  proof -
    obtain r fs where "total_resolver r" "poll = net_poll r tcp ip6 tick fs" using "1.IH" [OF p] by blast
    then show ?thesis using net_poll_total by simp
  qed
  then have "\<exists>r. resolve_attempts hop (env ip s) n s' = Some r" for hop ip s n s'
    by (intro resolve_attempts_total) blast
  then show ?case by (simp add: total_resolver_def resolve_mac_def Let_def split: option.split)
qed

text \<open>
  C25: No received frame makes the datagram path panic. However malformed the bytes of a frame, and in
  whatever state, the Ethernet, ARP, IPv4, ICMP and UDP code handles it without an out-of-range index or
  slice, and so it does for all frames and loopback packets that are delivered while an echo reply waits
  for a hardware address and \<open>resolve_mac\<close> polls the stack, to any depth of nesting. TCP segments and
  IPv6 packets are handed to their handlers, which together with the TCP timer are arbitrary functions
  here: a panic inside them is not covered.\<close>

theorem rx_never_panics:
  assumes "stack_resolver tcp ip6 tick res"
  shows "\<exists>s'. handle_rx_packet res tcp ip6 now data s = Some s'"
  by (rule rx_total [OF stack_resolver_total [OF assms]])

definition demo_net :: net where
  "demo_net =
     \<lparr>nt_mac = (0x52, 0x54, 0, 0x12, 0x34, 0x56), nt_ip = (10, 0, 2, 15), nt_gateway = (10, 0, 2, 2), nt_mask = (255, 255, 255, 0),
      nt_packets_rx = 0, nt_packets_tx = 0, nt_bytes_rx = 0, nt_bytes_tx = 0, nt_sent = [], nt_arp = [], nt_ip_bad_csum = 0,
      nt_ip_id = 1, nt_ip_id2 = 0x8000, nt_icmp_bad_csum = 0, nt_last_reply = None, nt_reply_received = False,
      nt_udp = [\<lparr>ub_port = 53, ub_queue = []\<rparr>], nt_udp_bad_csum = 0, nt_udp_queue_full = 0, nt_rings = 0, nt_lo_queue = [],
      nt_lo_pkts_in = 0, nt_lo_pkts_out = 0, nt_lo_bytes_in = 0, nt_lo_bytes_out = 0, nt_lo_drops = 0\<rparr>"

text \<open>An echo request from 10.0.2.9, whose hardware address is not cached.\<close>

definition demo_echo_frame :: "u8 list" where
  "demo_echo_frame = replicate 12 0xFF @ [8, 0] @ [69, 0, 0, 28, 0, 1, 0, 0, 64, 1, 98, 201, 10, 0, 2, 9, 10, 0, 2, 15] @ [8, 0, 247, 247, 0, 7, 0, 1]"

text \<open>A resolver that makes one poll, in which a truncated IPv4 frame arrives, after its first request.\<close>

definition demo_resolver :: "resolver" where
  "demo_resolver =
     (\<lambda>ip s. resolve_mac 0
        [(0, [(net_poll (\<lambda>ip s. resolve_mac 0 [] ip s) (\<lambda>_ _ _ s. s) (\<lambda>_ s. s) (\<lambda>s. s) [(1, replicate 12 0xFF @ [8, 0, 0x4F])], 1, 20)])] ip s)"

theorem rx_never_panics_witness:
  "stack_resolver (\<lambda>_ _ _ s. s) (\<lambda>_ s. s) (\<lambda>s. s) demo_resolver \<and>
   (\<exists>s'. handle_rx_packet demo_resolver (\<lambda>_ _ _ s. s) (\<lambda>_ s. s) 0 demo_echo_frame demo_net = Some s')"
proof -
  have "stack_resolver (\<lambda>_ _ _ s. s) (\<lambda>_ s. s) (\<lambda>s. s) (\<lambda>ip s. resolve_mac 0 [] ip s)"
    by (rule stack_resolver.intros [where env = "\<lambda>_ _. []" and now = "\<lambda>_ _. 0"]) (simp add: polls_of_def)
  then have h: "stack_resolver (\<lambda>_ _ _ s. s) (\<lambda>_ s. s) (\<lambda>s. s) demo_resolver"
    unfolding demo_resolver_def by (intro stack_resolver.intros) (auto simp: polls_of_def)
  from rx_never_panics [OF h] h show ?thesis by blast
qed

end
