(* ===== verification/Net_Loopback.thy ===== *)
theory Net_Loopback
  imports Net_Stack
begin

text \<open>
  The senders and the receivers of \<open>Net_Stack\<close> composed: what \<open>ipv4_packet\<close> builds is what \<open>ipv4_parse\<close> reads and
  \<open>verify_checksum\<close> accepts, the same for UDP datagrams, and therefore a datagram sent to a loopback address
  arrives in the queue of its port.
\<close>

section \<open>Headers\<close>

definition ip_head :: "u16 \<Rightarrow> u16 \<Rightarrow> u8 \<Rightarrow> u8 list" where
  "ip_head total_length ident protocol =
     [0x45, 0] @ to_be_bytes total_length @ to_be_bytes ident @ to_be_bytes 0x4000 @ [64, protocol]"

lemma low_byte: "ucast (c AND 0xFF) = (ucast c :: u8)" for c :: u16
proof -
  have "c AND 0xFF = take_bit 8 c" by (simp add: take_bit_eq_mask mask_eq_exp_minus_1)
  then show ?thesis by (auto intro!: bit_word_eqI simp: bit_ucast_iff bit_take_bit_iff)
qed

lemma ip_head_length: "length (ip_head t i pr) = 10"
  by (simp add: ip_head_def)

text \<open>The packet is the header with its own checksum, followed by the payload.\<close>

lemma ipv4_packet_form:
  "ipv4_packet src dst i pr pl =
     Some (ip_head (of_nat (20 + length pl)) i pr @
       to_be_bytes (checksum (ip_head (of_nat (20 + length pl)) i pr @ [0, 0] @ ip_bytes src @ ip_bytes dst)) @
       ip_bytes src @ ip_bytes dst @ pl)"
proof -
  define h where "h = ip_head (of_nat (20 + length pl)) i pr"
  define z where "z = h @ [0, 0] @ ip_bytes src @ ip_bytes dst"
  have h: "length h = 10" by (simp add: h_def ip_head_length)
  then have z: "length z = 20" by (simp add: z_def)
  have "z[10 := a, 11 := b] = h @ [a, b] @ ip_bytes src @ ip_bytes dst" for a b
    using h by (simp add: z_def list_update_append)
  moreover have "[0x45, 0] @ to_be_bytes (of_nat (20 + length pl)) @ to_be_bytes i @ to_be_bytes 0x4000 @ [64, pr, 0, 0] @
      ip_bytes src @ ip_bytes dst = z" by (simp add: z_def h_def ip_head_def)
  moreover have "slice 0 20 z = Some z" using z by (simp add: slice_def)
  ultimately show ?thesis
    unfolding ipv4_packet_def Let_def h_def [symmetric] by (simp only: bind.bind_lunit low_byte) (simp add: z_def to_be_bytes_def)
qed

lemma ip_header_verifies:
  "verify_checksum (ip_head t i pr @ to_be_bytes (checksum (ip_head t i pr @ [0, 0] @ ip_bytes src @ ip_bytes dst)) @ ip_bytes src @ ip_bytes dst)"
  using checksum_embeds [of "ip_head t i pr" "ip_bytes src @ ip_bytes dst"] by (simp add: ip_head_length)

lemma be_zero: "from_be_bytes 0 0x4000 = 0"
  by (simp add: from_be_bytes_def)

lemma ip_header_parses:
  "ipv4_parse (ip_head t i pr @ to_be_bytes c @ ip_bytes src @ ip_bytes dst @ pl) =
     Some (Some \<lparr>ih_version = 4, ih_ihl = 5, ih_total_length = t, ih_identification = i, ih_flags = 2, ih_fragment_offset = 0,
       ih_ttl = 64, ih_protocol = pr, ih_header_checksum = c, ih_src_ip = src, ih_dst_ip = dst\<rparr>)"
proof -
  obtain a b d e where src: "src = (a, b, d, e)" by (metis prod.exhaust)
  obtain f g h j where dst: "dst = (f, g, h, j)" by (metis prod.exhaust)
  show ?thesis
    by (simp add: src dst ip_head_def to_be_bytes_def ipv4_parse_def idx_def be16_def ip_slice_def slice_def from_to_be_bytes
        be_zero)
qed

definition udp_head :: "u16 \<Rightarrow> u16 \<Rightarrow> nat \<Rightarrow> u8 list" where
  "udp_head src_port dst_port n = to_be_bytes src_port @ to_be_bytes dst_port @ to_be_bytes (of_nat (8 + n))"

lemma udp_head_length: "length (udp_head sp dp n) = 6"
  by (simp add: udp_head_def)

lemma pseudo_header_length: "length (pseudo_header a b d) = 12"
  by (simp add: pseudo_header_def)

lemma pseudo_header_cong: "length d = length d' \<Longrightarrow> pseudo_header a b d = pseudo_header a b d'"
  by (simp add: pseudo_header_def)

lemma udp_packet_form:
  assumes "length pl \<le> 65507"
  shows "\<exists>c. udp_packet src dst sp dp pl = Some (udp_head sp dp (length pl) @ to_be_bytes c @ pl) \<and>
    verify_udp_checksum src dst (udp_head sp dp (length pl) @ to_be_bytes c @ pl)"
proof -
  define h where "h = udp_head sp dp (length pl)"
  define z where "z = h @ [0, 0] @ pl"
  define ps where "ps = pseudo_header src dst z"
  define c where "c = checksum (ps @ z)"
  have h: "length h = 6" and ps: "length ps = 12" by (simp_all add: h_def udp_head_length ps_def pseudo_header_length)
  have same: "(ps @ z)[18 := 0, 19 := 0] = ps @ z" using h ps by (simp add: z_def list_update_append)
  have big: "19 < length (ps @ z)" using h ps by (simp add: z_def)
  have "udp_checksum src dst z = c"
    unfolding udp_checksum_def Let_def ps_def [symmetric] if_P [OF big] same c_def ..
  moreover have "store_checksum 6 c z = Some (h @ to_be_bytes c @ pl)"
    using h by (simp add: store_checksum_in z_def list_update_append low_byte to_be_bytes_def)
  moreover have "to_be_bytes sp @ to_be_bytes dp @ to_be_bytes (of_nat (8 + length pl)) @ [0, 0] @ pl = z"
    by (simp add: z_def h_def udp_head_def)
  ultimately have "udp_packet src dst sp dp pl = Some (h @ to_be_bytes c @ pl)" unfolding udp_packet_def Let_def by (simp only:)
  moreover have "pseudo_header src dst (h @ to_be_bytes c @ pl) = ps"
    unfolding ps_def by (rule pseudo_header_cong) (simp add: z_def)
  moreover have "verify_checksum ((ps @ h) @ to_be_bytes c @ pl)"
    using checksum_embeds [of "ps @ h" pl] h ps assms by (simp add: c_def z_def)
  ultimately show ?thesis by (auto simp: verify_udp_checksum_def h_def)
qed

lemma udp_head_parses:
  assumes "length pl \<le> 65507"
  shows "udp_parse (udp_head sp dp (length pl) @ to_be_bytes c @ pl) =
    Some (Some \<lparr>uh_src_port = sp, uh_dst_port = dp, uh_length = of_nat (8 + length pl), uh_checksum = c\<rparr>)"
  by (simp add: udp_head_def to_be_bytes_def udp_parse_in from_to_be_bytes del: of_nat_add)

lemma unat_u16_small: "n < 65536 \<Longrightarrow> unat (of_nat n :: u16) = n"
  by (simp add: unsigned_of_nat take_bit_nat_eq_self)

definition deliver :: "ipv4_address \<Rightarrow> u16 \<Rightarrow> u16 \<Rightarrow> u8 list \<Rightarrow> net \<Rightarrow> net" where
  "deliver src sp dp pl s =
     s\<lparr>nt_udp := upd_first (\<lambda>b. ub_port b = dp) (\<lambda>b. b\<lparr>ub_queue := ub_queue b @ [\<lparr>ud_src_ip = src, ud_src_port = sp, ud_data = pl\<rparr>]\<rparr>) (nt_udp s),
       nt_rings := nt_rings s + 1\<rparr>"

lemma handle_udp_delivers:
  assumes "length pl \<le> 65507" and "verify_udp_checksum src dst (udp_head sp dp (length pl) @ to_be_bytes c @ pl)"
    and "List.find (\<lambda>b. ub_port b = dp) (nt_udp s) = Some bd" and "length (ub_queue bd) < UDP_PORT_QUEUE_CAP"
  shows "handle_udp src dst (udp_head sp dp (length pl) @ to_be_bytes c @ pl) s = Some (deliver src sp dp pl s)"
proof -
  define d where "d = udp_head sp dp (length pl) @ to_be_bytes c @ pl"
  have l: "length d = 8 + length pl" by (simp add: d_def udp_head_length)
  have u: "unat (of_nat (8 + length pl) :: u16) = 8 + length pl" by (rule unat_u16_small) (use assms(1) in simp)
  have sl: "slice 0 (8 + length pl) d = Some d" "slice 8 (8 + length pl) d = Some pl"
    using l by (simp_all add: slice_def d_def udp_head_def to_be_bytes_def)
  have p: "udp_parse d = Some (Some \<lparr>uh_src_port = sp, uh_dst_port = dp, uh_length = of_nat (8 + length pl), uh_checksum = c\<rparr>)"
    unfolding d_def by (rule udp_head_parses [OF assms(1)])
  show ?thesis unfolding d_def [symmetric] handle_udp_def p
    using assms(2-4) l by (simp add: Let_def u sl d_def [symmetric] deliver_def del: of_nat_add)
qed

section \<open>Delivery\<close>

lemma handle_ipv4_delivers:
  assumes "is_loopback_addr dst" and "length pl \<le> 65507" and "ipv4_packet dst dst i PROTO_UDP d = Some p"
    and "d = udp_head sp dp (length pl) @ to_be_bytes c @ pl" and "verify_udp_checksum dst dst d"
    and "List.find (\<lambda>b. ub_port b = dp) (nt_udp s) = Some bd" and "length (ub_queue bd) < UDP_PORT_QUEUE_CAP"
  shows "handle_ipv4 res tcp p s = Some (deliver dst sp dp pl s)"
proof -
  define t where "t = (of_nat (20 + length d) :: u16)"
  define h where "h = ip_head t i PROTO_UDP"
  define k where "k = to_be_bytes (checksum (h @ [0, 0] @ ip_bytes dst @ ip_bytes dst))"
  have p: "p = h @ k @ ip_bytes dst @ ip_bytes dst @ d"
    using assms(3) by (simp add: ipv4_packet_form k_def h_def t_def)
  have ld: "length d = 8 + length pl" using assms(4) by (simp add: udp_head_length)
  have hl: "length h = 10" "length k = 2" by (simp_all add: h_def ip_head_length k_def)
  have lp: "length p = 20 + length d" using hl by (simp add: p)
  have u: "unat t = 20 + length d" unfolding t_def by (rule unat_u16_small) (use ld assms(2) in simp)
  have parse: "ipv4_parse p = Some (Some \<lparr>ih_version = 4, ih_ihl = 5, ih_total_length = t, ih_identification = i, ih_flags = 2,
      ih_fragment_offset = 0, ih_ttl = 64, ih_protocol = PROTO_UDP, ih_header_checksum = checksum (h @ [0, 0] @ ip_bytes dst @ ip_bytes dst),
      ih_src_ip = dst, ih_dst_ip = dst\<rparr>)" unfolding p k_def h_def by (rule ip_header_parses)
  have sl: "slice 0 20 p = Some (h @ k @ ip_bytes dst @ ip_bytes dst)" "slice 20 (length p) p = Some d"
    using hl by (simp_all add: slice_def p)
  have ver: "verify_checksum (h @ k @ ip_bytes dst @ ip_bytes dst)" unfolding h_def k_def by (rule ip_header_verifies)
  have cl: "clamp_payload_to_total_length (unat t) 20 (length p) = length p" by (simp add: clamp_payload_to_total_length_def u lp)
  have del: "handle_udp dst dst d s = Some (deliver dst sp dp pl s)"
    unfolding assms(4) by (rule handle_udp_delivers [OF assms(2) _ assms(6,7)]) (use assms(4,5) in simp)
  have short: "\<not> length p < 20" using lp by simp
  have hlen: "header_len \<lparr>ih_version = 4, ih_ihl = 5, ih_total_length = t, ih_identification = i, ih_flags = 2,
      ih_fragment_offset = 0, ih_ttl = 64, ih_protocol = PROTO_UDP, ih_header_checksum = x, ih_src_ip = dst, ih_dst_ip = dst\<rparr> = 20" for x
    by (simp add: header_len_def)
  show ?thesis unfolding handle_ipv4_def parse
    using assms(1) ver short del by (simp add: Let_def hlen sl cl)
qed

text \<open>
  C24: A datagram sent to the loopback network arrives. For every 127.x.x.x destination, every payload that
  fits an IPv4 datagram and every bound port whose queue has room, sending the datagram and polling the
  empty loopback queue once appends exactly that payload, with the sender's port and the reflected
  address, to the queue of the port and rings the poll bell once; nothing reaches the network device.
  This composes the UDP and IPv4 senders, their checksums, the parsers and the receive path.\<close>

theorem udp_loopback_delivers:
  assumes "is_loopback_addr dst" and "length payload \<le> 65507" and "nt_lo_queue s = []"
    and "List.find (\<lambda>b. ub_port b = dst_port) (nt_udp s) = Some bd" and "length (ub_queue bd) < UDP_PORT_QUEUE_CAP"
  shows "\<exists>s1 s2. udp_send res dst src_port dst_port payload s = Some s1 \<and> lo_poll res tcp s1 = Some s2 \<and>
    nt_udp s2 = upd_first (\<lambda>b. ub_port b = dst_port)
      (\<lambda>b. b\<lparr>ub_queue := ub_queue b @ [\<lparr>ud_src_ip = dst, ud_src_port = src_port, ud_data = payload\<rparr>]\<rparr>) (nt_udp s) \<and>
    nt_rings s2 = nt_rings s + 1 \<and> nt_sent s2 = nt_sent s \<and> nt_lo_queue s2 = []"
proof -
  obtain c where u: "udp_packet dst dst src_port dst_port payload = Some (udp_head src_port dst_port (length payload) @ to_be_bytes c @ payload)"
    and v: "verify_udp_checksum dst dst (udp_head src_port dst_port (length payload) @ to_be_bytes c @ payload)"
    using udp_packet_form [OF assms(2)] by blast
  define d where "d = udp_head src_port dst_port (length payload) @ to_be_bytes c @ payload"
  obtain p where p: "ipv4_packet dst dst (nt_ip_id s) PROTO_UDP d = Some p" using ipv4_packet_some by blast
  define s1 where "s1 = lo_enqueue p (s\<lparr>nt_ip_id := nt_ip_id s + 1\<rparr>)"
  have send: "udp_send res dst src_port dst_port payload s = Some s1"
    using assms(1) by (simp add: udp_send_def u d_def [symmetric] send_ipv4_def Let_def p s1_def)
  define t where "t = s1\<lparr>nt_lo_queue := [], nt_lo_pkts_in := nt_lo_pkts_in s1 + 1, nt_lo_bytes_in := nt_lo_bytes_in s1 + of_nat (length p)\<rparr>"
  have q: "nt_lo_queue s1 = [p]" and same: "nt_udp t = nt_udp s" "nt_rings t = nt_rings s" "nt_sent t = nt_sent s" "nt_lo_queue t = []"
    using assms(3) by (simp_all add: s1_def lo_enqueue_def t_def)
  have "handle_ipv4 res tcp p t = Some (deliver dst src_port dst_port payload t)"
    by (rule handle_ipv4_delivers [OF assms(1,2) p d_def]) (use v assms(4,5) in \<open>simp_all add: d_def same\<close>)
  then have "lo_poll res tcp s1 = Some (deliver dst src_port dst_port payload t)" by (simp add: lo_poll_def q t_def)
  with send same show ?thesis by (simp add: deliver_def)
qed

theorem udp_loopback_delivers_witness:
  "\<exists>s1 s2. udp_send (\<lambda>_ s. Some (BROADCAST_MAC, s)) (127, 0, 0, 1) 4000 53 [104, 105] demo_net = Some s1 \<and>
     lo_poll (\<lambda>_ s. Some (BROADCAST_MAC, s)) (\<lambda>_ _ _ s. s) s1 = Some s2 \<and>
     fst (udp_recv 53 s2) = Some \<lparr>ud_src_ip = (127, 0, 0, 1), ud_src_port = 4000, ud_data = [104, 105]\<rparr>"
proof -
  have f: "List.find (\<lambda>b. ub_port b = 53) (nt_udp demo_net) = Some \<lparr>ub_port = 53, ub_queue = []\<rparr>" by (simp add: demo_net_def)
  have q: "nt_lo_queue demo_net = []" by (simp add: demo_net_def)
  from udp_loopback_delivers [OF _ _ q f, of "(127, 0, 0, 1)" "[104, 105]" "\<lambda>_ s. Some (BROADCAST_MAC, s)" 4000 "\<lambda>_ _ _ s. s"]
  show ?thesis by (auto simp: udp_recv_def demo_net_def)
qed

end
