(* ===== verification/Tty.thy ===== *)
theory Tty
  imports Rust_Prelude
begin

text \<open>
  The console terminal, \<open>drivers/tty.rs\<close>: its settings, the line discipline \<open>process_input\<close> with canonical and
  raw mode, reading, writing, the keyboard pump and the \<open>ioctl\<close> requests. Bytes that the code passes to
  \<open>write_console_byte\<close> are the first component of the result; the console that shows them is a device. The
  decoded key events are an argument of the pump.
\<close>

section \<open>Settings\<close>

abbreviation ISTRIP :: u32 where "ISTRIP \<equiv> 32"
abbreviation INLCR :: u32 where "INLCR \<equiv> 64"
abbreviation IGNCR :: u32 where "IGNCR \<equiv> 128"
abbreviation ICRNL :: u32 where "ICRNL \<equiv> 256"
abbreviation OPOST :: u32 where "OPOST \<equiv> 1"
abbreviation ONLCR :: u32 where "ONLCR \<equiv> 4"
abbreviation CS8 :: u32 where "CS8 \<equiv> 48"
abbreviation CREAD :: u32 where "CREAD \<equiv> 128"
abbreviation CLOCAL :: u32 where "CLOCAL \<equiv> 2048"
abbreviation ISIG :: u32 where "ISIG \<equiv> 1"
abbreviation ICANON :: u32 where "ICANON \<equiv> 2"
abbreviation ECHO :: u32 where "ECHO \<equiv> 8"
abbreviation ECHOE :: u32 where "ECHOE \<equiv> 16"
abbreviation ECHONL :: u32 where "ECHONL \<equiv> 64"
abbreviation IEXTEN :: u32 where "IEXTEN \<equiv> 32768"
abbreviation VINTR :: nat where "VINTR \<equiv> 0"
abbreviation VQUIT :: nat where "VQUIT \<equiv> 1"
abbreviation VERASE :: nat where "VERASE \<equiv> 2"
abbreviation VKILL :: nat where "VKILL \<equiv> 3"
abbreviation VEOF :: nat where "VEOF \<equiv> 4"
abbreviation VMIN :: nat where "VMIN \<equiv> 6"
abbreviation VSUSP :: nat where "VSUSP \<equiv> 10"
abbreviation LINE_BUF_MAX :: nat where "LINE_BUF_MAX \<equiv> 4096"

record termios =
  c_iflag :: u32
  c_oflag :: u32
  c_cflag :: u32
  c_lflag :: u32
  c_line :: u8
  c_cc :: "u8 list"

definition default_cooked :: termios where
  "default_cooked =
     \<lparr>c_iflag = ICRNL, c_oflag = OPOST OR ONLCR, c_cflag = CS8 OR CREAD OR CLOCAL,
      c_lflag = ECHO OR ECHOE OR ICANON OR ISIG OR IEXTEN, c_line = 0,
      c_cc = [3, 28, 127, 21, 4, 0, 1, 0, 17, 19, 26, 0, 18, 15, 23, 22, 0, 0, 0]\<rparr>"

record winsize =
  ws_row :: u16
  ws_col :: u16
  ws_xpixel :: u16
  ws_ypixel :: u16

record tty =
  ty_termios :: termios
  ty_input_buf :: "u8 list"
  ty_input_ready :: bool
  ty_cooked_buf :: "u8 list"
  ty_winsize :: winsize
  ty_fg_pgid :: u32
  ty_session_id :: u32

definition tty_new :: tty where
  "tty_new =
     \<lparr>ty_termios = default_cooked, ty_input_buf = [], ty_input_ready = False, ty_cooked_buf = [],
      ty_winsize = \<lparr>ws_row = 25, ws_col = 80, ws_xpixel = 0, ws_ypixel = 0\<rparr>, ty_fg_pgid = 0, ty_session_id = 0\<rparr>"

definition flag :: "u32 \<Rightarrow> u32 \<Rightarrow> bool" where
  "flag fs f \<longleftrightarrow> fs AND f \<noteq> 0"

section \<open>Line discipline\<close>

text \<open>Mapping of carriage returns and newlines; \<open>None\<close> is a byte that is ignored.\<close>

definition map_input :: "u32 \<Rightarrow> u8 \<Rightarrow> u8 option" where
  "map_input iflag c =
     (let ch = (if flag iflag ICRNL \<and> c = 13 then 10 else if flag iflag INLCR \<and> c = 10 then 13 else c)
      in if flag iflag IGNCR \<and> ch = 13 then None
         else Some (if flag iflag ISTRIP then ch AND 0x7F else ch))"

text \<open>What a signal character echoes; in canonical mode it also drops the line.\<close>

definition signal_echo :: "termios \<Rightarrow> u8 \<Rightarrow> u8 list option" where
  "signal_echo tm ch =
     (if \<not> flag (c_lflag tm) ISIG then None
      else if ch = c_cc tm ! VINTR then Some [94, 67, 10]
      else if ch = c_cc tm ! VQUIT then Some [94, 92, 10]
      else if ch = c_cc tm ! VSUSP then Some [94, 90, 10]
      else None)"

abbreviation push_limited :: "u8 \<Rightarrow> u8 list \<Rightarrow> u8 list" where
  "push_limited ch buf \<equiv> (if length buf < LINE_BUF_MAX then buf @ [ch] else buf)"

abbreviation commit_line :: "tty \<Rightarrow> tty" where
  "commit_line t \<equiv> t\<lparr>ty_input_ready := True, ty_cooked_buf := ty_input_buf t, ty_input_buf := []\<rparr>"

definition canonical_input :: "u8 \<Rightarrow> tty \<Rightarrow> u8 list \<times> tty" where
  "canonical_input ch t =
     (let lflag = c_lflag (ty_termios t); cc = c_cc (ty_termios t)
      in if ch = cc ! VERASE then
           (if ty_input_buf t \<noteq> [] then (if flag lflag ECHOE then [8, 32, 8] else [], t\<lparr>ty_input_buf := butlast (ty_input_buf t)\<rparr>)
            else ([], t))
         else if ch = cc ! VKILL then
           (if flag lflag ECHO then concat (replicate (length (ty_input_buf t)) [8, 32, 8]) else [], t\<lparr>ty_input_buf := []\<rparr>)
         else if ch = cc ! VEOF then ([], commit_line t)
         else
           (let t1 = t\<lparr>ty_input_buf := push_limited ch (ty_input_buf t)\<rparr>;
                out = (if flag lflag ECHO then [ch] else if flag lflag ECHONL \<and> ch = 10 then [10] else [])
            in (out, if ch = 10 then commit_line t1 else t1)))"

definition process_input :: "u8 \<Rightarrow> tty \<Rightarrow> u8 list \<times> tty" where
  "process_input c t =
     (let lflag = c_lflag (ty_termios t)
      in case map_input (c_iflag (ty_termios t)) c of
           None \<Rightarrow> ([], t)
         | Some ch \<Rightarrow>
             (case signal_echo (ty_termios t) ch of
                Some e \<Rightarrow>
                  (if flag lflag ECHO then e else [],
                   if flag lflag ICANON then t\<lparr>ty_input_buf := [], ty_input_ready := False\<rparr> else t)
              | None \<Rightarrow>
                  if flag lflag ICANON then canonical_input ch t
                  else (if flag lflag ECHO then [ch] else [], t\<lparr>ty_input_buf := push_limited ch (ty_input_buf t)\<rparr>)))"

text \<open>\<open>n\<close> is the smaller of the count and the length of the buffer.\<close>

definition tty_read :: "nat \<Rightarrow> tty \<Rightarrow> u8 list \<times> tty" where
  "tty_read n t =
     (if n = 0 then ([], t)
      else if flag (c_lflag (ty_termios t)) ICANON then
        (if \<not> ty_input_ready t then ([], t)
         else
           (let avail = min (length (ty_cooked_buf t)) n; rest = drop avail (ty_cooked_buf t)
            in (take avail (ty_cooked_buf t), t\<lparr>ty_cooked_buf := rest, ty_input_ready := (if rest = [] then False else ty_input_ready t)\<rparr>)))
      else
        (let vmin = unat (c_cc (ty_termios t) ! VMIN); avail = length (ty_input_buf t)
         in if avail < max vmin 1 then ([], t)
            else (take (min avail n) (ty_input_buf t), t\<lparr>ty_input_buf := drop (min avail n) (ty_input_buf t)\<rparr>)))"

text \<open>The bytes shown; the code copies the data in chunks of 256 bytes.\<close>

definition write_chunk :: "tty \<Rightarrow> u8 list \<Rightarrow> u8 list" where
  "write_chunk t bs =
     (if flag (c_oflag (ty_termios t)) OPOST \<and> flag (c_oflag (ty_termios t)) ONLCR
      then concat (map (\<lambda>b. if b = 10 then [13, 10] else [b]) bs) else bs)"

function tty_write :: "tty \<Rightarrow> u8 list \<Rightarrow> u8 list" where
  "tty_write t bs = (if bs = [] then [] else write_chunk t (take 256 bs) @ tty_write t (drop 256 bs))"
  by auto
termination by (relation "measure (length \<circ> snd)") auto

declare tty_write.simps [simp del]

definition set_termios :: "termios \<Rightarrow> tty \<Rightarrow> tty" where
  "set_termios new t = t\<lparr>ty_termios := new\<rparr>"

definition set_termios_flush :: "termios \<Rightarrow> tty \<Rightarrow> tty" where
  "set_termios_flush new t = t\<lparr>ty_termios := new, ty_input_buf := [], ty_cooked_buf := [], ty_input_ready := False\<rparr>"

definition set_winsize :: "u16 \<Rightarrow> u16 \<Rightarrow> u16 \<Rightarrow> u16 \<Rightarrow> tty \<Rightarrow> tty" where
  "set_winsize rows cols xpixel ypixel t =
     t\<lparr>ty_winsize := \<lparr>ws_row = rows, ws_col = cols, ws_xpixel = xpixel, ws_ypixel = ypixel\<rparr>\<rparr>"

section \<open>Keyboard and requests\<close>

datatype key_event =
    KChar u32 | KCtrl u32 | KAlt u32 | ArrowUp | ArrowDown | ArrowLeft | ArrowRight | Home | End | KDelete | Insert
  | PageUp | PageDown | Enter | Backspace | KTab | Escape | FKey u8

fun key_bytes :: "tty \<Rightarrow> key_event \<Rightarrow> u8 list" where
  "key_bytes t (KChar ch) = [ucast ch]"
| "key_bytes t Enter = [10]"
| "key_bytes t Backspace = [c_cc (ty_termios t) ! VERASE]"
| "key_bytes t KTab = [9]"
| "key_bytes t (KCtrl ch) = [ucast ch - 97 + 1]"
| "key_bytes t Escape = [0x1B]"
| "key_bytes t KDelete = [0x7F]"
| "key_bytes t ArrowUp = [0x1B, 91, 65]"
| "key_bytes t ArrowDown = [0x1B, 91, 66]"
| "key_bytes t ArrowRight = [0x1B, 91, 67]"
| "key_bytes t ArrowLeft = [0x1B, 91, 68]"
| "key_bytes t Home = [0x1B, 91, 72]"
| "key_bytes t End = [0x1B, 91, 70]"
| "key_bytes t _ = []"

fun type_bytes :: "u8 list \<Rightarrow> tty \<Rightarrow> u8 list \<times> tty" where
  "type_bytes [] t = ([], t)"
| "type_bytes (b # bs) t = (let (o1, t1) = process_input b t; (o2, t2) = type_bytes bs t1 in (o1 @ o2, t2))"

fun pump_keyboard :: "key_event list \<Rightarrow> tty \<Rightarrow> u8 list \<times> tty" where
  "pump_keyboard [] t = ([], t)"
| "pump_keyboard (ev # evs) t =
     (let (o1, t1) = type_bytes (key_bytes t ev) t; (o2, t2) = pump_keyboard evs t1 in (o1 @ o2, t2))"

text \<open>What a request stores through its pointer argument; a null pointer is \<open>None\<close>.\<close>

datatype ioctl_out = NoOut | OutTermios termios | OutWinsize winsize | OutPid int

definition tty_ioctl :: "u64 \<Rightarrow> termios option \<Rightarrow> int \<Rightarrow> tty \<Rightarrow> int \<times> ioctl_out \<times> tty" where
  "tty_ioctl request arg pid t =
     (if request = 0x5401 then (case arg of None \<Rightarrow> (- 14, NoOut, t) | Some _ \<Rightarrow> (0, OutTermios (ty_termios t), t))
      else if request = 0x5402 \<or> request = 0x5403 then
        (case arg of None \<Rightarrow> (- 14, NoOut, t) | Some tm \<Rightarrow> (0, NoOut, set_termios tm t))
      else if request = 0x5404 then (case arg of None \<Rightarrow> (- 14, NoOut, t) | Some tm \<Rightarrow> (0, NoOut, set_termios_flush tm t))
      else if request = 0x5413 then (case arg of None \<Rightarrow> (- 14, NoOut, t) | Some _ \<Rightarrow> (0, OutWinsize (ty_winsize t), t))
      else if request = 0x5414 then (0, NoOut, t)
      else if request = 0x540f \<or> request = 0x5429 then (0, if arg = None then NoOut else OutPid pid, t)
      else if request = 0x5410 \<or> request = 0x540e \<or> request = 0x5422 then (0, NoOut, t)
      else (- 25, NoOut, t))"

section \<open>Typing and reading\<close>

lemma write_chunk_append: "write_chunk t (xs @ ys) = write_chunk t xs @ write_chunk t ys"
  by (simp add: write_chunk_def)

lemma tty_write_eq: "tty_write t bs = write_chunk t bs"
proof (induction bs rule: length_induct)
  case (1 bs)
  show ?case
  proof (cases "bs = []")
    case False
    then have "tty_write t (drop 256 bs) = write_chunk t (drop 256 bs)" using 1 by simp
    with False show ?thesis by (subst tty_write.simps) (simp add: write_chunk_append [symmetric])
  qed (simp add: tty_write.simps write_chunk_def)
qed

lemma type_bytes_append: "snd (type_bytes (xs @ ys) t) = snd (type_bytes ys (snd (type_bytes xs t)))"
  by (induction xs arbitrary: t) (simp_all add: split_def Let_def)

text \<open>A byte with no special meaning, and settings under which lines can be edited.\<close>

definition ordinary :: "termios \<Rightarrow> u8 \<Rightarrow> bool" where
  "ordinary tm ch \<longleftrightarrow> map_input (c_iflag tm) ch = Some ch \<and> signal_echo tm ch = None \<and>
     ch \<noteq> c_cc tm ! VERASE \<and> ch \<noteq> c_cc tm ! VKILL \<and> ch \<noteq> c_cc tm ! VEOF"

definition erases :: "termios \<Rightarrow> u8 \<Rightarrow> bool" where
  "erases tm ch \<longleftrightarrow> map_input (c_iflag tm) ch = Some ch \<and> signal_echo tm ch = None \<and> ch = c_cc tm ! VERASE"

definition line_mode :: "termios \<Rightarrow> bool" where
  "line_mode tm \<longleftrightarrow> flag (c_lflag tm) ICANON \<and> erases tm (c_cc tm ! VERASE) \<and> ordinary tm 10"

lemma type_ordinary:
  assumes "flag (c_lflag (ty_termios t)) ICANON" and "\<forall>ch \<in> set xs. ordinary (ty_termios t) ch \<and> ch \<noteq> 10"
    and "length (ty_input_buf t) + length xs \<le> LINE_BUF_MAX"
  shows "snd (type_bytes xs t) = t\<lparr>ty_input_buf := ty_input_buf t @ xs\<rparr>"
  using assms
proof (induction xs arbitrary: t)
  case (Cons x xs)
  have "snd (process_input x t) = t\<lparr>ty_input_buf := ty_input_buf t @ [x]\<rparr>"
    using Cons.prems by (simp add: process_input_def canonical_input_def ordinary_def Let_def)
  with Cons.IH [of "t\<lparr>ty_input_buf := ty_input_buf t @ [x]\<rparr>"] Cons.prems show ?case by (simp add: split_def Let_def)
qed simp

lemma type_erases:
  assumes "flag (c_lflag (ty_termios t)) ICANON" and "erases (ty_termios t) e"
  shows "snd (type_bytes (replicate n e) t) = t\<lparr>ty_input_buf := take (length (ty_input_buf t) - n) (ty_input_buf t)\<rparr>"
  using assms
proof (induction n arbitrary: t)
  case (Suc n)
  have p: "snd (process_input e t) = t\<lparr>ty_input_buf := butlast (ty_input_buf t)\<rparr>"
    using Suc.prems unfolding process_input_def erases_def by (auto simp: canonical_input_def Let_def)
  have "take (length (butlast (ty_input_buf t)) - n) (butlast (ty_input_buf t)) = take (length (ty_input_buf t) - Suc n) (ty_input_buf t)"
    by (simp add: butlast_conv_take min_def)
  with p Suc.IH [of "t\<lparr>ty_input_buf := butlast (ty_input_buf t)\<rparr>"] Suc.prems show ?case by (simp add: split_def Let_def)
qed simp

lemma type_newline:
  assumes "line_mode (ty_termios t)" and "length (ty_input_buf t) < LINE_BUF_MAX"
  shows "snd (type_bytes [10] t) = t\<lparr>ty_input_ready := True, ty_cooked_buf := ty_input_buf t @ [10], ty_input_buf := []\<rparr>"
  using assms
  by (simp add: process_input_def canonical_input_def ordinary_def line_mode_def Let_def split_def)

lemma type_line:
  assumes "line_mode (ty_termios t)" and "ty_input_buf t = []" and "\<forall>ch \<in> set (xs @ ys). ordinary (ty_termios t) ch \<and> ch \<noteq> 10"
    and "length xs + length ys < LINE_BUF_MAX"
  shows "snd (type_bytes (xs @ ys @ replicate (length ys) (c_cc (ty_termios t) ! VERASE) @ [10]) t) =
    t\<lparr>ty_input_ready := True, ty_cooked_buf := xs @ [10], ty_input_buf := []\<rparr>"
proof -
  define e where "e = c_cc (ty_termios t) ! VERASE"
  have can: "flag (c_lflag (ty_termios t)) ICANON" and er: "erases (ty_termios t) e" using assms(1) by (simp_all add: line_mode_def e_def)
  have a: "snd (type_bytes (xs @ ys) t) = t\<lparr>ty_input_buf := xs @ ys\<rparr>"
    using type_ordinary [OF can assms(3)] assms(2,4) by simp
  have b: "snd (type_bytes (replicate (length ys) e) (t\<lparr>ty_input_buf := xs @ ys\<rparr>)) = t\<lparr>ty_input_buf := xs\<rparr>"
    using type_erases [of "t\<lparr>ty_input_buf := xs @ ys\<rparr>" e "length ys"] can er by simp
  have c: "snd (type_bytes [10] (t\<lparr>ty_input_buf := xs\<rparr>)) = t\<lparr>ty_input_ready := True, ty_cooked_buf := xs @ [10], ty_input_buf := []\<rparr>"
    using type_newline [of "t\<lparr>ty_input_buf := xs\<rparr>"] assms(1,4) by simp
  have "snd (type_bytes ((xs @ ys) @ replicate (length ys) e @ [10]) t) =
      t\<lparr>ty_input_ready := True, ty_cooked_buf := xs @ [10], ty_input_buf := []\<rparr>"
    unfolding type_bytes_append [of "xs @ ys"] type_bytes_append [of "replicate (length ys) e"] a b c by (rule refl)
  then show ?thesis by (simp only: e_def append_assoc)
qed

text \<open>Reads of the given sizes, one after the other.\<close>

fun tty_reads :: "nat list \<Rightarrow> tty \<Rightarrow> u8 list \<times> tty" where
  "tty_reads [] t = ([], t)"
| "tty_reads (n # ns) t = (let (bs, t1) = tty_read n t; (r, t2) = tty_reads ns t1 in (bs @ r, t2))"

lemma tty_reads_cooked:
  assumes "flag (c_lflag (ty_termios t)) ICANON" and "ty_input_ready t \<or> ty_cooked_buf t = []"
  shows "fst (tty_reads ns t) = take (sum_list ns) (ty_cooked_buf t)"
  using assms
proof (induction ns arbitrary: t)
  case (Cons n ns)
  obtain bs t1 where r: "tty_read n t = (bs, t1)" by (rule prod.exhaust)
  have "bs = take n (ty_cooked_buf t)" "ty_cooked_buf t1 = drop n (ty_cooked_buf t)" "ty_termios t1 = ty_termios t"
    "ty_input_ready t1 \<or> ty_cooked_buf t1 = []"
    using r Cons.prems by (auto simp: tty_read_def Let_def min_def split: if_splits)
  with Cons.IH [of t1] Cons.prems(1) r show ?case by (simp add: split_def Let_def take_add)
qed simp

text \<open>
  C28: A line arrives as it was edited. In canonical mode, with an erase character and a newline that the
  other settings leave alone, from an empty line: typing some bytes without a special meaning, then further
  ones that are taken back with the erase character, fewer than 4096 in all, and a newline makes exactly
  the first bytes and the newline readable. Reads of any sizes return it piece by piece, in order, and never
  more. (At 4096 bytes the line buffer is full and drops what is typed, the newline included.)\<close>

theorem tty_line_roundtrip:
  assumes "line_mode (ty_termios t)" and "ty_input_buf t = []" and "\<forall>ch \<in> set (xs @ ys). ordinary (ty_termios t) ch \<and> ch \<noteq> 10"
    and "length xs + length ys < LINE_BUF_MAX"
  shows "fst (tty_reads ns (snd (type_bytes (xs @ ys @ replicate (length ys) (c_cc (ty_termios t) ! VERASE) @ [10]) t))) =
    take (sum_list ns) (xs @ [10])"
  unfolding type_line [OF assms] using assms(1) by (subst tty_reads_cooked) (simp_all add: line_mode_def)

lemma demo_line: "line_mode default_cooked" "ordinary default_cooked 104" "ordinary default_cooked 105" "ordinary default_cooked 120"
  by (simp_all add: line_mode_def ordinary_def erases_def default_cooked_def map_input_def signal_echo_def flag_def Let_def)

theorem tty_line_roundtrip_witness:
  "fst (tty_reads [2, 5] (snd (type_bytes [104, 105, 120, 127, 10] tty_new))) = [104, 105, 10]"
proof -
  have "fst (tty_reads [2, 5] (snd (type_bytes ([104, 105] @ [120] @ replicate (length [120 :: u8]) (c_cc (ty_termios tty_new) ! VERASE) @ [10]) tty_new))) =
      take (sum_list [2, 5]) ([104, 105] @ [10])"
    by (rule tty_line_roundtrip) (use demo_line in \<open>simp_all add: tty_new_def\<close>)
  then show ?thesis by (simp add: tty_new_def default_cooked_def)
qed

text \<open>
  C39: A line typed ahead is lost. When two complete lines, each of fewer than 4096 bytes, have been typed
  before the reader comes, no sequence of reads returns a byte of the first one: the second newline
  replaces what the first left to be read.\<close>

theorem tty_typeahead_lost:
  assumes "line_mode (ty_termios t)" and "ty_input_buf t = []" and "\<forall>ch \<in> set (xs @ ys). ordinary (ty_termios t) ch \<and> ch \<noteq> 10"
    and "length xs < LINE_BUF_MAX" and "length ys < LINE_BUF_MAX"
  shows "fst (tty_reads ns (snd (type_bytes (xs @ [10] @ ys @ [10]) t))) = take (sum_list ns) (ys @ [10])"
proof -
  define t1 where "t1 = t\<lparr>ty_input_ready := True, ty_cooked_buf := xs @ [10], ty_input_buf := []\<rparr>"
  have one: "snd (type_bytes (xs @ [10]) t) = t1" using type_line [of t xs "[]"] assms by (simp add: t1_def)
  have two: "snd (type_bytes (ys @ [10]) t1) = t1\<lparr>ty_input_ready := True, ty_cooked_buf := ys @ [10], ty_input_buf := []\<rparr>"
    using type_line [of t1 ys "[]"] assms by (simp add: t1_def)
  have "snd (type_bytes (xs @ [10] @ ys @ [10]) t) = t1\<lparr>ty_input_ready := True, ty_cooked_buf := ys @ [10], ty_input_buf := []\<rparr>"
    using type_bytes_append [of "xs @ [10]" "ys @ [10]" t] by (simp only: append_assoc one two)
  then show ?thesis using assms(1) by (subst tty_reads_cooked) (simp_all add: line_mode_def t1_def)
qed

theorem tty_typeahead_lost_witness: "fst (tty_reads [10, 10] (snd (type_bytes [104, 10, 105, 10] tty_new))) = [105, 10]"
proof -
  have "fst (tty_reads [10, 10] (snd (type_bytes ([104] @ [10] @ [105] @ [10]) tty_new))) = take (sum_list [10, 10]) ([105] @ [10])"
    by (rule tty_typeahead_lost) (use demo_line in \<open>simp_all add: tty_new_def\<close>)
  then show ?thesis by simp
qed

end
