(* ===== verification/Pty.thy ===== *)
theory Pty
  imports Tty Pipe_Ring
begin

text \<open>
  Pseudo-terminals, \<open>drivers/pty.rs\<close>, with the requests on their two ends in \<open>syscall/mod.rs\<close> and the dispatch of
  reads and writes in \<open>vfs/mod.rs\<close>. The table \<open>PAIRS\<close> is a list of sixteen optional pairs. What a request reads
  through its pointer argument is \<open>user_arg\<close>, a null pointer is \<open>None\<close>, and what it stores there is a result.
\<close>

section \<open>The table of pairs\<close>

abbreviation MAX_PTYS :: nat where "MAX_PTYS \<equiv> 16"
abbreviation BUF_CAP :: nat where "BUF_CAP \<equiv> 4096"

record pty_pair =
  pt_in_use :: bool
  pt_slave_locked :: bool
  pt_m2s :: "u8 list"
  pt_s2m :: "u8 list"
  pt_termios :: termios
  pt_winsize :: winsize
  pt_fg_pgid :: u32

type_synonym pty_table = "pty_pair option list"

definition const_default_termios :: termios where
  "const_default_termios =
     \<lparr>c_iflag = ICRNL, c_oflag = OPOST OR ONLCR, c_cflag = CS8 OR CREAD OR CLOCAL,
      c_lflag = ECHO OR ECHOE OR ICANON OR ISIG OR IEXTEN, c_line = 0,
      c_cc = (replicate 19 0)[VINTR := 3, VQUIT := 28, VERASE := 127, VKILL := 21, VEOF := 4, 5 := 0, VMIN := 1,
        8 := 17, 9 := 19, VSUSP := 26, 11 := 0, 12 := 18, 13 := 15, 14 := 23, 15 := 22]\<rparr>"

abbreviation vt100 :: winsize where
  "vt100 \<equiv> \<lparr>ws_row = 24, ws_col = 80, ws_xpixel = 0, ws_ypixel = 0\<rparr>"

abbreviation pty_fresh :: pty_pair where
  "pty_fresh \<equiv>
     \<lparr>pt_in_use = True, pt_slave_locked = True, pt_m2s = [], pt_s2m = [], pt_termios = const_default_termios,
      pt_winsize = vt100, pt_fg_pgid = 0\<rparr>"

definition PAIRS :: pty_table where
  "PAIRS = replicate MAX_PTYS None"

fun pty_alloc_from :: "nat \<Rightarrow> pty_table \<Rightarrow> nat option \<times> pty_table" where
  "pty_alloc_from i [] = (None, [])"
| "pty_alloc_from i (None # ps) = (Some i, Some pty_fresh # ps)"
| "pty_alloc_from i (Some p # ps) = map_prod id (Cons (Some p)) (pty_alloc_from (i + 1) ps)"

definition pty_alloc :: "pty_table \<Rightarrow> u8 option \<times> pty_table" where
  "pty_alloc ps = map_prod (map_option word_of_nat) id (pty_alloc_from 0 ps)"

text \<open>The pair of a number, if it is in range and in use, and its update.\<close>

definition pty_at :: "u8 \<Rightarrow> pty_table \<Rightarrow> pty_pair option" where
  "pty_at n ps = (if unat n < length ps then ps ! unat n else None)"

definition pty_upd :: "u8 \<Rightarrow> (pty_pair \<Rightarrow> pty_pair) \<Rightarrow> pty_table \<Rightarrow> pty_table" where
  "pty_upd n f ps = (case pty_at n ps of None \<Rightarrow> ps | Some p \<Rightarrow> ps[unat n := Some (f p)])"

definition unlock_slave :: "u8 \<Rightarrow> pty_table \<Rightarrow> pty_table" where
  "unlock_slave n ps = pty_upd n (pt_slave_locked_update (\<lambda>_. False)) ps"

definition pty_free :: "u8 \<Rightarrow> pty_table \<Rightarrow> pty_table" where
  "pty_free n ps = (if unat n < length ps then ps[unat n := None] else ps)"

section \<open>Input and output\<close>

definition master_write :: "u8 \<Rightarrow> u8 list \<Rightarrow> pty_table \<Rightarrow> nat \<times> pty_table" where
  "master_write n data ps =
     (case pty_at n ps of
        None \<Rightarrow> (0, ps)
      | Some p \<Rightarrow>
          (let free_space = BUF_CAP - length (pt_m2s p); to_copy = min (length data) free_space
           in (to_copy, pty_upd n (pt_m2s_update (\<lambda>b. b @ take to_copy data)) ps)))"

definition master_read :: "u8 \<Rightarrow> nat \<Rightarrow> pty_table \<Rightarrow> u8 list \<times> pty_table" where
  "master_read n len ps =
     (case pty_at n ps of
        None \<Rightarrow> ([], ps)
      | Some p \<Rightarrow>
          (let to_copy = min len (length (pt_s2m p))
           in (take to_copy (pt_s2m p), pty_upd n (pt_s2m_update (drop to_copy)) ps)))"

definition master_readable :: "u8 \<Rightarrow> pty_table \<Rightarrow> bool" where
  "master_readable n ps = (case pty_at n ps of None \<Rightarrow> False | Some p \<Rightarrow> pt_s2m p \<noteq> [])"

definition slave_write :: "u8 \<Rightarrow> u8 list \<Rightarrow> pty_table \<Rightarrow> nat \<times> pty_table" where
  "slave_write n data ps =
     (case pty_at n ps of
        None \<Rightarrow> (0, ps)
      | Some p \<Rightarrow>
          (let free_space = BUF_CAP - length (pt_s2m p); to_copy = min (length data) free_space
           in (to_copy, pty_upd n (pt_s2m_update (\<lambda>b. b @ take to_copy data)) ps)))"

definition slave_read :: "u8 \<Rightarrow> nat \<Rightarrow> pty_table \<Rightarrow> u8 list \<times> pty_table" where
  "slave_read n len ps =
     (case pty_at n ps of
        None \<Rightarrow> ([], ps)
      | Some p \<Rightarrow>
          (let to_copy = min len (length (pt_m2s p))
           in (take to_copy (pt_m2s p), pty_upd n (pt_m2s_update (drop to_copy)) ps)))"

definition slave_readable :: "u8 \<Rightarrow> pty_table \<Rightarrow> bool" where
  "slave_readable n ps = (case pty_at n ps of None \<Rightarrow> False | Some p \<Rightarrow> pt_m2s p \<noteq> [])"

text \<open>Reads and writes of a file descriptor; \<open>None\<close> is \<open>WouldBlock\<close>.\<close>

datatype pty_end = PtyMaster | PtySlave

definition pty_fd_read :: "pty_end \<Rightarrow> u8 \<Rightarrow> nat \<Rightarrow> pty_table \<Rightarrow> u8 list option \<times> pty_table" where
  "pty_fd_read e n count ps =
     (case e of
        PtyMaster \<Rightarrow> if \<not> master_readable n ps then (None, ps) else map_prod Some id (master_read n count ps)
      | PtySlave \<Rightarrow> if \<not> slave_readable n ps then (None, ps) else map_prod Some id (slave_read n count ps))"

definition pty_fd_write :: "pty_end \<Rightarrow> u8 \<Rightarrow> u8 list \<Rightarrow> pty_table \<Rightarrow> nat \<times> pty_table" where
  "pty_fd_write e n data ps =
     (case e of PtyMaster \<Rightarrow> master_write n data ps | PtySlave \<Rightarrow> slave_write n data ps)"

section \<open>Settings of a pair\<close>

definition get_winsz :: "u8 \<Rightarrow> pty_table \<Rightarrow> u16 \<times> u16" where
  "get_winsz n ps = (case pty_at n ps of None \<Rightarrow> (80, 24) | Some p \<Rightarrow> (ws_col (pt_winsize p), ws_row (pt_winsize p)))"

definition set_winsz :: "u8 \<Rightarrow> u16 \<Rightarrow> u16 \<Rightarrow> pty_table \<Rightarrow> pty_table" where
  "set_winsz n cols rows ps =
     pty_upd n (\<lambda>p. p\<lparr>pt_winsize := \<lparr>ws_row = rows, ws_col = cols, ws_xpixel = 0, ws_ypixel = 0\<rparr>\<rparr>) ps"

definition get_winsize_full :: "u8 \<Rightarrow> pty_table \<Rightarrow> winsize" where
  "get_winsize_full n ps = (case pty_at n ps of None \<Rightarrow> vt100 | Some p \<Rightarrow> pt_winsize p)"

definition set_winsize_full :: "u8 \<Rightarrow> winsize \<Rightarrow> pty_table \<Rightarrow> pty_table" where
  "set_winsize_full n ws ps = pty_upd n (\<lambda>p. p\<lparr>pt_winsize := ws\<rparr>) ps"

definition get_termios :: "u8 \<Rightarrow> pty_table \<Rightarrow> termios" where
  "get_termios n ps = (case pty_at n ps of None \<Rightarrow> const_default_termios | Some p \<Rightarrow> pt_termios p)"

definition pty_set_termios :: "u8 \<Rightarrow> termios \<Rightarrow> pty_table \<Rightarrow> pty_table" where
  "pty_set_termios n t ps = pty_upd n (\<lambda>p. p\<lparr>pt_termios := t\<rparr>) ps"

definition pty_set_termios_flush :: "u8 \<Rightarrow> termios \<Rightarrow> pty_table \<Rightarrow> pty_table" where
  "pty_set_termios_flush n t ps = pty_upd n (\<lambda>p. p\<lparr>pt_termios := t, pt_m2s := [], pt_s2m := []\<rparr>) ps"

definition get_fg_pgid :: "u8 \<Rightarrow> pty_table \<Rightarrow> u32" where
  "get_fg_pgid n ps = (case pty_at n ps of None \<Rightarrow> 0 | Some p \<Rightarrow> pt_fg_pgid p)"

definition set_fg_pgid :: "u8 \<Rightarrow> u32 \<Rightarrow> pty_table \<Rightarrow> pty_table" where
  "set_fg_pgid n pgid ps = pty_upd n (\<lambda>p. p\<lparr>pt_fg_pgid := pgid\<rparr>) ps"

section \<open>Requests\<close>

text \<open>What reading the argument as each type gives, and what is stored through it.\<close>

record user_arg =
  ua_termios :: termios
  ua_winsize :: winsize
  ua_int :: int

datatype pty_out = PtNone | PtTermios termios | PtWinsize winsize | PtInt int

definition pty_tcgets :: "u8 \<Rightarrow> user_arg option \<Rightarrow> pty_table \<Rightarrow> int \<times> pty_out \<times> pty_table" where
  "pty_tcgets n arg ps =
     (case arg of None \<Rightarrow> (- 14, PtNone, ps) | Some _ \<Rightarrow> (0, PtTermios (get_termios n ps), ps))"

definition pty_tcsets :: "u8 \<Rightarrow> user_arg option \<Rightarrow> bool \<Rightarrow> pty_table \<Rightarrow> int \<times> pty_out \<times> pty_table" where
  "pty_tcsets n arg flush ps =
     (case arg of
        None \<Rightarrow> (- 14, PtNone, ps)
      | Some a \<Rightarrow>
          (0, PtNone, if flush then pty_set_termios_flush n (ua_termios a) ps else pty_set_termios n (ua_termios a) ps))"

definition sys_pty_slave_ioctl :: "int \<Rightarrow> u8 \<Rightarrow> u64 \<Rightarrow> user_arg option \<Rightarrow> pty_table \<Rightarrow> int \<times> pty_out \<times> pty_table" where
  "sys_pty_slave_ioctl pid n request arg ps =
     (if request = 0x5401 then pty_tcgets n arg ps
      else if request = 0x5402 \<or> request = 0x5403 then pty_tcsets n arg False ps
      else if request = 0x5404 then pty_tcsets n arg True ps
      else if request = 0x5413 then (0, case arg of None \<Rightarrow> PtNone | Some _ \<Rightarrow> PtWinsize (get_winsize_full n ps), ps)
      else if request = 0x5414 then (0, PtNone, case arg of None \<Rightarrow> ps | Some a \<Rightarrow> set_winsize_full n (ua_winsize a) ps)
      else if request = 0x540f then (0, case arg of None \<Rightarrow> PtNone | Some _ \<Rightarrow> PtInt (sint (get_fg_pgid n ps)), ps)
      else if request = 0x5410 then (0, PtNone, case arg of None \<Rightarrow> ps | Some a \<Rightarrow> set_fg_pgid n (word_of_int (ua_int a)) ps)
      else if request = 0x5429 then (0, case arg of None \<Rightarrow> PtNone | Some _ \<Rightarrow> PtInt pid, ps)
      else (0, PtNone, ps))"

definition sys_pty_master_ioctl :: "int \<Rightarrow> u8 \<Rightarrow> u64 \<Rightarrow> user_arg option \<Rightarrow> pty_table \<Rightarrow> int \<times> pty_out \<times> pty_table" where
  "sys_pty_master_ioctl pid n request arg ps =
     (if request = 0x80045430 then (0, case arg of None \<Rightarrow> PtNone | Some _ \<Rightarrow> PtInt (uint n), ps)
      else if request = 0x40045431 then
        (0, PtNone, case arg of None \<Rightarrow> ps | Some a \<Rightarrow> if ua_int a = 0 then unlock_slave n ps else ps)
      else if request = 0x80045439 then (0, case arg of None \<Rightarrow> PtNone | Some _ \<Rightarrow> PtInt 0, ps)
      else if request = 0x5413 then (0, case arg of None \<Rightarrow> PtNone | Some _ \<Rightarrow> PtWinsize (get_winsize_full n ps), ps)
      else if request = 0x5414 then (0, PtNone, case arg of None \<Rightarrow> ps | Some a \<Rightarrow> set_winsize_full n (ua_winsize a) ps)
      else if request = 0x5401 then pty_tcgets n arg ps
      else if request = 0x5402 \<or> request = 0x5403 then pty_tcsets n arg False ps
      else if request = 0x5404 then pty_tcsets n arg True ps
      else if request = 0x540f then (0, case arg of None \<Rightarrow> PtNone | Some _ \<Rightarrow> PtInt (sint (get_fg_pgid n ps)), ps)
      else if request = 0x5410 then (0, PtNone, case arg of None \<Rightarrow> ps | Some a \<Rightarrow> set_fg_pgid n (word_of_int (ua_int a)) ps)
      else if request = 0x5429 then (0, case arg of None \<Rightarrow> PtNone | Some _ \<Rightarrow> PtInt pid, ps)
      else (0, PtNone, ps))"

section \<open>Sequences of operations\<close>

datatype pty_op =
    POpen
  | PFree u8
  | PRead pty_end u8 nat
  | PWrite pty_end u8 "u8 list"
  | PIoctl pty_end u8 int u64 "user_arg option"

text \<open>One operation: the bytes it accepts, the bytes it delivers, the table.\<close>

fun pty_step :: "pty_op \<Rightarrow> pty_table \<Rightarrow> u8 list \<times> u8 list \<times> pty_table" where
  "pty_step POpen ps = ([], [], snd (pty_alloc ps))"
| "pty_step (PFree n) ps = ([], [], pty_free n ps)"
| "pty_step (PRead e n k) ps = (case pty_fd_read e n k ps of (r, ps') \<Rightarrow> ([], case r of None \<Rightarrow> [] | Some bs \<Rightarrow> bs, ps'))"
| "pty_step (PWrite e n d) ps = (case pty_fd_write e n d ps of (m, ps') \<Rightarrow> (take m d, [], ps'))"
| "pty_step (PIoctl PtyMaster n pid rq arg) ps = ([], [], snd (snd (sys_pty_master_ioctl pid n rq arg ps)))"
| "pty_step (PIoctl PtySlave n pid rq arg) ps = ([], [], snd (snd (sys_pty_slave_ioctl pid n rq arg ps)))"

text \<open>The flow of the bytes written at an end of a pair: its operations as those of a channel, and its queue.\<close>

fun flow :: "pty_end \<Rightarrow> u8 \<Rightarrow> pty_op \<Rightarrow> chan_op list" where
  "flow e n (PWrite e' m d) = (if m = n \<and> e' = e then [Put d] else [])"
| "flow e n (PRead e' m k) = (if m = n \<and> e' \<noteq> e then [Get k] else [])"
| "flow e n _ = []"

definition queued :: "pty_end \<Rightarrow> u8 \<Rightarrow> pty_table \<Rightarrow> u8 list" where
  "queued e n ps = (case pty_at n ps of None \<Rightarrow> [] | Some p \<Rightarrow> (case e of PtyMaster \<Rightarrow> pt_m2s p | PtySlave \<Rightarrow> pt_s2m p))"

fun discards :: "u8 \<Rightarrow> pty_op \<Rightarrow> bool" where
  "discards n (PFree m) = (m = n)"
| "discards n (PIoctl e m pid rq arg) = (m = n \<and> rq = 0x5404 \<and> arg \<noteq> None)"
| "discards n _ = False"

fun pty_run :: "pty_end \<Rightarrow> u8 \<Rightarrow> pty_op list \<Rightarrow> pty_table \<Rightarrow> u8 list \<times> u8 list \<times> pty_table" where
  "pty_run e n [] ps = ([], [], ps)"
| "pty_run e n (op # ops) ps =
     (case pty_step op ps of (a, out1, ps1) \<Rightarrow>
        case pty_run e n ops ps1 of (acc, out, ps2) \<Rightarrow>
          if flow e n op = [] then (acc, out, ps2) else (a @ acc, out1 @ out, ps2))"

section \<open>Each direction is a byte channel\<close>

lemma const_default_termios_cooked: "const_default_termios = default_cooked"
  by (simp add: const_default_termios_def default_cooked_def eval_nat_numeral)

lemma nth_update_other: "m \<noteq> (n :: u8) \<Longrightarrow> ps[unat n := x] ! unat m = ps ! unat m"
  by (metis nth_list_update_neq unsigned_word_eqI)

lemma pty_at_upd [simp]:
  "pty_at m (pty_upd n f ps) = (if m = n then map_option f (pty_at n ps) else pty_at m ps)"
  by (auto simp: pty_upd_def pty_at_def nth_update_other split: option.splits)

lemma pty_at_free [simp]: "pty_at m (pty_free n ps) = (if m = n then None else pty_at m ps)"
  by (auto simp: pty_free_def pty_at_def nth_update_other)

lemma pty_alloc_from_keeps:
  "i < length ps \<Longrightarrow> ps ! i = Some p \<Longrightarrow>
     i < length (snd (pty_alloc_from k ps)) \<and> snd (pty_alloc_from k ps) ! i = Some p"
  by (induction k ps arbitrary: i rule: pty_alloc_from.induct) (auto simp: nth_Cons split: nat.splits)

lemma pty_at_alloc: "pty_at n ps = Some p \<Longrightarrow> pty_at n (snd (pty_alloc ps)) = Some p"
  using pty_alloc_from_keeps [of "unat n" ps p 0] by (simp add: pty_at_def pty_alloc_def split: if_splits)

lemma pty_alloc_from_spec:
  "case pty_alloc_from k ps of
     (None, ps') \<Rightarrow> ps' = ps \<and> None \<notin> set ps
   | (Some i, ps') \<Rightarrow> k \<le> i \<and> i < k + length ps \<and> ps ! (i - k) = None \<and> ps' = ps[i - k := Some pty_fresh]"
proof (induction k ps rule: pty_alloc_from.induct)
  case (3 i p ps)
  show ?case
  proof (cases "fst (pty_alloc_from (i + 1) ps)")
    case (Some j)
    with "3.IH" have "i + 1 \<le> j" by (auto split: prod.splits)
    then have "j - i = Suc (j - (i + 1))" by simp
    with "3.IH" Some show ?thesis by (auto split: prod.splits)
  qed (use "3.IH" in \<open>auto split: prod.splits\<close>)
qed simp_all

definition direction_get :: "pty_end \<Rightarrow> u8 \<Rightarrow> nat \<Rightarrow> pty_table \<Rightarrow> u8 list \<times> pty_table" where
  "direction_get e n k ps = (case e of PtyMaster \<Rightarrow> slave_read n k ps | PtySlave \<Rightarrow> master_read n k ps)"

interpretation direction: byte_channel "\<lambda>ps. pty_at n ps \<noteq> None" "queued e n" "\<lambda>_. BUF_CAP" "direction_get e n" "pty_fd_write e n"
  for e n
  by unfold_locales
    (auto simp: direction_get_def pty_fd_write_def slave_read_def master_read_def slave_write_def master_write_def
      queued_def q_get_def q_put_def Let_def min_def split: option.splits pty_end.splits)

lemma fd_read_get:
  assumes "e' \<noteq> e"
  shows "(case fst (pty_fd_read e' n k ps) of None \<Rightarrow> [] | Some bs \<Rightarrow> bs) = fst (direction_get e n k ps)"
    and "pty_at m (snd (pty_fd_read e' n k ps)) = pty_at m (snd (direction_get e n k ps))"
  using assms
  by (cases e; cases e'; auto simp: pty_fd_read_def direction_get_def slave_readable_def master_readable_def
      slave_read_def master_read_def Let_def split: option.splits)+

lemmas pty_setters = unlock_slave_def set_winsize_full_def pty_set_termios_def set_fg_pgid_def

lemma queued_cong: "pty_at n ps' = pty_at n ps \<Longrightarrow> queued e n ps' = queued e n ps"
  by (simp add: queued_def)

lemma ioctl_keeps:
  assumes "pty_at n ps \<noteq> None" and "\<not> discards n (PIoctl side m pid rq arg)"
  shows "pty_at n (snd (snd (pty_step (PIoctl side m pid rq arg) ps))) \<noteq> None"
    and "queued e n (snd (snd (pty_step (PIoctl side m pid rq arg) ps))) = queued e n ps"
  using assms
  by (cases side; auto simp: sys_pty_master_ioctl_def sys_pty_slave_ioctl_def pty_tcgets_def pty_tcsets_def pty_setters
      pty_set_termios_flush_def queued_def split: option.splits pty_end.splits if_splits)+

lemma get_keeps:
  assumes "m \<noteq> n \<or> e' = e"
  shows "pty_at n (snd (pty_fd_read e' m k ps)) \<noteq> None \<longleftrightarrow> pty_at n ps \<noteq> None"
    and "queued e n (snd (pty_fd_read e' m k ps)) = queued e n ps"
  using assms
  by (cases e'; auto simp: pty_fd_read_def queued_def slave_read_def master_read_def Let_def split: option.splits pty_end.splits)+

lemma put_keeps:
  assumes "m \<noteq> n \<or> e' \<noteq> e"
  shows "pty_at n (snd (pty_fd_write e' m d ps)) \<noteq> None \<longleftrightarrow> pty_at n ps \<noteq> None"
    and "queued e n (snd (pty_fd_write e' m d ps)) = queued e n ps"
  using assms
  by (cases e'; auto simp: pty_fd_write_def queued_def slave_write_def master_write_def Let_def split: option.splits pty_end.splits)+

lemma step_other:
  assumes "pty_at n ps \<noteq> None" and "\<not> discards n op" and "flow e n op = []"
  shows "pty_at n (snd (snd (pty_step op ps))) \<noteq> None \<and> queued e n (snd (snd (pty_step op ps))) = queued e n ps"
proof (cases op)
  case POpen
  then show ?thesis using assms(1) pty_at_alloc by (fastforce simp: queued_def)
next
  case (PFree m)
  then show ?thesis using assms(1,2) by (auto simp: queued_def)
next
  case (PRead e' m k)
  then show ?thesis using assms get_keeps [of m n e' e k ps] by (auto simp: split_def split: if_splits)
next
  case (PWrite e' m d)
  then show ?thesis using assms put_keeps [of m n e' e d ps] by (auto simp: split_def split: if_splits)
next
  case (PIoctl side m pid rq arg)
  then show ?thesis using assms ioctl_keeps by blast
qed

lemma flow_cases: "flow e n op = [] \<or> (\<exists>d. op = PWrite e n d) \<or> (\<exists>e' k. op = PRead e' n k \<and> e' \<noteq> e)"
  by (cases op) auto

lemma run_refines_queue:
  "pty_at n ps \<noteq> None \<Longrightarrow> \<forall>op \<in> set ops. \<not> discards n op \<Longrightarrow>
     map_prod id (map_prod id (queued e n)) (pty_run e n ops ps) =
       chan_run q_get (q_put BUF_CAP) (concat (map (flow e n) ops)) (queued e n ps)"
proof (induction ops arbitrary: ps)
  case (Cons op ops)
  obtain a b ps1 where st: "pty_step op ps = (a, b, ps1)" by (metis prod_cases3)
  consider "flow e n op = []" | d where "op = PWrite e n d" | e' k where "op = PRead e' n k" "e' \<noteq> e"
    using flow_cases [of e n op] by blast
  then show ?case
  proof cases
    case 1
    then have "pty_at n ps1 \<noteq> None" "queued e n ps1 = queued e n ps" using step_other [of n ps op e] Cons.prems st by simp_all
    with 1 st Cons.IH [of ps1] Cons.prems(2) show ?thesis by (simp add: split_def)
  next
    case (2 d)
    have p: "pty_at n ps1 \<noteq> None" "a = take (fst (pty_fd_write e n d ps)) d" "b = []" "ps1 = snd (pty_fd_write e n d ps)"
      using direction.invar_put [of n ps e d] Cons.prems(1) st 2 by (auto split: prod.splits)
    have "(fst (pty_fd_write e n d ps), queued e n ps1) = q_put BUF_CAP d (queued e n ps)"
      using direction.abs_put [of n ps e d] Cons.prems(1) p(4) by (simp add: map_prod_def split_def)
    with 2 st p Cons.IH [OF p(1)] Cons.prems(2) show ?thesis
      by (auto simp: split_def map_prod_def prod_eq_iff dest: sym)
  next
    case (3 e' k)
    have p: "a = []" "b = fst (direction_get e n k ps)" "pty_at n ps1 = pty_at n (snd (direction_get e n k ps))"
      using fd_read_get [OF 3(2), where n = n and k = k and ps = ps] st 3(1) by (auto split: prod.splits)
    have q: "pty_at n ps1 \<noteq> None" unfolding p(3) using Cons.prems(1) by (rule direction.invar_get)
    have "map_prod id (queued e n) (direction_get e n k ps) = q_get k (queued e n ps)"
      using Cons.prems(1) by (rule direction.abs_get)
    then have "(b, queued e n ps1) = q_get k (queued e n ps)"
      using p(2) queued_cong [OF p(3)] by (simp add: map_prod_def split_def)
    with 3 st p Cons.IH [OF q] Cons.prems(2) show ?thesis
      by (auto simp: split_def map_prod_def prod_eq_iff dest: sym)
  qed
qed simp

text \<open>
  C27: Each direction of a pseudo-terminal is a FIFO of at most 4096 bytes, whatever happens around it. Let
  any sequence of opens, reads and writes at both ends of all pairs, window and settings requests run, in
  any order; as long as pair \<open>n\<close> is neither freed nor flushed, the bytes accepted at an end, the bytes
  delivered at the other and the bytes still queued are those of a bounded queue given only this
  direction's writes and reads, and what was queued, followed by what was accepted, is what was delivered,
  followed by what is queued.\<close>

theorem pty_is_fifo:
  assumes "pty_at n ps \<noteq> None" and "\<forall>op \<in> set ops. \<not> discards n op"
  shows "map_prod id (map_prod id (queued e n)) (pty_run e n ops ps) =
      chan_run q_get (q_put BUF_CAP) (concat (map (flow e n) ops)) (queued e n ps) \<and>
    (case pty_run e n ops ps of (acc, out, ps') \<Rightarrow> queued e n ps @ acc = out @ queued e n ps')"
  using run_refines_queue [OF assms, of e] queue_fifo [where lim = BUF_CAP and ops = "concat (map (flow e n) ops)" and q = "queued e n ps"]
  by (auto split: prod.splits)

theorem pty_is_fifo_witness:
  "case pty_run PtyMaster 0 [PWrite PtyMaster 0 [1, 2, 3], POpen, PWrite PtySlave 0 [9], PRead PtySlave 0 2, PRead PtyMaster 0 5]
      (snd (pty_alloc PAIRS)) of (acc, out, ps') \<Rightarrow> acc = [1, 2, 3] \<and> out = [1, 2] \<and> queued PtyMaster 0 ps' = [3]"
proof -
  define ops where "ops = [PWrite PtyMaster 0 [1, 2, 3], POpen, PWrite PtySlave 0 [9], PRead PtySlave 0 2, PRead PtyMaster 0 5]"
  have open0: "pty_at 0 (snd (pty_alloc PAIRS)) = Some pty_fresh"
    by (simp add: pty_at_def pty_alloc_def PAIRS_def eval_nat_numeral)
  have "map_prod id (map_prod id (queued PtyMaster 0)) (pty_run PtyMaster 0 ops (snd (pty_alloc PAIRS))) =
      chan_run q_get (q_put BUF_CAP) (concat (map (flow PtyMaster 0) ops)) (queued PtyMaster 0 (snd (pty_alloc PAIRS)))"
    using pty_is_fifo [of 0 "snd (pty_alloc PAIRS)" ops PtyMaster] open0 by (simp add: ops_def)
  also have "\<dots> = ([1, 2, 3], [1, 2], [3])"
    by (simp add: ops_def queued_def open0 q_get_def q_put_def)
  finally show ?thesis by (auto simp: ops_def split: prod.splits)
qed

text \<open>
  Opening \<open>/dev/ptmx\<close> hands out a free pair. The number returned is one whose slot was empty and now
  holds an unused locked pair with the default settings; every other slot is unchanged; it fails only when
  all sixteen slots are taken, and then changes nothing.\<close>

theorem pty_alloc_correct:
  assumes "length ps = MAX_PTYS"
  shows "case pty_alloc ps of
      (None, ps') \<Rightarrow> ps' = ps \<and> None \<notin> set ps
    | (Some n, ps') \<Rightarrow> unat n < MAX_PTYS \<and> pty_at n ps = None \<and> ps' = ps[unat n := Some pty_fresh]"
proof (cases "pty_alloc_from 0 ps")
  case (Pair r ps')
  show ?thesis
  proof (cases r)
    case (Some i)
    then have "i < 16" "ps ! i = None" "ps' = ps[i := Some pty_fresh]" using pty_alloc_from_spec [where k = 0 and ps = ps] Pair assms by simp_all
    moreover from \<open>i < 16\<close> have "unat (word_of_nat i :: u8) = i" by (simp add: unat_of_nat)
    ultimately show ?thesis using Pair Some by (simp add: pty_alloc_def pty_at_def)
  qed (use pty_alloc_from_spec [where k = 0 and ps = ps] Pair in \<open>simp add: pty_alloc_def\<close>)
qed

end
