(* ===== verification/Spec2Isabelle.thy ===== *)
theory Spec2Isabelle
  imports Vma_Contract Vma_Placement Vma_Brk Page_Refcount Pipe_Write Eventfd Ke_Wait Ob_Handles Ex_Locks Ex_Work Pmm_Dma Timerfd Net_Loopback Pty
begin

text \<open>
  This library verifies parts of AstryxOS, a kernel for x86-64 written in Rust that offers a Linux
  system-call interface and an executive in the style of Windows NT. Paths below are relative to
  \<open>src/kernel/src/\<close>.

  \<^bold>\<open>Conventions.\<close> The kernel is built in release mode with no optional features: \<open>+\<close>, \<open>-\<close> and \<open>*\<close> wrap,
  and code under \<open>#[cfg(feature = ...)]\<close>, self tests and serial log lines are left out. Machine integers
  are words of their width; \<open>i32\<close> is an integer with the wrap-around written out. A \<open>BTreeMap\<close> is an
  association list sorted by key, a \<open>Vec\<close> is a list, a large fixed array is a list or a function of the index. A
  critical section under one lock is one definition, and one atomic operation or successful
  compare-and-swap is one step. The current thread, the tick count, callbacks, and what other threads do
  while a thread sleeps are arguments. Panics and errors are values of option or sum types.

  \<^bold>\<open>Prelude.\<close> \<open>Rust_Prelude\<close> holds the integer types, saturating arithmetic, vectors, the ordered map with the
  locale \<open>ordered_map\<close>, and the lemmas on words and lists that the components share.

  \<^bold>\<open>Memory.\<close> \<open>Vma_Area\<close>, \<open>Vma_Space\<close>, \<open>Vma_Placement\<close> and \<open>Vma_Brk\<close> model \<open>mm/vma.rs\<close>: areas, the sorted area list with
  \<open>find_vma\<close>, \<open>insert_vma\<close> and \<open>remove_range\<close>, the top-down search for free ranges, and \<open>adjust_brk\<close>. The locale
  \<open>address_space\<close> of \<open>Vma_Contract\<close> says what a mapping system call may rely on, stated over the view from
  addresses to backing pages; its interpretation gives that removal and insertion refine the update of
  that view, and the inode pins of \<open>Inode_Pins\<close> (\<open>vfs/mod.rs\<close>) balance the shared file areas. \<open>Teardown\<close> is the registry of
  ranges being unmapped, with the four stores of a retirement as separate steps (\<open>retire_stores\<close>). \<open>Page_Refcount\<close> models \<open>mm/refcount.rs\<close>, with the compare-and-swap loop of the decrement
  as a step relation between processors. \<open>Pmm_Bitmap\<close> models the frame bitmap of \<open>mm/pmm.rs\<close>: boot-time reservation,
  next-fit allocation of a frame, first-fit allocation of runs, and the accounting. \<open>Pmm_Dma\<close> adds \<open>free_page\<close> with its
  refusals and the pins of \<open>mm/dma_pin.rs\<close>, and shows for every history of operations from boot in which the
  callers keep their side (\<open>history_ok\<close>: they free only frames that the boot map offers and pin only such
  frames while they are in use, neither of which the code checks) that the counters agree with the bitmap and that no pinned frame is handed out.

  \<^bold>\<open>Blocking.\<close> \<open>Waitlist\<close> models the wait lists of \<open>ipc/waitlist.rs\<close> and the thread states of \<open>proc/mod.rs\<close> they change. The
  locale \<open>parking\<close> of \<open>Park_Protocol\<close> proves once that a protocol that re-checks under the lock before parking
  loses no wake-up, except for threads that slept through a change which its maker did not announce
  (\<open>pc_missed\<close>): some writers of the kernel change a pipe and wake nobody. It is interpreted on the poll bell and on
  the readers and the writers of pipes (\<open>Pipe_Wait\<close>). The locale \<open>announced_parking\<close> extends it by the law that every change is
  announced, and is interpreted on event descriptors (\<open>Eventfd\<close>, \<open>ipc/eventfd.rs\<close>). \<open>Timerfd\<close> models \<open>ipc/timerfd.rs\<close>: the table of timers, the counting
  of expiries, and the hint with which the timer interrupt decides without a lock whether to ring the poll
  bell; the hint is never later than the first expiry until the interrupt resets it.

  \<^bold>\<open>Pipes.\<close> \<open>Pipe_Ring\<close> refines the ring buffer of \<open>ipc/pipe.rs\<close> to a queue of bytes through the locale \<open>byte_channel\<close>;
  \<open>Pipe_Table\<close> has the table of pipes with its wait lists; \<open>Pipe_Write\<close> has the blocking write of \<open>subsys/linux/syscall.rs\<close>.

  \<^bold>\<open>Terminals.\<close> \<open>Tty\<close> models the console terminal of \<open>drivers/tty.rs\<close>: the line discipline \<open>process_input\<close>, reading and
  writing, the keyboard pump and \<open>tty_ioctl\<close>, and shows that a line is read as it was edited. \<open>Pty\<close> models the
  pairs of \<open>drivers/pty.rs\<close> with the requests of \<open>syscall/mod.rs\<close>; each direction of a pair is interpreted as a
  \<open>byte_channel\<close>, so it is the same bounded queue as a pipe, whatever the other pairs do.

  \<^bold>\<open>Network.\<close> \<open>Net_Checksum\<close> has the bytes of packets and the Internet checksum, \<open>Net_Arp\<close> the addresses of \<open>net/mod.rs\<close>
  and the cache of \<open>net/arp.rs\<close>, \<open>Net_Stack\<close> the senders and receivers of \<open>net/ethernet.rs\<close>, \<open>net/arp.rs\<close>, \<open>net/ipv4.rs\<close>,
  \<open>net/icmp.rs\<close>, \<open>net/udp.rs\<close> and the queue of \<open>net/loopback.rs\<close>. An index or slice out of range is \<open>None\<close>, and no
  received frame leads to one. \<open>Net_Loopback\<close> composes the two directions: a datagram sent to the loopback
  address arrives at the bound port with its payload. The resolution of an address while sending polls
  the stack again; \<open>stack_resolver\<close> covers such polls nested to any depth. The TCP and IPv6 handlers and the TCP timer
  are arguments, arbitrary functions on the state, and panics inside them are not covered.

  \<^bold>\<open>Kernel executive.\<close> \<open>Ke_Dispatcher\<close> (events, mutants and semaphores of \<open>ke/\<close>), \<open>Ke_Timer\<close> (interrupt levels, deferred and
  asynchronous calls, timers) and \<open>Ke_Wait\<close> (waiting for one or all of several objects). \<open>Ex_Locks\<close> has the push
  locks, resources and fast mutexes of \<open>ex/\<close>; the locale \<open>rw_lock\<close> proves exclusion once for the two kinds of
  reader-writer lock. \<open>Ex_Work\<close> has the work queues.

  \<^bold>\<open>Objects and security.\<close> \<open>Ob_Namespace\<close> and \<open>Ob_Handles\<close> model \<open>ob/\<close>: the tree of named objects and the handle tables; the
  locale \<open>ref_store\<close> relates reference counts to open handles. \<open>Sec_Token\<close> and \<open>Sec_Access\<close> model \<open>security/\<close>: identifiers,
  privileges, tokens, access lists and the two access checks.

  \<^bold>\<open>Bounds and fuel.\<close> Loops over data are structural or have a termination measure: the free bytes and runs of
  the bitmap are searched up to its size. Loops that sleep between attempts (waits, blocking
  writes, contended locks) take a number of rounds and a function for what happens during each sleep, and
  return \<open>None\<close> when the rounds run out. Whether such a call ever returns depends on the other threads, so
  \<open>pipe_write_blocking_accounts\<close> speaks of the calls that return, for any number of rounds; that a parked
  thread is woken is what the no-lost-wake-up theorems show, and \<open>pipe_write_nonblocking_result\<close> shows that
  two rounds are enough when nothing sleeps. The loop \<open>resolve_mac\<close> takes the polls of each attempt as a list; a list that
  ends before the deadline ends the attempt. The retries of the compare-and-swap loop are bounded by the
  changes that other processors make to the counter and the spurious failures of the exchange (\<open>dec_run\<close>). Histories in the invariants are lists of arbitrary length, with a bound where a counter of the
  code has a finite width.

  \<^bold>\<open>Defects.\<close> Some theorems state behaviour that the code or its comments did not intend, such as the
  physical base kept by the upper piece of a split device mapping, the 16-bit reference count that wraps to
  zero, the wake-up lost between queueing a wait block and blocking the thread, the poll bell that is not
  rung for the timers armed besides the one that expired, the line lost when a second one is typed
  before the first is read, the reader left asleep by a write to its pipe that wakes nobody
  (\<open>unannounced_write_strands_reader\<close>), and the reservation that a search sees with base 0 while it is retired
  (\<open>retire_window\<close>).

  \<^bold>\<open>Not modelled.\<close> Page tables, translation buffers, interrupts, context switching and other code whose
  meaning is that of the processor (\<open>arch/\<close>, \<open>mm/vmm.rs\<close>, \<open>mm/tlb.rs\<close>, \<open>sched/\<close>); device drivers other than
  the terminals, which are sequences of port and memory-mapped accesses (\<open>drivers/\<close>, the network cards of
  \<open>net/\<close>); the decoding of scan codes and the console behind the terminal; diagnostics, demonstrations, the
  debugger and the test runner. The file systems, the process table and signals, TCP, IPv6, sockets and the
  name and address clients, the loaders, the graphics and X11 servers and most system calls are ordinary code
  that this library does not cover; where a modelled part calls them they are arguments.
\<close>

end
